(* ===== verification/Prelude.thy ===== *)
theory Prelude
  imports Main "HOL-Library.Word" "HOL-Library.Monad_Syntax" "HOL-Library.Sublist"
begin

text \<open>
  Shared ground of the development: the machine types of the Rust sources, the checked
  slice and index operations of the Rust core library, little-endian byte encodings, and
  the total-correctness predicate that the component lemmas are stated with.

  A Rust panic (an index or slice out of range, a \<open>usize\<close> subtraction below zero) is
  \<^const>\<open>None\<close>: every definition that can panic has an \<open>option\<close> result and
  composes with \<^const>\<open>Option.bind\<close>, so that a panic anywhere is a panic of the whole
  operation.  Lengths and positions are \<open>nat\<close>: every \<open>usize\<close> sum of the sources is
  bounded by a few hundred kilobytes, so additions do not wrap.
\<close>

unbundle bit_operations_syntax

type_synonym u8 = "8 word"
type_synonym u16 = "16 word"
type_synonym u32 = "32 word"
type_synonym bytes = "u8 list"

text \<open>The type of \<open>crc32fast::hash\<close>, a third-party function: a parameter everywhere.\<close>

type_synonym hash_fn = "bytes \<Rightarrow> u32"

named_theorems mux_consts \<open>the numeric constants of the sources\<close>
named_theorems panic_free \<open>checked operations that are known to succeed\<close>


section \<open>Checked operations of the Rust core library\<close>

text \<open>\<open>xs[i]\<close>\<close>

definition idx :: "'a list \<Rightarrow> nat \<Rightarrow> 'a option" where
  "idx xs i = (if i < length xs then Some (xs ! i) else None)"

text \<open>\<open>&xs[a..b]\<close>\<close>

definition slice :: "'a list \<Rightarrow> nat \<Rightarrow> nat \<Rightarrow> 'a list option" where
  "slice xs a b = (if a \<le> b \<and> b \<le> length xs then Some (take (b - a) (drop a xs)) else None)"

text \<open>\<open>xs[a..b].copy_from_slice(src)\<close>: panics unless the lengths agree.\<close>

definition copy_from_slice :: "'a list \<Rightarrow> nat \<Rightarrow> nat \<Rightarrow> 'a list \<Rightarrow> 'a list option" where
  "copy_from_slice xs a b src =
     (if a \<le> b \<and> b \<le> length xs \<and> length src = b - a
      then Some (take a xs @ src @ drop b xs) else None)"

text \<open>\<open>xs.copy_within(a..b, d)\<close>\<close>

definition copy_within :: "'a list \<Rightarrow> nat \<Rightarrow> nat \<Rightarrow> nat \<Rightarrow> 'a list option" where
  "copy_within xs a b d =
     (if a \<le> b \<and> b \<le> length xs \<and> d + (b - a) \<le> length xs
      then Some (take d xs @ take (b - a) (drop a xs) @ drop (d + (b - a)) xs) else None)"

text \<open>\<open>xs[i] = v\<close>\<close>

definition set_idx :: "'a list \<Rightarrow> nat \<Rightarrow> 'a \<Rightarrow> 'a list option" where
  "set_idx xs i v = (if i < length xs then Some (xs[i := v]) else None)"

text \<open>\<open>a - b\<close> on \<open>usize\<close>, with the overflow check of the language.\<close>

definition usub :: "nat \<Rightarrow> nat \<Rightarrow> nat option" where
  "usub a b = (if b \<le> a then Some (a - b) else None)"

text \<open>\<open>xs.iter().position(|&b| b == v)\<close>\<close>

fun position :: "'a \<Rightarrow> 'a list \<Rightarrow> nat option" where
  "position v [] = None"
| "position v (x # xs) = (if x = v then Some 0 else map_option Suc (position v xs))"

lemma idx_ok [panic_free]: "i < length xs \<Longrightarrow> idx xs i = Some (xs ! i)"
  by (simp add: idx_def)

lemma slice_ok [panic_free]:
  "a \<le> b \<Longrightarrow> b \<le> length xs \<Longrightarrow> slice xs a b = Some (take (b - a) (drop a xs))"
  by (simp add: slice_def)

lemma copy_from_slice_ok [panic_free]:
  "a \<le> b \<Longrightarrow> b \<le> length xs \<Longrightarrow> length src = b - a
   \<Longrightarrow> copy_from_slice xs a b src = Some (take a xs @ src @ drop b xs)"
  by (simp add: copy_from_slice_def)

lemma copy_within_front [panic_free]:
  "a \<le> b \<Longrightarrow> b \<le> length xs
   \<Longrightarrow> copy_within xs a b 0 = Some (take (b - a) (drop a xs) @ drop (b - a) xs)"
  by (auto simp: copy_within_def)

lemma set_idx_ok [panic_free]: "i < length xs \<Longrightarrow> set_idx xs i v = Some (xs[i := v])"
  by (simp add: set_idx_def)

lemma usub_ok [panic_free]: "b \<le> a \<Longrightarrow> usub a b = Some (a - b)"
  by (simp add: usub_def)

lemma position_Some_iff:
  "position v xs = Some i \<longleftrightarrow> i < length xs \<and> xs ! i = v \<and> v \<notin> set (take i xs)"
proof (induction xs arbitrary: i)
  case Nil
  then show ?case by simp
next
  case (Cons x xs)
  then show ?case by (cases i) auto
qed

lemma position_None_iff: "position v xs = None \<longleftrightarrow> v \<notin> set xs"
  by (induction xs) auto

lemma position_split:
  "position v xs = Some i \<Longrightarrow> xs = take i xs @ v # drop (Suc i) xs \<and> v \<notin> set (take i xs)"
  by (auto simp: position_Some_iff id_take_nth_drop)

lemma position_dropWhile: "position v xs = Some i \<Longrightarrow> drop i xs = dropWhile (\<lambda>x. x \<noteq> v) xs"
  by (induction xs arbitrary: i) (auto split: if_splits)

lemma drop_last_take: "0 < n \<Longrightarrow> n \<le> length xs \<Longrightarrow> drop (n - 1) (take n xs) = [xs ! (n - 1)]"
  by (simp add: Cons_nth_drop_Suc [symmetric])

lemma take_take_drop: "a + b \<le> n \<Longrightarrow> take b (drop a (take n xs)) = take b (drop a xs)"
  by (simp add: drop_take min_absorb1)


section \<open>Little-endian encodings\<close>

definition to_le_bytes16 :: "u16 \<Rightarrow> bytes" where
  "to_le_bytes16 w = [ucast w, ucast (drop_bit 8 w)]"

definition to_le_bytes32 :: "u32 \<Rightarrow> bytes" where
  "to_le_bytes32 w =
     [ucast w, ucast (drop_bit 8 w), ucast (drop_bit 16 w), ucast (drop_bit 24 w)]"

definition from_le_bytes16 :: "u8 \<Rightarrow> u8 \<Rightarrow> u16" where
  "from_le_bytes16 a b = ucast a OR push_bit 8 (ucast b)"

text \<open>\<open>u32::from_le_bytes(slice.try_into().unwrap())\<close>: the conversion to a four-byte array
  panics on any other length.\<close>

definition from_le_bytes32 :: "bytes \<Rightarrow> u32 option" where
  "from_le_bytes32 bs =
     (case bs of
        [a, b, c, d] \<Rightarrow>
          Some (ucast a OR push_bit 8 (ucast b) OR push_bit 16 (ucast c) OR push_bit 24 (ucast d))
      | _ \<Rightarrow> None)"

lemma length_to_le_bytes16 [simp]: "length (to_le_bytes16 w) = 2"
  by (simp add: to_le_bytes16_def)

lemma length_to_le_bytes32 [simp]: "length (to_le_bytes32 w) = 4"
  by (simp add: to_le_bytes32_def)

lemma u8_bit_beyond [simp]: "8 \<le> n \<Longrightarrow> \<not> bit (a :: u8) n"
  using bit_imp_le_length [of a n] by auto

lemma from_to_le_bytes16:
  "to_le_bytes16 w = [a, b] \<Longrightarrow> from_le_bytes16 a b = w"
  unfolding to_le_bytes16_def from_le_bytes16_def
  by (rule bit_word_eqI) (auto simp: bit_simps)

lemma to_from_le_bytes16: "to_le_bytes16 (from_le_bytes16 a b) = [a, b]"
  unfolding to_le_bytes16_def from_le_bytes16_def
  by (auto intro!: bit_word_eqI simp: bit_simps)

lemma le_bytes32_word:
  "ucast (ucast w :: u8) OR push_bit 8 (ucast (ucast (drop_bit 8 w) :: u8))
     OR push_bit 16 (ucast (ucast (drop_bit 16 w) :: u8))
     OR push_bit 24 (ucast (ucast (drop_bit 24 w) :: u8)) = (w :: u32)" (is "?l = w")
proof (rule bit_word_eqI)
  fix n :: nat
  assume "n < LENGTH(32)"
  then consider "n < 8" | "8 \<le> n" "n < 16" | "16 \<le> n" "n < 24" | "24 \<le> n" "n < 32"
    by fastforce
  then show "bit ?l n = bit w n"
    by cases (auto simp: bit_simps)
qed

lemma from_to_le_bytes32 [simp]: "from_le_bytes32 (to_le_bytes32 w) = Some w"
  by (simp add: to_le_bytes32_def from_le_bytes32_def le_bytes32_word)

lemma to_from_le_bytes32: "from_le_bytes32 bs = Some w \<Longrightarrow> to_le_bytes32 w = bs"
  unfolding to_le_bytes32_def from_le_bytes32_def
  by (auto split: list.splits intro!: bit_word_eqI simp: bit_simps)

lemma from_le_bytes32_Some: "length bs = 4 \<Longrightarrow> \<exists>w. from_le_bytes32 bs = Some w"
  by (auto simp: from_le_bytes32_def length_Suc_conv numeral_eq_Suc)

lemma unat_u8_le: "unat (x :: u8) \<le> 255"
  using unsigned_less [of x, where 'a = nat] by simp

text \<open>\<open>xs.chunks(n)\<close>: a list cut into pieces of \<open>n\<close>.\<close>

function chunks_of :: "nat \<Rightarrow> 'a list \<Rightarrow> 'a list list" where
  "chunks_of n xs = (if xs = [] \<or> n = 0 then [] else take n xs # chunks_of n (drop n xs))"
  by pat_completeness auto
termination
  by (relation "measure (\<lambda>(n, xs). length xs)") auto

declare chunks_of.simps [simp del]

lemma chunks_Nil [simp]: "chunks_of n [] = []"
  by (simp add: chunks_of.simps)

lemma concat_chunks: "0 < n \<Longrightarrow> concat (chunks_of n xs) = xs"
proof (induction n xs rule: chunks_of.induct)
  case (1 n xs)
  then show ?case by (cases "xs = []") (simp_all add: chunks_of.simps [of n xs])
qed

lemma chunks_bound: "seg \<in> set (chunks_of n xs) \<Longrightarrow> seg \<noteq> [] \<and> length seg \<le> n"
proof (induction n xs rule: chunks_of.induct)
  case (1 n xs)
  then show ?case by (cases "xs = [] \<or> n = 0") (auto simp: chunks_of.simps [of n xs])
qed


lemma mem_subseq: "subseq xs ys \<Longrightarrow> x \<in> set xs \<Longrightarrow> x \<in> set ys"
  by (induction rule: list_emb.induct) auto

end
