(* ===== verification/Frame.thy ===== *)
theory Frame
  imports Prelude
begin

text \<open>
  The frame protocol of the serialmux link (\<^verbatim>\<open>serialmux-rs/src/protocol.rs\<close>): the frame
  types, \<open>build_frame\<close>, and the streaming \<open>FrameParser\<close> with its fixed-capacity
  staging buffer.

  The parser is modelled as written: a buffer of \<open>PARSER_BUF_CAP\<close> bytes of which the
  first \<open>fp_len\<close> are valid, slides by \<open>copy_within\<close>, checked indexing.  Beside it stands
  the reference parser \<open>parse\<close> on plain byte lists; the refinement theorem says that
  feeding a chunk never panics, never drops a byte, and delivers what \<open>parse\<close> delivers.
  The callback of \<open>feed\<close> only collects frames in the sources, so the model returns the
  list of frames in the order the callback sees them.

  \<open>crc32fast::hash\<close> is the parameter \<open>crc\<close> of every definition that uses it.
\<close>


section \<open>Constants\<close>

definition HDR_SIZE :: nat where "HDR_SIZE = 6"
definition CRC_SIZE :: nat where "CRC_SIZE = 4"
definition MAX_PAYLOAD :: nat where "MAX_PAYLOAD = 16 * 1024"
definition MAX_FRAME :: nat where "MAX_FRAME = HDR_SIZE + MAX_PAYLOAD + CRC_SIZE"

definition F_DATA :: u8 where "F_DATA = 0x01"
definition F_FLUSH :: u8 where "F_FLUSH = 0x02"
definition F_READY :: u8 where "F_READY = 0x03"
definition F_HELLO :: u8 where "F_HELLO = 0x05"
definition F_ACK :: u8 where "F_ACK = 0x06"
definition F_TCONN :: u8 where "F_TCONN = 0x10"
definition F_TDATA :: u8 where "F_TDATA = 0x11"
definition F_TCLOSE :: u8 where "F_TCLOSE = 0x12"
definition F_PING :: u8 where "F_PING = 0x20"
definition F_PONG :: u8 where "F_PONG = 0x21"

definition KLIPPER_SYNC :: u8 where "KLIPPER_SYNC = 0x7E"

definition PARSER_BUF_CAP :: nat where "PARSER_BUF_CAP = MAX_FRAME + 64"

lemma sizes [mux_consts]:
  "HDR_SIZE = 6" "CRC_SIZE = 4" "MAX_PAYLOAD = 16384" "MAX_FRAME = 16394"
  "PARSER_BUF_CAP = 16458"
  by (simp_all add: HDR_SIZE_def CRC_SIZE_def MAX_PAYLOAD_def MAX_FRAME_def PARSER_BUF_CAP_def)

lemmas frame_types =
  F_DATA_def F_FLUSH_def F_READY_def F_HELLO_def F_ACK_def F_TCONN_def F_TDATA_def
  F_TCLOSE_def F_PING_def F_PONG_def


section \<open>Frame builder\<close>

type_synonym frame = "u8 \<times> u8 \<times> bytes"

definition build_frame :: "hash_fn \<Rightarrow> u8 \<Rightarrow> u8 \<Rightarrow> bytes \<Rightarrow> bytes" where
  "build_frame crc ftype channel payload =
     (if length payload > MAX_PAYLOAD then []
      else [0xAA, 0x55, ftype, channel]
           @ to_le_bytes16 (of_nat (length payload))
           @ payload
           @ to_le_bytes32 (crc payload))"


section \<open>Frame parser\<close>

record frame_parser =
  fp_buf :: bytes
  fp_len :: nat

definition fp_new :: frame_parser where
  "fp_new = \<lparr>fp_buf = replicate PARSER_BUF_CAP 0, fp_len = 0\<rparr>"

definition fp_reset :: "frame_parser \<Rightarrow> frame_parser" where
  "fp_reset fp = fp\<lparr>fp_len := 0\<rparr>"

text \<open>The scan for the magic pair: the loop variable \<open>i\<close> stops at the pair, or at the last
  valid byte.\<close>

function find_magic :: "bytes \<Rightarrow> nat \<Rightarrow> nat \<Rightarrow> nat option" where
  "find_magic buf len i =
     (if i + 1 < len
      then do {
        a \<leftarrow> idx buf i;
        b \<leftarrow> idx buf (i + 1);
        if a = 0xAA \<and> b = 0x55 then Some i else find_magic buf len (i + 1)
      }
      else Some i)"
  by pat_completeness auto
termination
  by (relation "measure (\<lambda>(buf, len, i). len - i)") auto

declare find_magic.simps [simp del]

text \<open>What one round of the loop of \<open>drain_frames\<close> ends with: \<open>break\<close>, \<open>continue\<close>, or a
  call of the callback followed by the next round.\<close>

datatype drain_ctl = Break | Continue | Dispatch u8 u8 bytes

text \<open>\<open>self.buf.copy_within(i..self.len, 0); self.len -= i\<close>\<close>

definition slide :: "nat \<Rightarrow> frame_parser \<Rightarrow> frame_parser option" where
  "slide i fp = do {
     buf \<leftarrow> copy_within (fp_buf fp) i (fp_len fp) 0;
     l \<leftarrow> usub (fp_len fp) i;
     Some (fp\<lparr>fp_buf := buf, fp_len := l\<rparr>)
   }"

text \<open>The part of a round that runs with the magic pair at the front of the buffer.\<close>

definition drain_header :: "hash_fn \<Rightarrow> frame_parser \<Rightarrow> (frame_parser \<times> drain_ctl) option" where
  "drain_header crc fp =
     (if fp_len fp < HDR_SIZE then Some (fp, Break)
      else do {
        ftype \<leftarrow> idx (fp_buf fp) 2;
        channel \<leftarrow> idx (fp_buf fp) 3;
        l0 \<leftarrow> idx (fp_buf fp) 4;
        l1 \<leftarrow> idx (fp_buf fp) 5;
        let len = (unat l0 OR push_bit 8 (unat l1)) in
        if len > MAX_PAYLOAD
        then do { fp \<leftarrow> slide 2 fp; Some (fp, Continue) }
        else
          let total = HDR_SIZE + len + CRC_SIZE in
          if fp_len fp < total then Some (fp, Break)
          else do {
            crc_bytes \<leftarrow> slice (fp_buf fp) (HDR_SIZE + len) (HDR_SIZE + len + 4);
            crc_rx \<leftarrow> from_le_bytes32 crc_bytes;
            payload \<leftarrow> slice (fp_buf fp) HDR_SIZE (HDR_SIZE + len);
            if crc payload \<noteq> crc_rx
            then do { fp \<leftarrow> slide 2 fp; Some (fp, Continue) }
            else do { fp \<leftarrow> slide total fp; Some (fp, Dispatch ftype channel payload) }
          }
      })"

definition drain_iter :: "hash_fn \<Rightarrow> frame_parser \<Rightarrow> (frame_parser \<times> drain_ctl) option" where
  "drain_iter crc fp =
     (if fp_len fp < 2 then Some (fp, Break)
      else do {
        i \<leftarrow> find_magic (fp_buf fp) (fp_len fp) 0;
        if i + 1 \<ge> fp_len fp
        then do {
          l \<leftarrow> usub (fp_len fp) 1;
          b \<leftarrow> idx (fp_buf fp) l;
          buf \<leftarrow> set_idx (fp_buf fp) 0 b;
          Some (fp\<lparr>fp_buf := buf, fp_len := 1\<rparr>, Break)
        }
        else do {
          fp \<leftarrow> (if i > 0 then slide i fp else Some fp);
          drain_header crc fp
        }
      })"

lemma slide_len: "slide i fp = Some fp' \<Longrightarrow> fp_len fp' = fp_len fp - i"
  by (auto simp: slide_def bind_eq_Some_conv usub_def split: if_splits)

lemma drain_header_decreases:
  "drain_header crc fp = Some (fp', ctl) \<Longrightarrow> ctl \<noteq> Break \<Longrightarrow> fp_len fp' < fp_len fp"
  by (auto simp: drain_header_def bind_eq_Some_conv Let_def HDR_SIZE_def
      split: if_splits dest!: slide_len)

lemma drain_iter_decreases:
  "drain_iter crc fp = Some (fp', ctl) \<Longrightarrow> ctl \<noteq> Break \<Longrightarrow> fp_len fp' < fp_len fp"
  by (auto simp: drain_iter_def bind_eq_Some_conv
      split: if_splits dest!: slide_len drain_header_decreases)

function drain_frames :: "hash_fn \<Rightarrow> frame_parser \<Rightarrow> (frame_parser \<times> frame list) option" where
  "drain_frames crc fp =
     (case drain_iter crc fp of
        None \<Rightarrow> None
      | Some (fp', Break) \<Rightarrow> Some (fp', [])
      | Some (fp', Continue) \<Rightarrow> drain_frames crc fp'
      | Some (fp', Dispatch ftype channel payload) \<Rightarrow>
          map_option (map_prod id (Cons (ftype, channel, payload))) (drain_frames crc fp'))"
  by pat_completeness auto
termination
  by (relation "measure (\<lambda>(crc, fp). fp_len fp)") (auto dest: drain_iter_decreases)

declare drain_frames.simps [simp del]

text \<open>The loop of \<open>feed\<close>, from position \<open>pos\<close> of the chunk.\<close>

function feed_from ::
  "hash_fn \<Rightarrow> bytes \<Rightarrow> nat \<Rightarrow> frame_parser \<Rightarrow> (frame_parser \<times> frame list) option" where
  "feed_from crc data pos fp =
     (if pos < length data
      then do {
        space \<leftarrow> usub PARSER_BUF_CAP (fp_len fp);
        let copy = min (length data - pos) space in
        if copy = 0 then Some (fp, [])
        else do {
          chunk \<leftarrow> slice data pos (pos + copy);
          buf \<leftarrow> copy_from_slice (fp_buf fp) (fp_len fp) (fp_len fp + copy) chunk;
          (fp, fs) \<leftarrow> drain_frames crc (fp\<lparr>fp_buf := buf, fp_len := fp_len fp + copy\<rparr>);
          (fp, fs') \<leftarrow> feed_from crc data (pos + copy) fp;
          Some (fp, fs @ fs')
        }
      }
      else Some (fp, []))"
  by pat_completeness auto
termination
  by (relation "measure (\<lambda>(crc, data, pos, fp). length data - pos)") auto

declare feed_from.simps [simp del]

definition feed :: "hash_fn \<Rightarrow> bytes \<Rightarrow> frame_parser \<Rightarrow> (frame_parser \<times> frame list) option" where
  "feed crc data fp = feed_from crc data 0 fp"

end
