(* ===== verification/Stream_Decoder.thy ===== *)
theory Stream_Decoder
  imports Prelude
begin

text \<open>
  The interface of an incremental decoder.  Every decoder of the program (the frame parser of
  the link and the tunnel codecs) is called with whatever chunk the last \<open>read()\<close> returned.
  A decoder is well behaved when cutting its input into chunks makes no difference: decoding
  \<open>xs @ ys\<close> from a state is decoding \<open>xs\<close>, then \<open>ys\<close> from the state that leaves.

  The locale \<open>stream_decoder\<close> states these laws of a pure step function; \<open>buffered_decoder\<close>
  extends it with an implementation that may panic and that refines the step function through
  an abstraction of its state.  The lemmas of the two locales, on runs over lists of chunks,
  hold of each decoder through its interpretation.
\<close>

text \<open>Calls of a decoder on a list of chunks, the frames of all calls collected in order.\<close>

fun run_steps :: "('s \<Rightarrow> 'b list \<Rightarrow> 's \<times> 'f list) \<Rightarrow> 's \<Rightarrow> 'b list list \<Rightarrow> 's \<times> 'f list" where
  "run_steps f s [] = (s, [])"
| "run_steps f s (c # cs) =
     (let (s1, fs1) = f s c; (s2, fs2) = run_steps f s1 cs in (s2, fs1 @ fs2))"

fun run_chunks ::
  "('c \<Rightarrow> 'b list \<Rightarrow> ('c \<times> 'f list) option) \<Rightarrow> 'c \<Rightarrow> 'b list list \<Rightarrow> ('c \<times> 'f list) option" where
  "run_chunks f c [] = Some (c, [])"
| "run_chunks f c (d # ds) = do {
     (c1, fs1) \<leftarrow> f c d;
     (c2, fs2) \<leftarrow> run_chunks f c1 ds;
     Some (c2, fs1 @ fs2)
   }"

locale stream_decoder =
  fixes step :: "'s \<Rightarrow> 'b list \<Rightarrow> 's \<times> 'f list"
    and good :: "'s \<Rightarrow> bool"
  assumes step_append:
      "good s \<Longrightarrow> step s (xs @ ys) =
         (let (s1, fs1) = step s xs; (s2, fs2) = step s1 ys in (s2, fs1 @ fs2))"
    and step_Nil: "good s \<Longrightarrow> step s [] = (s, [])"
    and step_good: "good s \<Longrightarrow> good (fst (step s xs))"
begin

lemma run_concat: "good s \<Longrightarrow> run_steps step s cs = step s (concat cs)"
proof (induction cs arbitrary: s)
  case Nil
  then show ?case by (simp add: step_Nil)
next
  case (Cons c cs)
  have "good (fst (step s c))" using Cons.prems by (rule step_good)
  from Cons.IH [OF this] show ?case
    by (auto simp: step_append [OF Cons.prems] split: prod.splits)
qed

text \<open>How the bytes were cut into chunks does not matter.\<close>

lemma run_chunking:
  "good s \<Longrightarrow> concat cs = concat ds \<Longrightarrow> run_steps step s cs = run_steps step s ds"
  by (simp add: run_concat)

end

locale buffered_decoder = stream_decoder step good
  for step :: "'s \<Rightarrow> 'b list \<Rightarrow> 's \<times> 'f list" and good :: "'s \<Rightarrow> bool" +
  fixes impl :: "'c \<Rightarrow> 'b list \<Rightarrow> ('c \<times> 'f list) option"
    and obs :: "'c \<Rightarrow> 's"
    and inv :: "'c \<Rightarrow> bool"
  assumes impl_refines:
      "inv c \<Longrightarrow> good (obs c) \<Longrightarrow>
         \<exists>c'. impl c xs = Some (c', snd (step (obs c) xs))
            \<and> obs c' = fst (step (obs c) xs) \<and> inv c'"
begin

lemma impl_run:
  assumes "inv c" "good (obs c)"
  shows "\<exists>c'. run_chunks impl c cs = Some (c', snd (step (obs c) (concat cs)))
            \<and> obs c' = fst (step (obs c) (concat cs)) \<and> inv c' \<and> good (obs c')"
  using assms
proof (induction cs arbitrary: c)
  case Nil
  then show ?case by (simp add: step_Nil)
next
  case (Cons d ds)
  obtain c1 where c1: "impl c d = Some (c1, snd (step (obs c) d))"
    "obs c1 = fst (step (obs c) d)" "inv c1"
    using impl_refines [OF Cons.prems] by blast
  then have "good (obs c1)" using step_good [OF Cons.prems(2)] by simp
  with Cons.IH [OF c1(3)] obtain c2 where
    "run_chunks impl c1 ds = Some (c2, snd (step (obs c1) (concat ds)))"
    "obs c2 = fst (step (obs c1) (concat ds))" "inv c2" "good (obs c2)" by blast
  with c1 show ?case
    by (auto simp: step_append [OF Cons.prems(2)] split: prod.splits)
qed

lemma impl_chunking:
  assumes "inv c" "good (obs c)" "concat cs = concat ds"
  shows "map_option snd (run_chunks impl c cs) = map_option snd (run_chunks impl c ds)"
  using impl_run [OF assms(1,2), of cs] impl_run [OF assms(1,2), of ds] assms(3) by auto

end

end
