(* ===== verification/Frame_Spec.thy ===== *)
theory Frame_Spec
  imports Frame Stream_Decoder
begin

text \<open>
  The reference parser: what the frame parser computes, on the list of bytes received so far,
  with no staging buffer.  One round of the parser is \<open>parse_iter\<close>; \<open>parse\<close> iterates it and
  returns the bytes it keeps and the frames it found.
\<close>


section \<open>The reference parser\<close>

fun skip_to_magic :: "bytes \<Rightarrow> bytes" where
  "skip_to_magic (a # b # xs) =
     (if a = 0xAA \<and> b = 0x55 then a # b # xs else skip_to_magic (b # xs))"
| "skip_to_magic xs = xs"

definition header_len :: "u8 \<Rightarrow> u8 \<Rightarrow> nat" where
  "header_len l0 l1 = (unat l0 OR push_bit 8 (unat l1))"

definition header_iter :: "hash_fn \<Rightarrow> bytes \<Rightarrow> bytes \<times> drain_ctl" where
  "header_iter crc s =
     (if length s < HDR_SIZE then (s, Break)
      else let len = header_len (s ! 4) (s ! 5) in
        if len > MAX_PAYLOAD then (drop 2 s, Continue)
        else if length s < HDR_SIZE + len + CRC_SIZE then (s, Break)
        else let payload = take len (drop HDR_SIZE s) in
          if from_le_bytes32 (take 4 (drop (HDR_SIZE + len) s)) = Some (crc payload)
          then (drop (HDR_SIZE + len + CRC_SIZE) s, Dispatch (s ! 2) (s ! 3) payload)
          else (drop 2 s, Continue))"

definition parse_iter :: "hash_fn \<Rightarrow> bytes \<Rightarrow> bytes \<times> drain_ctl" where
  "parse_iter crc bs = header_iter crc (skip_to_magic bs)"

lemma length_skip_to_magic: "length (skip_to_magic bs) \<le> length bs"
  by (induction bs rule: skip_to_magic.induct) auto

lemma header_iter_decreases:
  "header_iter crc s = (s', ctl) \<Longrightarrow> ctl \<noteq> Break \<Longrightarrow> length s' < length s"
  by (auto simp: header_iter_def Let_def mux_consts split: if_splits)

lemma parse_iter_decreases:
  assumes "parse_iter crc bs = (s', ctl)" "ctl \<noteq> Break"
  shows "length s' < length bs"
  using header_iter_decreases [of crc "skip_to_magic bs" s' ctl] length_skip_to_magic [of bs] assms
  by (simp add: parse_iter_def)

function parse :: "hash_fn \<Rightarrow> bytes \<Rightarrow> bytes \<times> frame list" where
  "parse crc bs =
     (case parse_iter crc bs of
        (s, Break) \<Rightarrow> (s, [])
      | (s, Continue) \<Rightarrow> parse crc s
      | (s, Dispatch t c p) \<Rightarrow> map_prod id (Cons (t, c, p)) (parse crc s))"
  by pat_completeness auto
termination
  by (relation "measure (\<lambda>(crc, bs). length bs)")
    (auto dest: parse_iter_decreases [OF sym])

declare parse.simps [simp del]


section \<open>The staging buffer implements the reference parser\<close>

definition fp_view :: "frame_parser \<Rightarrow> bytes" where
  "fp_view fp = take (fp_len fp) (fp_buf fp)"

definition fp_inv :: "frame_parser \<Rightarrow> bool" where
  "fp_inv fp \<longleftrightarrow> length (fp_buf fp) = PARSER_BUF_CAP \<and> fp_len fp \<le> PARSER_BUF_CAP"

lemma length_fp_view [simp]: "fp_inv fp \<Longrightarrow> length (fp_view fp) = fp_len fp"
  by (simp add: fp_view_def fp_inv_def)

lemma fp_view_nth: "fp_inv fp \<Longrightarrow> i < fp_len fp \<Longrightarrow> fp_view fp ! i = fp_buf fp ! i"
  by (simp add: fp_view_def)

lemma find_magic_refines:
  assumes "i < len" "len \<le> length buf"
  shows "\<exists>j. find_magic buf len i = Some j \<and> j < len
             \<and> skip_to_magic (drop i (take len buf)) = drop j (take len buf)"
  using assms
proof (induction buf len i rule: find_magic.induct)
  case (1 buf len i)
  let ?v = "take len buf"
  show ?case
  proof (cases "i + 1 < len")
    case True
    with "1.prems" have d: "drop i ?v = buf ! i # buf ! Suc i # drop (Suc (Suc i)) ?v"
      by (simp add: Cons_nth_drop_Suc [symmetric])
    have d': "drop (Suc i) ?v = buf ! Suc i # drop (Suc (Suc i)) ?v"
      using True "1.prems" by (simp add: Cons_nth_drop_Suc [symmetric])
    show ?thesis
    proof (cases "buf ! i = 0xAA \<and> buf ! Suc i = 0x55")
      case True
      with \<open>i + 1 < len\<close> "1.prems" d show ?thesis
        by (intro exI [of _ i]) (simp add: find_magic.simps [of buf len i] idx_ok)
    next
      case False
      have "\<exists>j. find_magic buf len (i + 1) = Some j \<and> j < len
              \<and> skip_to_magic (drop (i + 1) ?v) = drop j ?v"
        using "1.IH" [of "buf ! i" "buf ! Suc i"] True False "1.prems" by (auto simp: idx_ok)
      with True False "1.prems" d d' show ?thesis
        by (auto simp: find_magic.simps [of buf len i] idx_ok)
    qed
  next
    case False
    with "1.prems" have "i = len - 1" by simp
    then have "drop i ?v = [buf ! i]"
      using "1.prems" by (simp add: drop_last_take del: One_nat_def)
    moreover have "find_magic buf len i = Some i"
      using False by (subst find_magic.simps) simp
    ultimately show ?thesis using "1.prems" by auto
  qed
qed

lemma slide_refines:
  assumes "fp_inv fp" "i \<le> fp_len fp"
  shows "\<exists>fp'. slide i fp = Some fp' \<and> fp_inv fp' \<and> fp_view fp' = drop i (fp_view fp)"
proof -
  have "slide i fp = Some (fp\<lparr>fp_buf := drop i (fp_view fp) @ drop (fp_len fp - i) (fp_buf fp),
                              fp_len := fp_len fp - i\<rparr>)"
    using assms by (simp add: slide_def fp_inv_def fp_view_def panic_free drop_take)
  then show ?thesis
    using assms by (auto simp: fp_inv_def fp_view_def)
qed

lemma drain_header_refines:
  assumes inv: "fp_inv fp" and hi: "header_iter crc (fp_view fp) = (s, ctl)"
  shows "\<exists>fp'. drain_header crc fp = Some (fp', ctl) \<and> fp_inv fp' \<and> fp_view fp' = s"
proof (cases "fp_len fp < HDR_SIZE")
  case True
  with assms show ?thesis by (auto simp: header_iter_def drain_header_def)
next
  case False
  define len where "len = header_len (fp_buf fp ! 4) (fp_buf fp ! 5)"
  have cap: "fp_len fp \<le> length (fp_buf fp)" "6 \<le> fp_len fp"
    using False inv by (auto simp: fp_inv_def mux_consts)
  have v: "fp_view fp ! 2 = fp_buf fp ! 2" "fp_view fp ! 3 = fp_buf fp ! 3"
    "fp_view fp ! 4 = fp_buf fp ! 4" "fp_view fp ! 5 = fp_buf fp ! 5"
    using cap(2) fp_view_nth [OF inv] by simp_all
  have ix: "idx (fp_buf fp) 2 = Some (fp_buf fp ! 2)" "idx (fp_buf fp) 3 = Some (fp_buf fp ! 3)"
    "idx (fp_buf fp) 4 = Some (fp_buf fp ! 4)" "idx (fp_buf fp) 5 = Some (fp_buf fp ! 5)"
    using cap by (simp_all add: idx_ok)
  obtain fp2 where fp2: "slide 2 fp = Some fp2" "fp_inv fp2" "fp_view fp2 = drop 2 (fp_view fp)"
    using slide_refines [OF inv, of 2] cap by auto
  show ?thesis
  proof (cases "len \<le> MAX_PAYLOAD \<and> \<not> fp_len fp < HDR_SIZE + len + CRC_SIZE")
    case False
    then show ?thesis
      using hi \<open>\<not> fp_len fp < HDR_SIZE\<close> fp2 inv
      by (auto simp: header_iter_def drain_header_def ix v len_def header_len_def Let_def
          split: if_splits)
  next
    case True
    let ?t = "HDR_SIZE + len + CRC_SIZE"
    let ?p = "take len (drop HDR_SIZE (fp_view fp))"
    have p: "slice (fp_buf fp) HDR_SIZE (HDR_SIZE + len) = Some ?p"
      using True cap by (simp add: slice_ok fp_view_def take_take_drop CRC_SIZE_def)
    obtain c where c: "slice (fp_buf fp) (HDR_SIZE + len) (HDR_SIZE + len + 4) = Some c"
      "c = take 4 (drop (HDR_SIZE + len) (fp_view fp))" "length c = 4"
      using True cap by (auto simp: slice_ok fp_view_def take_take_drop CRC_SIZE_def min_absorb2)
    obtain w where w: "from_le_bytes32 c = Some w"
      using from_le_bytes32_Some [OF c(3)] by auto
    obtain fpt where fpt: "slide ?t fp = Some fpt" "fp_inv fpt" "fp_view fpt = drop ?t (fp_view fp)"
      using slide_refines [OF inv, of ?t] True by auto
    show ?thesis
      using hi True \<open>\<not> fp_len fp < HDR_SIZE\<close> fp2 fpt inv c w p
      by (auto simp: header_iter_def drain_header_def ix v len_def header_len_def Let_def
          split: if_splits)
  qed
qed

lemma skip_to_magic_short: "length bs < 2 \<Longrightarrow> skip_to_magic bs = bs"
  by (cases bs rule: skip_to_magic.cases) auto

lemma drain_iter_refines:
  assumes inv: "fp_inv fp" and pi: "parse_iter crc (fp_view fp) = (s, ctl)"
  shows "\<exists>fp'. drain_iter crc fp = Some (fp', ctl) \<and> fp_inv fp' \<and> fp_view fp' = s"
proof (cases "fp_len fp < 2")
  case True
  with assms show ?thesis
    by (auto simp: drain_iter_def parse_iter_def header_iter_def skip_to_magic_short mux_consts)
next
  case False
  have "fp_len fp \<le> length (fp_buf fp)" using inv by (simp add: fp_inv_def)
  with False find_magic_refines [of 0 "fp_len fp" "fp_buf fp"] obtain j where
    j: "find_magic (fp_buf fp) (fp_len fp) 0 = Some j" "j < fp_len fp"
    "skip_to_magic (fp_view fp) = drop j (fp_view fp)"
    by (auto simp: fp_view_def)
  show ?thesis
  proof (cases "j + 1 < fp_len fp")
    case True
    obtain fpj where fpj: "slide j fp = Some fpj" "fp_inv fpj" "fp_view fpj = drop j (fp_view fp)"
      using slide_refines [OF inv, of j] j(2) by auto
    then have "header_iter crc (fp_view fpj) = (s, ctl)" using pi j(3) by (simp add: parse_iter_def)
    from drain_header_refines [OF fpj(2) this] drain_header_refines [OF inv, of crc s ctl]
    show ?thesis using True False j pi fpj by (auto simp: drain_iter_def parse_iter_def)
  next
    case last: False
    with j have jl: "j = fp_len fp - 1" by simp
    then have "drop j (fp_view fp) = [fp_buf fp ! (fp_len fp - 1)]"
      using False inv by (simp add: fp_view_def fp_inv_def drop_last_take del: One_nat_def)
    then show ?thesis
      using last False j pi inv
      by (auto simp: drain_iter_def parse_iter_def header_iter_def mux_consts panic_free
          fp_inv_def fp_view_def take_Suc_conv_app_nth hd_conv_nth)
  qed
qed

lemma parse_simps:
  "parse_iter crc bs = (s, Break) \<Longrightarrow> parse crc bs = (s, [])"
  "parse_iter crc bs = (s, Continue) \<Longrightarrow> parse crc bs = parse crc s"
  "parse_iter crc bs = (s, Dispatch t c p)
     \<Longrightarrow> parse crc bs = map_prod id (Cons (t, c, p)) (parse crc s)"
  by (simp_all add: parse.simps [of crc bs])

text \<open>Induction over the rounds of the reference parser.\<close>

lemma parse_induct [case_names Break Continue Dispatch]:
  assumes "\<And>bs s. parse_iter crc bs = (s, Break) \<Longrightarrow> P bs"
    and "\<And>bs s. parse_iter crc bs = (s, Continue) \<Longrightarrow> P s \<Longrightarrow> P bs"
    and "\<And>bs s t c p. parse_iter crc bs = (s, Dispatch t c p) \<Longrightarrow> P s \<Longrightarrow> P bs"
  shows "P bs"
proof (induction "length bs" arbitrary: bs rule: less_induct)
  case less
  obtain s ctl where pi: "parse_iter crc bs = (s, ctl)" by fastforce
  with less parse_iter_decreases [OF pi] assms show ?case by (cases ctl) blast+
qed

lemma drain_frames_refines:
  assumes "fp_inv fp" "parse crc (fp_view fp) = (r, fs)"
  shows "\<exists>fp'. drain_frames crc fp = Some (fp', fs) \<and> fp_inv fp' \<and> fp_view fp' = r"
proof -
  have "\<forall>fp r fs. fp_inv fp \<longrightarrow> fp_view fp = bs \<longrightarrow> parse crc bs = (r, fs) \<longrightarrow>
      (\<exists>fp'. drain_frames crc fp = Some (fp', fs) \<and> fp_inv fp' \<and> fp_view fp' = r)" for bs
  proof (induction bs rule: parse_induct [of crc])
    case (Break bs s)
    then show ?case
      using drain_iter_refines [of _ crc s Break]
      by (fastforce simp: parse_simps drain_frames.simps)
  next
    case (Continue bs s)
    then show ?case
      using drain_iter_refines [of _ crc s Continue]
      by (fastforce simp: parse_simps drain_frames.simps)
  next
    case (Dispatch bs s t c p)
    show ?case
    proof (intro allI impI)
      fix fp r fs
      assume fp: "fp_inv fp" "fp_view fp = bs" "parse crc bs = (r, fs)"
      obtain fp1 where fp1: "drain_iter crc fp = Some (fp1, Dispatch t c p)"
        "fp_inv fp1" "fp_view fp1 = s"
        using drain_iter_refines [of fp crc s "Dispatch t c p"] fp Dispatch.hyps by auto
      obtain fs1 where fs1: "parse crc s = (r, fs1)" "fs = (t, c, p) # fs1"
        using fp(3) parse_simps(3) [OF Dispatch.hyps] by (cases "parse crc s") auto
      obtain fp2 where "drain_frames crc fp1 = Some (fp2, fs1)" "fp_inv fp2" "fp_view fp2 = r"
        using Dispatch.IH fp1 fs1 by blast
      with fp1 fs1 show "\<exists>fp'. drain_frames crc fp = Some (fp', fs) \<and> fp_inv fp' \<and> fp_view fp' = r"
        by (auto simp: drain_frames.simps [of crc fp])
    qed
  qed
  with assms show ?thesis by blast
qed


section \<open>The reference parser is incremental\<close>

lemma skip_to_magic_cases:
  "length (skip_to_magic bs) < 2 \<or> (\<exists>xs. skip_to_magic bs = 0xAA # 0x55 # xs)"
  by (induction bs rule: skip_to_magic.induct) auto

lemma skip_to_magic_append: "skip_to_magic (skip_to_magic xs @ ys) = skip_to_magic (xs @ ys)"
  by (induction xs rule: skip_to_magic.induct) auto

lemma skip_to_magic_idem [simp]: "skip_to_magic (skip_to_magic xs) = skip_to_magic xs"
  using skip_to_magic_append [of xs "[]"] by simp

lemma parse_iter_skip: "parse_iter crc (skip_to_magic xs @ ys) = parse_iter crc (xs @ ys)"
  by (simp add: parse_iter_def skip_to_magic_append)

lemma parse_skip: "parse crc (skip_to_magic xs @ ys) = parse crc (xs @ ys)"
  by (simp add: parse.simps [of crc "_ @ _"] parse_iter_skip)

lemma parse_iter_Break:
  "parse_iter crc bs = (s, Break) \<Longrightarrow> s = skip_to_magic bs"
  by (auto simp: parse_iter_def header_iter_def Let_def split: if_splits)

text \<open>A round that does not end the loop looks only at bytes it has: more input behind does
  not change it.\<close>

lemma header_iter_append:
  assumes "header_iter crc s = (s', ctl)" "ctl \<noteq> Break"
  shows "header_iter crc (s @ ys) = (s' @ ys, ctl)"
proof -
  have l: "\<not> length s < HDR_SIZE" "6 \<le> length s"
    using assms by (auto simp: header_iter_def mux_consts split: if_splits)
  have n: "(s @ ys) ! i = s ! i" if "i < 6" for i
    using l that by (simp add: nth_append)
  show ?thesis
    using assms l n [of 2] n [of 3] n [of 4] n [of 5]
    by (auto simp: header_iter_def Let_def CRC_SIZE_def split: if_splits)
qed

lemma parse_iter_append:
  assumes "parse_iter crc xs = (s, ctl)" "ctl \<noteq> Break"
  shows "parse_iter crc (xs @ ys) = (s @ ys, ctl)"
proof -
  from assms have h: "header_iter crc (skip_to_magic xs) = (s, ctl)" by (simp add: parse_iter_def)
  with assms(2) have "\<not> length (skip_to_magic xs) < 2"
    by (auto simp: header_iter_def mux_consts split: if_splits)
  with skip_to_magic_cases [of xs] obtain zs where "skip_to_magic xs = 0xAA # 0x55 # zs" by auto
  then have "skip_to_magic (skip_to_magic xs @ ys) = skip_to_magic xs @ ys" by simp
  with header_iter_append [OF h assms(2), of ys] show ?thesis
    by (simp add: parse_iter_def skip_to_magic_append)
qed

lemma parse_append:
  "parse crc (xs @ ys) = (let (r, fs) = parse crc xs; (r', fs') = parse crc (r @ ys) in (r', fs @ fs'))"
proof (induction xs rule: parse_induct [of crc])
  case (Break bs s)
  then have "s = skip_to_magic bs" by (rule parse_iter_Break)
  with Break show ?case by (simp add: parse_simps parse_skip)
next
  case (Continue bs s)
  then show ?case using parse_iter_append [of crc bs s Continue ys] by (simp add: parse_simps)
next
  case (Dispatch bs s t c p)
  then show ?case
    using parse_iter_append [of crc bs s "Dispatch t c p" ys]
    by (simp add: parse_simps split: prod.splits)
qed

text \<open>What is kept is shorter than a frame and holds nothing more to deliver.\<close>

lemma header_iter_Break_length:
  "header_iter crc s = (s', Break) \<Longrightarrow> length s' < MAX_FRAME"
  by (auto simp: header_iter_def Let_def mux_consts split: if_splits)

lemma parse_rest: "parse crc bs = (r, fs) \<Longrightarrow> parse crc r = (r, []) \<and> length r < MAX_FRAME"
proof (induction bs arbitrary: r fs rule: parse_induct [of crc])
  case (Break bs s)
  then have "r = skip_to_magic bs" "parse_iter crc r = parse_iter crc bs"
    using parse_iter_Break [of crc bs s] parse_iter_skip [of crc bs "[]"]
    by (auto simp: parse_simps)
  with Break show ?case
    using header_iter_Break_length [of crc "skip_to_magic bs" s]
    by (auto simp: parse_simps parse_iter_def)
qed (auto simp: parse_simps map_prod_def split: prod.splits)

end
