(* ===== verification/Crc32.thy ===== *)
theory Crc32
  imports Prelude
begin

text \<open>
  The CRC-32 of the link as the C daemon computes it (\<^verbatim>\<open>src/serialmux.h\<close>, \<open>crc32_buf\<close>, with
  the table of \<open>crc32_init\<close> in \<^verbatim>\<open>src/serialmux.c\<close>).  The Rust sources call
  \<open>crc32fast::hash\<close>, which the definitions here take as a parameter; this concrete function is
  what the parameter is instantiated with in examples.
\<close>

definition crc32_shift :: "u32 \<Rightarrow> u32" where
  "crc32_shift c = (if c AND 1 \<noteq> 0 then 0xEDB88320 XOR drop_bit 1 c else drop_bit 1 c)"

definition crc32_entry :: "u32 \<Rightarrow> u32" where
  "crc32_entry i = fold (\<lambda>_. crc32_shift) [0..<8] i"

definition crc32_buf :: "bytes \<Rightarrow> u32" where
  "crc32_buf data =
     foldl (\<lambda>crc b. crc32_entry ((crc XOR ucast b) AND 0xFF) XOR drop_bit 8 crc) 0xFFFFFFFF data
       XOR 0xFFFFFFFF"

lemma crc32_rounds: "[0..<8] = [0, 1, 2, 3, 4, 5, 6, 7]"
  by code_simp

lemmas crc32_eval = crc32_buf_def crc32_entry_def crc32_shift_def crc32_rounds

lemma crc32_abc: "crc32_buf [0x61, 0x62, 0x63] = 0x352441C2"
  by (simp add: crc32_eval)

end
