(* ===== verification/Frame_Props.thy ===== *)
theory Frame_Props
  imports Frame_Spec Crc32
begin

text \<open>
  Correctness of the frame protocol: \<open>feed\<close> refines the reference parser, what \<open>build_frame\<close>
  writes is what the far side reads whatever the chunking, noise between frames is skipped,
  and no frame is delivered that the stream does not carry.
\<close>


section \<open>\<open>feed\<close> refines the reference parser\<close>

definition fp_settled :: "hash_fn \<Rightarrow> bytes \<Rightarrow> bool" where
  "fp_settled crc r \<longleftrightarrow> parse crc r = (r, [])"

lemma fp_settled_length: "fp_settled crc r \<Longrightarrow> length r < MAX_FRAME"
  using parse_rest by (auto simp: fp_settled_def)

lemma parse_Nil [simp]: "parse crc [] = ([], [])"
  by (rule parse_simps) (simp add: parse_iter_def header_iter_def mux_consts)

lemma fp_settled_Nil [simp]: "fp_settled crc []"
  by (simp add: fp_settled_def)

lemma fp_new_ok [simp]: "fp_inv fp_new" "fp_view fp_new = []"
  by (simp_all add: fp_inv_def fp_view_def fp_new_def)

lemma fp_reset_ok [simp]: "fp_inv fp \<Longrightarrow> fp_inv (fp_reset fp)" "fp_view (fp_reset fp) = []"
  by (simp_all add: fp_inv_def fp_view_def fp_reset_def)

lemma fill_refines:
  assumes "fp_inv fp" "fp_len fp + length chunk \<le> PARSER_BUF_CAP"
  shows "\<exists>buf. copy_from_slice (fp_buf fp) (fp_len fp) (fp_len fp + length chunk) chunk = Some buf
     \<and> fp_inv (fp\<lparr>fp_buf := buf, fp_len := fp_len fp + length chunk\<rparr>)
     \<and> fp_view (fp\<lparr>fp_buf := buf, fp_len := fp_len fp + length chunk\<rparr>) = fp_view fp @ chunk"
  using assms by (auto simp: copy_from_slice_ok fp_inv_def fp_view_def)

lemma feed_from_refines:
  assumes "fp_inv fp" "fp_settled crc (fp_view fp)"
    and "parse crc (fp_view fp @ drop pos data) = (r, fs)"
  shows "\<exists>fp'. feed_from crc data pos fp = Some (fp', fs) \<and> fp_inv fp' \<and> fp_view fp' = r"
  using assms
proof (induction crc data pos fp arbitrary: r fs rule: feed_from.induct)
  case (1 crc data pos fp)
  show ?case
  proof (cases "pos < length data")
    case False
    with "1.prems" show ?thesis by (auto simp: feed_from.simps [of crc data pos] fp_settled_def)
  next
    case True
    define space where "space = PARSER_BUF_CAP - fp_len fp"
    define copy where "copy = min (length data - pos) space"
    have room: "fp_len fp < MAX_FRAME"
      using fp_settled_length [OF "1.prems"(2)] "1.prems"(1) by simp
    then have space: "usub PARSER_BUF_CAP (fp_len fp) = Some space" "0 < space"
      by (simp_all add: space_def mux_consts usub_ok)
    with True have copy: "0 < copy" "pos + copy \<le> length data" "fp_len fp + copy \<le> PARSER_BUF_CAP"
      using room by (auto simp: copy_def space_def mux_consts)
    define chunk where "chunk = take copy (drop pos data)"
    have chunk: "slice data pos (pos + copy) = Some chunk" "length chunk = copy"
      using copy by (simp_all add: slice_ok chunk_def)
    have dp: "drop pos data = chunk @ drop (pos + copy) data"
      by (simp add: chunk_def add.commute [of pos] flip: drop_drop)
    obtain buf where buf: "copy_from_slice (fp_buf fp) (fp_len fp) (fp_len fp + copy) chunk = Some buf"
      "fp_inv (fp\<lparr>fp_buf := buf, fp_len := fp_len fp + copy\<rparr>)"
      "fp_view (fp\<lparr>fp_buf := buf, fp_len := fp_len fp + copy\<rparr>) = fp_view fp @ chunk"
      using fill_refines [OF "1.prems"(1), of chunk] copy chunk(2) by auto
    obtain r1 fs1 where p1: "parse crc (fp_view fp @ chunk) = (r1, fs1)" by fastforce
    obtain fp1 where fp1: "drain_frames crc (fp\<lparr>fp_buf := buf, fp_len := fp_len fp + copy\<rparr>) = Some (fp1, fs1)"
      "fp_inv fp1" "fp_view fp1 = r1"
      using drain_frames_refines [OF buf(2)] p1 buf(3) by metis
    have settled: "fp_settled crc (fp_view fp1)"
      using parse_rest [OF p1] fp1(3) by (simp add: fp_settled_def)
    obtain fs2 where p2: "parse crc (fp_view fp1 @ drop (pos + copy) data) = (r, fs2)" "fs = fs1 @ fs2"
      using "1.prems"(3) parse_append [of crc "fp_view fp @ chunk" "drop (pos + copy) data"] p1 fp1(3)
      by (auto simp: dp split: prod.splits)
    have "\<exists>fp'. feed_from crc data (pos + copy) fp1 = Some (fp', fs2) \<and> fp_inv fp' \<and> fp_view fp' = r"
      using "1.IH" [OF True space(1) copy_def _ chunk(1) buf(1) fp1(1) refl fp1(2) settled p2(1)]
        copy(1) by simp
    then show ?thesis
      using True space copy chunk buf(1) fp1(1) p2(2)
      by (auto simp: feed_from.simps [of crc data pos fp] copy_def [symmetric])
  qed
qed

lemma feed_refines:
  assumes "fp_inv fp" "fp_settled crc (fp_view fp)"
  shows "\<exists>fp'. feed crc data fp = Some (fp', snd (parse crc (fp_view fp @ data)))
             \<and> fp_inv fp' \<and> fp_view fp' = fst (parse crc (fp_view fp @ data))"
  using feed_from_refines [OF assms, of 0 data] by (simp add: feed_def)

interpretation fp_stream: stream_decoder "\<lambda>r xs. parse crc (r @ xs)" "fp_settled crc"
  for crc
proof unfold_locales
  fix s xs ys assume "fp_settled crc s"
  show "parse crc (s @ xs @ ys) =
      (let (s1, fs1) = parse crc (s @ xs); (s2, fs2) = parse crc (s1 @ ys) in (s2, fs1 @ fs2))"
    using parse_append [of crc "s @ xs" ys] by simp
  show "fp_settled crc (fst (parse crc (s @ xs)))"
    using parse_rest [of crc "s @ xs"] by (cases "parse crc (s @ xs)") (simp add: fp_settled_def)
qed (simp add: fp_settled_def)

interpretation fp_feed: buffered_decoder "\<lambda>r xs. parse crc (r @ xs)" "fp_settled crc"
  "\<lambda>fp data. feed crc data fp" fp_view fp_inv
  for crc
  by unfold_locales (use feed_refines in blast)


section \<open>Round trip\<close>

lemma header_len_le_bytes: "header_len a b = unat (from_le_bytes16 a b)"
  unfolding header_len_def from_le_bytes16_def
  by (rule bit_eqI) (auto simp: bit_simps bit_unsigned_iff dest: bit_imp_le_length)

lemma build_frame_bytes:
  assumes "length p \<le> MAX_PAYLOAD"
  obtains l0 l1 where
    "build_frame crc t c p = 0xAA # 0x55 # t # c # l0 # l1 # p @ to_le_bytes32 (crc p)"
    "header_len l0 l1 = length p"
proof -
  obtain l0 l1 where l: "to_le_bytes16 (of_nat (length p)) = [l0, l1]"
    by (simp add: to_le_bytes16_def)
  have "header_len l0 l1 = unat (of_nat (length p) :: u16)"
    using from_to_le_bytes16 [OF l] by (simp add: header_len_le_bytes)
  also have "\<dots> = length p"
    using assms by (simp add: unat_of_nat mux_consts)
  finally show ?thesis
    using that [of l0 l1] l assms by (simp add: build_frame_def)
qed

lemma drop_header [simp]:
  "drop (HDR_SIZE + n) (a # b # c # d # e # f # xs) = drop n xs"
  "drop (HDR_SIZE + n + CRC_SIZE) (a # b # c # d # e # f # xs) = drop (n + 4) xs"
  by (simp_all add: HDR_SIZE_def CRC_SIZE_def eval_nat_numeral)

lemma drop_HDR_SIZE [simp]: "drop HDR_SIZE (a # b # c # d # e # f # xs) = xs"
  by (simp add: HDR_SIZE_def)

lemma header_iter_frame:
  assumes "length p \<le> MAX_PAYLOAD"
  shows "header_iter crc (build_frame crc t c p @ rest) = (rest, Dispatch t c p)"
proof -
  obtain l0 l1 where b: "build_frame crc t c p = 0xAA # 0x55 # t # c # l0 # l1 # p @ to_le_bytes32 (crc p)"
    and l: "header_len l0 l1 = length p"
    using build_frame_bytes [OF assms] .
  show ?thesis
    using assms by (simp add: b l header_iter_def Let_def) (simp add: mux_consts)
qed

text \<open>Noise that holds no magic pair; it may end in the first magic byte.\<close>

fun no_magic :: "bytes \<Rightarrow> bool" where
  "no_magic (a # b # xs) \<longleftrightarrow> \<not> (a = 0xAA \<and> b = 0x55) \<and> no_magic (b # xs)"
| "no_magic xs \<longleftrightarrow> True"

lemma skip_noise: "no_magic xs \<Longrightarrow> skip_to_magic (xs @ 0xAA # ys) = skip_to_magic (0xAA # ys)"
  by (induction xs rule: no_magic.induct) auto

lemma parse_noise_frame:
  assumes "no_magic noise" "length p \<le> MAX_PAYLOAD"
  shows "parse crc (noise @ build_frame crc t c p @ rest) = map_prod id (Cons (t, c, p)) (parse crc rest)"
proof (rule parse_simps)
  obtain xs where b: "build_frame crc t c p = 0xAA # 0x55 # xs"
    using build_frame_bytes [OF assms(2)] by metis
  then have "skip_to_magic (noise @ build_frame crc t c p @ rest) = build_frame crc t c p @ rest"
    using skip_noise [OF assms(1)] by simp
  then show "parse_iter crc (noise @ build_frame crc t c p @ rest) = (rest, Dispatch t c p)"
    by (simp add: parse_iter_def header_iter_frame [OF assms(2)])
qed

text \<open>A stream that carries frames with noise in front of each.\<close>

fun wire :: "hash_fn \<Rightarrow> (bytes \<times> frame) list \<Rightarrow> bytes" where
  "wire crc [] = []"
| "wire crc ((noise, t, c, p) # items) = noise @ build_frame crc t c p @ wire crc items"

fun wire_ok :: "(bytes \<times> frame) list \<Rightarrow> bool" where
  "wire_ok [] \<longleftrightarrow> True"
| "wire_ok ((noise, t, c, p) # items) \<longleftrightarrow> no_magic noise \<and> length p \<le> MAX_PAYLOAD \<and> wire_ok items"

lemma parse_wire: "wire_ok items \<Longrightarrow> parse crc (wire crc items) = ([], map snd items)"
  by (induction crc items rule: wire.induct) (auto simp: parse_noise_frame)


section \<open>Soundness\<close>

text \<open>\<open>carries crc bs fs r\<close>: the bytes \<open>bs\<close> hold the encodings of the frames \<open>fs\<close>, in order and
  disjoint, with any bytes between them, and end in \<open>r\<close>.\<close>

inductive carries :: "hash_fn \<Rightarrow> bytes \<Rightarrow> frame list \<Rightarrow> bytes \<Rightarrow> bool" for crc where
  rest: "carries crc (gap @ r) [] r"
| frame: "carries crc bs fs r \<Longrightarrow> length p \<le> MAX_PAYLOAD
    \<Longrightarrow> carries crc (gap @ build_frame crc t c p @ bs) ((t, c, p) # fs) r"

lemma carries_gap: "carries crc bs fs r \<Longrightarrow> carries crc (gap @ bs) fs r"
proof (induction rule: carries.induct)
  case (rest g r)
  show ?case using carries.rest [of crc "gap @ g" r] by simp
next
  case (frame bs fs r p g t c)
  then show ?case using carries.frame [of crc bs fs r p "gap @ g" t c] by simp
qed

lemma skip_to_magic_suffix: "\<exists>gap. bs = gap @ skip_to_magic bs"
proof (induction bs rule: skip_to_magic.induct)
  case (1 a b xs)
  then show ?case by (cases "a = 0xAA \<and> b = 0x55") (auto intro: exI [of _ "a # _"])
qed simp_all

lemma header_iter_Dispatch:
  assumes "header_iter crc s = (s', Dispatch t c p)" "s = 0xAA # 0x55 # zs"
  shows "s = build_frame crc t c p @ s' \<and> length p \<le> MAX_PAYLOAD"
proof -
  have "6 \<le> length s" using assms(1) by (auto simp: header_iter_def mux_consts split: if_splits)
  then obtain l0 l1 ys where s: "s = 0xAA # 0x55 # t # c # l0 # l1 # ys"
    using assms
    by (auto simp: header_iter_def Let_def Suc_le_length_iff numeral_eq_Suc split: if_splits)
  define len where "len = header_len l0 l1"
  have d: "len \<le> MAX_PAYLOAD" "\<not> length s < HDR_SIZE + len + CRC_SIZE" "p = take len ys"
    "s' = drop (len + 4) ys" "from_le_bytes32 (take 4 (drop len ys)) = Some (crc p)"
    using assms(1) by (auto simp: s header_iter_def Let_def len_def split: if_splits)
  have lp: "length p = len" using d(2,3) by (simp add: s mux_consts)
  have "to_le_bytes16 (of_nat (length p)) = [l0, l1]"
    using to_from_le_bytes16 [of l0 l1] by (simp add: lp len_def header_len_le_bytes)
  moreover have "ys = p @ to_le_bytes32 (crc p) @ s'"
    using to_from_le_bytes32 [OF d(5)] d(3,4)
    by (metis append_take_drop_id add.commute drop_drop)
  ultimately show ?thesis using d(1) lp by (simp add: s build_frame_def)
qed

lemma parse_carries: "parse crc bs = (r, fs) \<Longrightarrow> carries crc bs fs r"
proof (induction bs arbitrary: r fs rule: parse_induct [of crc])
  case (Break bs s)
  then have "r = skip_to_magic bs" "fs = []" by (auto simp: parse_simps dest: parse_iter_Break)
  with skip_to_magic_suffix [of bs] show ?case by (metis carries.rest)
next
  case (Continue bs s)
  obtain gap where gap: "bs = gap @ skip_to_magic bs" using skip_to_magic_suffix by blast
  have "s = drop 2 (skip_to_magic bs)"
    using Continue.hyps by (auto simp: parse_iter_def header_iter_def Let_def split: if_splits)
  with gap have "bs = (gap @ take 2 (skip_to_magic bs)) @ s" by simp
  with Continue show ?case by (metis carries_gap parse_simps(2))
next
  case (Dispatch bs s t c p)
  obtain gap where gap: "bs = gap @ skip_to_magic bs" using skip_to_magic_suffix by blast
  have h: "header_iter crc (skip_to_magic bs) = (s, Dispatch t c p)"
    using Dispatch.hyps by (simp add: parse_iter_def)
  then have "\<not> length (skip_to_magic bs) < 2"
    by (auto simp: header_iter_def mux_consts split: if_splits)
  with skip_to_magic_cases [of bs] obtain zs where "skip_to_magic bs = 0xAA # 0x55 # zs" by auto
  with header_iter_Dispatch [OF h] gap
  have bs: "bs = gap @ build_frame crc t c p @ s" "length p \<le> MAX_PAYLOAD" by metis+
  obtain fs1 where "parse crc s = (r, fs1)" "fs = (t, c, p) # fs1"
    using Dispatch.prems parse_simps(3) [OF Dispatch.hyps] by (cases "parse crc s") auto
  with Dispatch.IH bs carries.frame show ?case by metis
qed



section \<open>Properties\<close>

abbreviation feed_chunks :: "hash_fn \<Rightarrow> bytes list \<Rightarrow> (frame_parser \<times> frame list) option" where
  "feed_chunks crc chunks \<equiv> run_chunks (\<lambda>fp data. feed crc data fp) fp_new chunks"

lemma feed_chunks_parse:
  "\<exists>fp. feed_chunks crc chunks = Some (fp, snd (parse crc (concat chunks)))
      \<and> fp_view fp = fst (parse crc (concat chunks)) \<and> fp_inv fp"
  using fp_feed.impl_run [of fp_new crc chunks] by auto

text \<open>C4: whatever the sizes of the chunks in which a stream of frames arrives, and with any noise
  in front of each frame that does not itself contain the magic pair, a fresh parser does not
  panic, delivers exactly the frames that \<open>build_frame\<close> encoded, in order, and keeps nothing.\<close>

theorem feed_delivers_wire:
  assumes "wire_ok items" "concat chunks = wire crc items"
  shows "\<exists>fp. feed_chunks crc chunks = Some (fp, map snd items) \<and> fp_view fp = []"
  using feed_chunks_parse [of crc chunks] assms by (auto simp: parse_wire)

theorem feed_delivers_wire_witness:
  "wire_ok [([0x00, 0x11, 0xAA, 0x99], F_DATA, 7, [0x61, 0x62, 0x63])]
   \<and> (\<exists>fp. feed_chunks crc32_buf
        [[0x00, 0x11, 0xAA, 0x99, 0xAA], [0x55, 0x01, 0x07, 0x03, 0x00, 0x61], [0x62, 0x63, 0xC2],
         [0x41, 0x24, 0x35]]
      = Some (fp, [(F_DATA, 7, [0x61, 0x62, 0x63])]) \<and> fp_view fp = [])"
proof -
  have w: "wire_ok [([0x00, 0x11, 0xAA, 0x99], F_DATA, 7, [0x61, 0x62, 0x63])]"
    by (simp add: mux_consts)
  have c: "concat [[0x00, 0x11, 0xAA, 0x99, 0xAA], [0x55, 0x01, 0x07, 0x03, 0x00, 0x61],
        [0x62, 0x63, 0xC2], [0x41, 0x24, 0x35]]
      = wire crc32_buf [([0x00, 0x11, 0xAA, 0x99], F_DATA, 7, [0x61, 0x62, 0x63])]"
    by (simp add: build_frame_def crc32_abc F_DATA_def to_le_bytes16_def to_le_bytes32_def mux_consts)
  from w feed_delivers_wire [OF w c] show ?thesis by simp
qed

text \<open>C3: on any input whatsoever, corrupted or hostile, the parser never panics (no index or slice
  out of range, no underflow), delivers only frames whose complete encoding with a matching
  CRC stands in the stream, in the order and at the disjoint places where they stand, and
  keeps less than one maximal frame, as a suffix of the stream.\<close>

theorem feed_sound:
  "\<exists>fp fs. feed_chunks crc chunks = Some (fp, fs)
     \<and> carries crc (concat chunks) fs (fp_view fp) \<and> fp_len fp < MAX_FRAME"
proof -
  obtain fp where fp: "feed_chunks crc chunks = Some (fp, snd (parse crc (concat chunks)))"
    "fp_view fp = fst (parse crc (concat chunks))" "fp_inv fp"
    using feed_chunks_parse by blast
  obtain r fs where p: "parse crc (concat chunks) = (r, fs)" by fastforce
  have "fp_len fp < MAX_FRAME"
    using parse_rest [OF p] fp p length_fp_view [OF fp(3)] by simp
  with fp p parse_carries [OF p] show ?thesis by auto
qed

text \<open>C5: the fixed staging buffer is invisible: from any parser state in which the previous call
  left the parser, \<open>feed\<close> delivers what the reference parser finds in the kept bytes followed
  by the new chunk, for chunks of any length; the branch that drops input on a full buffer is
  never taken.\<close>

theorem feed_refines_parse:
  assumes "fp_inv fp" "fp_settled crc (fp_view fp)"
  shows "\<exists>fp'. feed crc data fp = Some (fp', snd (parse crc (fp_view fp @ data)))
     \<and> fp_view fp' = fst (parse crc (fp_view fp @ data))
     \<and> fp_inv fp' \<and> fp_settled crc (fp_view fp')"
proof -
  have "fp_settled crc (fst (parse crc (fp_view fp @ data)))"
    using fp_stream.step_good [OF assms(2)] .
  with feed_refines [OF assms, of data] show ?thesis by metis
qed

theorem feed_refines_parse_witness:
  "fp_inv fp_new \<and> fp_settled crc32_buf (fp_view fp_new)
   \<and> (\<exists>fp'. feed crc32_buf [0x00, 0xAA] fp_new = Some (fp', snd (parse crc32_buf [0x00, 0xAA]))
        \<and> fp_view fp' = fst (parse crc32_buf [0x00, 0xAA]))"
proof -
  have h: "fp_inv fp_new" "fp_settled crc32_buf (fp_view fp_new)" by simp_all
  with feed_refines_parse [OF h, of "[0x00, 0xAA]"] show ?thesis by auto
qed

text \<open>The frames delivered depend only on the bytes received, not on how the reads cut them.\<close>

lemma feed_chunking:
  assumes "concat chunks = concat chunks'"
  shows "map_option snd (feed_chunks crc chunks) = map_option snd (feed_chunks crc chunks')"
  using fp_feed.impl_chunking [of fp_new crc chunks chunks'] assms by simp

end
