(* ===== verification/Byte_Queue.thy ===== *)
theory Byte_Queue
  imports Prelude
begin

text \<open>
  The interface of the transmit queue.  A bounded byte queue takes whole blocks at one end, or
  refuses a block as a whole, and gives up bytes at the other end as far as a non-blocking
  \<open>write()\<close> accepts them.  The channels and the event loop rely on nothing else of it.
\<close>

text \<open>Error numbers of the system calls that the sources distinguish.\<close>

datatype errno = EAGAIN | EWOULDBLOCK | EIO | Errno nat

text \<open>The result of \<open>write(fd, buf, n)\<close>: a byte count, or \<open>-1\<close> with an error number.  A
  kernel is a function from the offered bytes to a result; it never accepts more bytes than
  it was offered.\<close>

datatype write_result = Written nat | WriteErr errno

type_synonym write_fn = "bytes \<Rightarrow> write_result"

definition write_ok :: "write_fn \<Rightarrow> bool" where
  "write_ok w \<longleftrightarrow> (\<forall>bs n. w bs = Written n \<longrightarrow> n \<le> length bs)"

text \<open>The blocks of a sequence that a queue with \<open>room\<close> free bytes takes.\<close>

fun accepted :: "nat \<Rightarrow> 'b list list \<Rightarrow> 'b list list" where
  "accepted room [] = []"
| "accepted room (d # ds) =
     (if length d \<le> room then d # accepted (room - length d) ds else accepted room ds)"

lemma accepted_subseq: "subseq (accepted room ds) ds"
  by (induction ds arbitrary: room) auto

lemma accepted_all: "length (concat ds) \<le> room \<Longrightarrow> accepted room ds = ds"
  by (induction ds arbitrary: room) auto

lemma accepted_fits: "length (concat (accepted room ds)) \<le> room"
proof (induction ds arbitrary: room)
  case (Cons d ds)
  have "length (concat (accepted (room - length d) ds)) \<le> room - length d" by (rule Cons.IH)
  then show ?case using Cons.IH [of room] by auto
qed simp

text \<open>Pushing a list of blocks, one after the other.\<close>

fun push_all :: "('b list \<Rightarrow> 'q \<Rightarrow> 'q option) \<Rightarrow> 'b list list \<Rightarrow> 'q \<Rightarrow> 'q option" where
  "push_all push [] q = Some q"
| "push_all push (d # ds) q = do { q \<leftarrow> push d q; push_all push ds q }"

text \<open>A schedule of the two ends of the queue: blocks pushed, kernels drained to.  \<open>run_queue\<close>
  returns the queue, the bytes written out and the blocks taken.\<close>

datatype 'b queue_op = Push "'b list" | Drain "'b list \<Rightarrow> write_result"

fun run_queue ::
  "('b list \<Rightarrow> 'q \<Rightarrow> 'q option)
   \<Rightarrow> (('b list \<Rightarrow> write_result) \<Rightarrow> 'q \<Rightarrow> ('q \<times> 'b list \<times> 'r) option)
   \<Rightarrow> ('q \<Rightarrow> 'b list) \<Rightarrow> nat \<Rightarrow> 'b queue_op list \<Rightarrow> 'q \<Rightarrow> ('q \<times> 'b list \<times> 'b list list) option" where
  "run_queue push drain view cap [] q = Some (q, [], [])"
| "run_queue push drain view cap (Push d # ops) q = do {
     q1 \<leftarrow> push d q;
     (q2, sent, taken) \<leftarrow> run_queue push drain view cap ops q1;
     Some (q2, sent, accepted (cap - length (view q)) [d] @ taken)
   }"
| "run_queue push drain view cap (Drain w # ops) q = do {
     (q1, out, _) \<leftarrow> drain w q;
     (q2, sent, taken) \<leftarrow> run_queue push drain view cap ops q1;
     Some (q2, out @ sent, taken)
   }"

fun op_ok :: "'b queue_op \<Rightarrow> bool" where
  "op_ok (Push d) \<longleftrightarrow> True"
| "op_ok (Drain w) \<longleftrightarrow> (\<forall>bs n. w bs = Written n \<longrightarrow> n \<le> length bs)"

fun pushed :: "'b queue_op list \<Rightarrow> 'b list list" where
  "pushed [] = []"
| "pushed (Push d # ops) = d # pushed ops"
| "pushed (Drain w # ops) = pushed ops"

locale bounded_queue =
  fixes push :: "'b list \<Rightarrow> 'q \<Rightarrow> 'q option"
    and view :: "'q \<Rightarrow> 'b list"
    and inv :: "'q \<Rightarrow> bool"
    and cap :: nat
  assumes push_spec:
      "inv q \<Longrightarrow> \<exists>q'. push d q = Some q' \<and> inv q'
         \<and> view q' = view q @ concat (accepted (cap - length (view q)) [d])"
    and view_cap: "inv q \<Longrightarrow> length (view q) \<le> cap"
begin

lemma push_all_spec:
  "inv q \<Longrightarrow> \<exists>q'. push_all push ds q = Some q' \<and> inv q'
     \<and> view q' = view q @ concat (accepted (cap - length (view q)) ds)"
proof (induction ds arbitrary: q)
  case Nil
  then show ?case by simp
next
  case (Cons d ds)
  obtain q1 where q1: "push d q = Some q1" "inv q1"
    "view q1 = view q @ concat (accepted (cap - length (view q)) [d])"
    using push_spec [OF Cons.prems] by blast
  obtain q2 where "push_all push ds q1 = Some q2" "inv q2"
    "view q2 = view q1 @ concat (accepted (cap - length (view q1)) ds)"
    using Cons.IH [OF q1(2)] by blast
  with q1 show ?case by (auto simp: diff_diff_left)
qed

lemma push_total: "inv q \<Longrightarrow> push d q \<noteq> None"
  using push_spec [of q d] by auto

end

locale drained_queue = bounded_queue push view inv cap
  for push :: "'b list \<Rightarrow> 'q \<Rightarrow> 'q option" and view :: "'q \<Rightarrow> 'b list" and inv :: "'q \<Rightarrow> bool"
    and cap :: nat +
  fixes drain :: "('b list \<Rightarrow> write_result) \<Rightarrow> 'q \<Rightarrow> ('q \<times> 'b list \<times> 'r) option"
  assumes drain_spec:
      "inv q \<Longrightarrow> (\<And>bs n. w bs = Written n \<Longrightarrow> n \<le> length bs) \<Longrightarrow>
         \<exists>q' out r. drain w q = Some (q', out, r) \<and> inv q' \<and> view q = out @ view q'"
begin

text \<open>First in, first out, nothing lost or duplicated, and every block whole: what was written
  out, followed by what is still queued, is what was queued at the start followed by the taken
  blocks.\<close>

lemma run_fifo:
  assumes "inv q" "list_all op_ok ops"
  shows "\<exists>q' sent taken. run_queue push drain view cap ops q = Some (q', sent, taken) \<and> inv q'
     \<and> sent @ view q' = view q @ concat taken \<and> subseq taken (pushed ops)
     \<and> (length (view q) + length (concat (pushed ops)) \<le> cap \<longrightarrow> taken = pushed ops)"
  using assms
proof (induction ops arbitrary: q)
  case Nil
  then show ?case by simp
next
  case (Cons x ops)
  show ?case
  proof (cases x)
    case (Push d)
    obtain q1 where q1: "push d q = Some q1" "inv q1"
      "view q1 = view q @ concat (accepted (cap - length (view q)) [d])"
      using push_spec [OF Cons.prems(1)] by blast
    obtain q2 sent taken where "run_queue push drain view cap ops q1 = Some (q2, sent, taken)" "inv q2"
      "sent @ view q2 = view q1 @ concat taken" "subseq taken (pushed ops)"
      "length (view q1) + length (concat (pushed ops)) \<le> cap \<longrightarrow> taken = pushed ops"
      using Cons.IH [OF q1(2)] Cons.prems(2) by auto
    with Push q1 show ?thesis by auto
  next
    case (Drain w)
    obtain q1 out r where q1: "drain w q = Some (q1, out, r)" "inv q1" "view q = out @ view q1"
      using drain_spec [OF Cons.prems(1), of w] Cons.prems(2) Drain by auto
    obtain q2 sent taken where "run_queue push drain view cap ops q1 = Some (q2, sent, taken)" "inv q2"
      "sent @ view q2 = view q1 @ concat taken" "subseq taken (pushed ops)"
      "length (view q1) + length (concat (pushed ops)) \<le> cap \<longrightarrow> taken = pushed ops"
      using Cons.IH [OF q1(2)] Cons.prems(2) by auto
    with Drain q1 show ?thesis by auto
  qed
qed

end

end
