(* ===== verification/Tx_Queue.thy ===== *)
theory Tx_Queue
  imports Frame Byte_Queue
begin

text \<open>
  The transmit ring buffer of the link (\<^verbatim>\<open>serialmux-rs/src/protocol.rs\<close>, \<open>TxQueue\<close>): a fixed
  backing store with a read and a write position, frames copied in at the tail in one or two
  pieces, one contiguous segment offered to \<open>write()\<close> per drain.  The ring implements the
  bounded byte queue of \<open>Byte_Queue\<close>.
\<close>

definition LINK_HIGH_WATER :: nat where "LINK_HIGH_WATER = 512 * 1024"
definition LINK_LOW_WATER :: nat where "LINK_LOW_WATER = 256 * 1024"
definition LINK_TXBUF_SIZE :: nat where "LINK_TXBUF_SIZE = LINK_HIGH_WATER + MAX_FRAME + 64"

lemma txq_sizes [mux_consts]:
  "LINK_HIGH_WATER = 524288" "LINK_LOW_WATER = 262144" "LINK_TXBUF_SIZE = 540746"
  by (simp_all add: LINK_HIGH_WATER_def LINK_LOW_WATER_def LINK_TXBUF_SIZE_def sizes)

lemma LINK_TXBUF_SIZE_pos [simp]: "0 < LINK_TXBUF_SIZE"
  by (simp add: mux_consts)

record tx_queue =
  q_buf :: bytes
  q_head :: nat
  q_tail :: nat

definition txq_new :: tx_queue where
  "txq_new = \<lparr>q_buf = replicate LINK_TXBUF_SIZE 0, q_head = 0, q_tail = 0\<rparr>"

definition txq_reset :: "tx_queue \<Rightarrow> tx_queue" where
  "txq_reset q = q\<lparr>q_head := 0, q_tail := 0\<rparr>"

definition used :: "tx_queue \<Rightarrow> nat" where
  "used q = (q_tail q + LINK_TXBUF_SIZE - q_head q) mod LINK_TXBUF_SIZE"

definition is_empty :: "tx_queue \<Rightarrow> bool" where
  "is_empty q \<longleftrightarrow> q_head q = q_tail q"

definition enqueue :: "bytes \<Rightarrow> tx_queue \<Rightarrow> tx_queue option" where
  "enqueue data q =
     (let n = length data in
      if n = 0 then Some q
      else do {
        room \<leftarrow> usub (LINK_TXBUF_SIZE - 1) (used q);
        if n > room then Some q
        else do {
          space_to_end \<leftarrow> usub LINK_TXBUF_SIZE (q_tail q);
          buf \<leftarrow>
            (if n \<le> space_to_end
             then copy_from_slice (q_buf q) (q_tail q) (q_tail q + n) data
             else do {
               front \<leftarrow> slice data 0 space_to_end;
               buf \<leftarrow> copy_from_slice (q_buf q) (q_tail q) (length (q_buf q)) front;
               k \<leftarrow> usub n space_to_end;
               back \<leftarrow> slice data space_to_end n;
               copy_from_slice buf 0 k back
             });
          Some (q\<lparr>q_buf := buf, q_tail := (q_tail q + n) mod LINK_TXBUF_SIZE\<rparr>)
        }
      })"

text \<open>\<open>drain_to_fd\<close>: the result carries, beside the queue, the bytes the kernel took and the
  value returned: \<open>Ok(empty)\<close> or the error.  The pointer and length passed to \<open>write\<close> must
  lie within the buffer, which the checked slice stands for.\<close>

definition drain_to_fd :: "write_fn \<Rightarrow> tx_queue \<Rightarrow> (tx_queue \<times> bytes \<times> (errno + bool)) option" where
  "drain_to_fd write q =
     (if is_empty q then Some (q, [], Inr True)
      else do {
        avail \<leftarrow> (if q_tail q \<ge> q_head q then usub (q_tail q) (q_head q)
                  else usub LINK_TXBUF_SIZE (q_head q));
        seg \<leftarrow> slice (q_buf q) (q_head q) (q_head q + avail);
        (case write seg of
           WriteErr e \<Rightarrow>
             if e = EAGAIN \<or> e = EWOULDBLOCK then Some (q, [], Inr False)
             else Some (q, [], Inl e)
         | Written n \<Rightarrow>
             let q' = q\<lparr>q_head := (q_head q + n) mod LINK_TXBUF_SIZE\<rparr>
             in Some (q', take n seg, Inr (is_empty q')))
      })"


section \<open>The ring holds a byte list\<close>

definition txq_inv :: "tx_queue \<Rightarrow> bool" where
  "txq_inv q \<longleftrightarrow> length (q_buf q) = LINK_TXBUF_SIZE \<and> q_head q < LINK_TXBUF_SIZE
     \<and> q_tail q < LINK_TXBUF_SIZE"

definition queued :: "tx_queue \<Rightarrow> bytes" where
  "queued q = (if q_head q \<le> q_tail q
     then take (q_tail q - q_head q) (drop (q_head q) (q_buf q))
     else drop (q_head q) (q_buf q) @ take (q_tail q) (q_buf q))"

lemma txq_new_ok [simp]: "txq_inv txq_new" "queued txq_new = []"
  by (simp_all add: txq_inv_def txq_new_def queued_def)

lemma txq_reset_ok [simp]: "txq_inv q \<Longrightarrow> txq_inv (txq_reset q)" "queued (txq_reset q) = []"
  by (simp_all add: txq_inv_def txq_reset_def queued_def)

lemma used_queued: "txq_inv q \<Longrightarrow> used q = length (queued q)"
  by (auto simp: txq_inv_def used_def queued_def mod_if)

lemma queued_bound: "txq_inv q \<Longrightarrow> length (queued q) < LINK_TXBUF_SIZE"
  by (auto simp: txq_inv_def queued_def)

lemma is_empty_queued: "txq_inv q \<Longrightarrow> is_empty q \<longleftrightarrow> queued q = []"
  by (auto simp: txq_inv_def is_empty_def queued_def)

text \<open>A block that fits is appended; the two-piece copy at the end of the store is invisible.\<close>

lemma enqueue_fits:
  assumes inv: "txq_inv q" and fits: "length (queued q) + length d < LINK_TXBUF_SIZE"
  shows "\<exists>q'. enqueue d q = Some q' \<and> txq_inv q' \<and> queued q' = queued q @ d"
proof (cases "d = []")
  case True
  then show ?thesis using inv by (simp add: enqueue_def)
next
  case False
  let ?n = "length d" and ?N = LINK_TXBUF_SIZE and ?t = "q_tail q" and ?h = "q_head q"
  have b: "length (q_buf q) = ?N" "?h < ?N" "?t < ?N" using inv by (auto simp: txq_inv_def)
  have room: "usub (?N - 1) (used q) = Some (?N - 1 - length (queued q))" "\<not> ?n > ?N - 1 - length (queued q)"
    using inv fits by (simp_all add: usub_def used_queued)
  show ?thesis
  proof (cases "?n \<le> ?N - ?t")
    case True
    define q' where "q' = q\<lparr>q_buf := take ?t (q_buf q) @ d @ drop (?t + ?n) (q_buf q),
        q_tail := (?t + ?n) mod ?N\<rparr>"
    have e: "enqueue d q = Some q'"
      using False room True b by (simp add: enqueue_def q'_def panic_free Let_def)
    have "queued q' = queued q @ d"
    proof (cases "?t + ?n = ?N")
      case True
      then show ?thesis
        using b fits False by (auto simp: q'_def queued_def drop_take split: if_splits)
    next
      case lt: False
      then have "(?t + ?n) mod ?N = ?t + ?n" using True b by simp
      then show ?thesis
        using b fits True by (auto simp: q'_def queued_def drop_take split: if_splits)
    qed
    moreover have "txq_inv q'" using b True by (simp add: txq_inv_def q'_def)
    ultimately show ?thesis using e by blast
  next
    case wrap: False
    define s where "s = ?N - ?t"
    have s: "0 < s" "s < ?n" "?t + s = ?N" using wrap b by (auto simp: s_def)
    have ht: "?h \<le> ?t" "?n - s < ?h"
      using fits wrap b s by (auto simp: queued_def s_def split: if_splits)
    define q' where "q' = q\<lparr>q_buf := drop s d @ drop (?n - s) (take ?t (q_buf q) @ take s d),
        q_tail := ?n - s\<rparr>"
    have m: "(?t + ?n) mod ?N = ?n - s"
    proof -
      have "?t + ?n = (?n - s) + ?N" using s by simp
      then show ?thesis using ht b by simp
    qed
    have e: "enqueue d q = Some q'"
      using False room wrap b s ht m
      by (simp add: enqueue_def q'_def copy_from_slice_def slice_def usub_def Let_def
          s_def [symmetric])
    have "queued q' = queued q @ d"
    proof -
      have "?N - (?h + s) = ?t - ?h" using s(3) by simp
      then show ?thesis using b s ht by (simp add: q'_def queued_def drop_take)
    qed
    moreover have "txq_inv q'" using b s ht by (simp add: txq_inv_def q'_def)
    ultimately show ?thesis using e by blast
  qed
qed

lemma enqueue_refused:
  assumes "txq_inv q" "LINK_TXBUF_SIZE \<le> length (queued q) + length d"
  shows "enqueue d q = Some q"
proof -
  have "usub (LINK_TXBUF_SIZE - 1) (used q) = Some (LINK_TXBUF_SIZE - 1 - length (queued q))"
    "LINK_TXBUF_SIZE - 1 - length (queued q) < length d"
    using assms queued_bound [OF assms(1)] by (auto simp: usub_def used_queued)
  then show ?thesis by (simp add: enqueue_def Let_def)
qed

lemma drain_to_fd_spec:
  assumes inv: "txq_inv q" and w: "\<And>bs n. write bs = Written n \<Longrightarrow> n \<le> length bs"
  shows "\<exists>q' out r. drain_to_fd write q = Some (q', out, r) \<and> txq_inv q' \<and> queued q = out @ queued q'
     \<and> (\<forall>e. r = Inr e \<longrightarrow> e \<longrightarrow> queued q' = [])"
proof (cases "is_empty q")
  case True
  then show ?thesis using inv by (simp add: drain_to_fd_def is_empty_queued)
next
  case False
  let ?N = LINK_TXBUF_SIZE and ?t = "q_tail q" and ?h = "q_head q"
  have b: "length (q_buf q) = ?N" "?h < ?N" "?t < ?N" using inv by (auto simp: txq_inv_def)
  define avail where "avail = (if ?t \<ge> ?h then ?t - ?h else ?N - ?h)"
  define seg where "seg = take avail (drop ?h (q_buf q))"
  have seg: "slice (q_buf q) ?h (?h + avail) = Some seg" "length seg = avail" "avail \<le> ?N - ?h"
    using b by (auto simp: slice_def avail_def seg_def)
  have a: "(if ?t \<ge> ?h then usub ?t ?h else usub ?N ?h) = Some avail"
    using b by (simp add: usub_def avail_def)
  show ?thesis
  proof (cases "write seg")
    case (WriteErr e)
    then show ?thesis using False inv seg(1) a by (auto simp: drain_to_fd_def)
  next
    case (Written n)
    with w seg(2) have n: "n \<le> avail" by auto
    define q' where "q' = q\<lparr>q_head := (?h + n) mod ?N\<rparr>"
    have "drain_to_fd write q = Some (q', take n seg, Inr (is_empty q'))"
      using False seg(1) a Written by (simp add: drain_to_fd_def q'_def Let_def)
    moreover have inv': "txq_inv q'" using b by (simp add: txq_inv_def q'_def)
    moreover have "queued q = take n seg @ queued q'"
    proof (cases "?h + n = ?N")
      case True
      then show ?thesis
        using b n by (auto simp: q'_def queued_def seg_def avail_def split: if_splits)
    next
      case lt: False
      then have m: "(?h + n) mod ?N = ?h + n" using n seg(3) b by simp
      let ?x = "drop ?h (q_buf q)"
      have "take (?t - ?h) ?x = take n ?x @ take (?t - (?h + n)) (drop (?h + n) (q_buf q))"
        if "?h \<le> ?t" using take_add [of n "?t - ?h - n" ?x] n that
        by (simp add: avail_def add.commute)
      moreover have "?x = take n ?x @ drop (?h + n) (q_buf q)"
        by (metis add.commute append_take_drop_id drop_drop)
      moreover have "take n seg = take n ?x" using n by (simp add: seg_def)
      ultimately show ?thesis
        using b n m by (auto simp: q'_def queued_def avail_def split: if_splits)
    qed
    ultimately show ?thesis using is_empty_queued [OF inv'] by auto
  qed
qed


interpretation txq: drained_queue enqueue queued txq_inv "LINK_TXBUF_SIZE - 1" drain_to_fd
proof unfold_locales
  fix q and d :: bytes assume q: "txq_inv q"
  show "length (queued q) \<le> LINK_TXBUF_SIZE - 1" using queued_bound [OF q] by simp
  have "length (queued q) + length d < LINK_TXBUF_SIZE \<longleftrightarrow> length d \<le> LINK_TXBUF_SIZE - 1 - length (queued q)"
    using queued_bound [OF q] by auto
  then show "\<exists>q'. enqueue d q = Some q' \<and> txq_inv q'
      \<and> queued q' = queued q @ concat (accepted (LINK_TXBUF_SIZE - 1 - length (queued q)) [d])"
    using enqueue_fits [OF q, of d] enqueue_refused [OF q, of d] q by force
next
  fix q and w :: write_fn
  assume "txq_inv q" "\<And>bs n. w bs = Written n \<Longrightarrow> n \<le> length bs"
  then show "\<exists>q' out r. drain_to_fd w q = Some (q', out, r) \<and> txq_inv q' \<and> queued q = out @ queued q'"
    using drain_to_fd_spec [of q w] by blast
qed

text \<open>Under the invariant \<open>enqueue\<close> is the total function \<open>enq\<close>, so that the proofs about the
  components that only push to the queue never see a panic.\<close>

definition enq :: "bytes \<Rightarrow> tx_queue \<Rightarrow> tx_queue" where
  "enq d q = the (enqueue d q)"

definition fits :: "bytes \<Rightarrow> tx_queue \<Rightarrow> bool" where
  "fits d q \<longleftrightarrow> length (queued q) + length d < LINK_TXBUF_SIZE"

lemma enq_cases:
  assumes "txq_inv q"
  shows "enqueue d q = Some (enq d q) \<and> txq_inv (enq d q)
    \<and> queued (enq d q) = (if fits d q then queued q @ d else queued q)"
proof (cases "fits d q")
  case True
  with enqueue_fits [OF assms, of d] show ?thesis by (auto simp: enq_def fits_def)
next
  case False
  with enqueue_refused [OF assms, of d] assms show ?thesis by (simp add: enq_def fits_def)
qed

lemma enqueue_enq [simp]: "txq_inv q \<Longrightarrow> enqueue d q = Some (enq d q)"
  using enq_cases by blast

lemma enq_inv [simp]: "txq_inv q \<Longrightarrow> txq_inv (enq d q)"
  using enq_cases by blast

lemma queued_enq: "txq_inv q \<Longrightarrow> queued (enq d q) = (if fits d q then queued q @ d else queued q)"
  using enq_cases by blast

lemma enq_Nil [simp]: "enq [] q = q"
  by (simp add: enq_def enqueue_def)

text \<open>A sequence of frames pushed: those that fit are appended, in order and whole.\<close>

lemma fold_enq_taken:
  "txq_inv q \<Longrightarrow> \<exists>taken. queued (fold enq fs q) = queued q @ concat taken \<and> subseq taken fs"
proof (induction fs arbitrary: q)
  case Nil
  then show ?case by (auto intro: exI [of _ "[]"])
next
  case (Cons f fs)
  obtain taken where t: "queued (fold enq fs (enq f q)) = queued (enq f q) @ concat taken" "subseq taken fs"
    using Cons.IH [of "enq f q"] Cons.prems by auto
  show ?case
  proof (cases "fits f q")
    case True
    then show ?thesis using t Cons.prems by (intro exI [of _ "f # taken"]) (simp add: queued_enq)
  next
    case False
    then show ?thesis using t Cons.prems by (intro exI [of _ taken]) (auto simp: queued_enq)
  qed
qed

end
