(* ===== verification/Link.thy ===== *)
theory Link
  imports Frame_Props Tx_Queue
begin

text \<open>
  The two ends of the link: what the parser of one side makes of the bytes that the transmit
  queue of the other side has written so far.
\<close>

abbreviation enc :: "hash_fn \<Rightarrow> frame \<Rightarrow> bytes" where
  "enc crc f \<equiv> (case f of (t, c, p) \<Rightarrow> build_frame crc t c p)"

lemma wire_frames: "wire crc (map (Pair []) fs) = concat (map (enc crc) fs)"
  by (induction fs) auto

lemma wire_ok_frames:
  "wire_ok (map (Pair []) fs) \<longleftrightarrow> (\<forall>(t, c, p) \<in> set fs. length p \<le> MAX_PAYLOAD)"
  by (induction fs) auto

lemma frames_of_blocks:
  assumes "\<forall>d \<in> set ds. \<exists>t c p. d = build_frame crc t c p \<and> length p \<le> MAX_PAYLOAD"
  obtains fs where "ds = map (enc crc) fs" "\<forall>(t, c, p) \<in> set fs. length p \<le> MAX_PAYLOAD"
proof -
  have "\<exists>fs. ds = map (enc crc) fs \<and> (\<forall>(t, c, p) \<in> set fs. length p \<le> MAX_PAYLOAD)"
    using assms
  proof (induction ds)
    case (Cons d ds)
    then obtain fs t c p where "ds = map (enc crc) fs" "\<forall>(t, c, p) \<in> set fs. length p \<le> MAX_PAYLOAD"
      "d = build_frame crc t c p" "length p \<le> MAX_PAYLOAD" by auto
    then show ?case by (intro exI [of _ "(t, c, p) # fs"]) auto
  qed simp
  with that show ?thesis by blast
qed

text \<open>A reader that has seen the part \<open>sent\<close> of a stream of whole frames has delivered a prefix
  of these frames, and all of them when nothing is missing.\<close>

lemma sent_parses:
  assumes stream: "sent @ rest = concat (map (enc crc) fs)"
    and fs: "\<forall>(t, c, p) \<in> set fs. length p \<le> MAX_PAYLOAD"
    and chunks: "concat chunks = sent"
  shows "\<exists>fp got. feed_chunks crc chunks = Some (fp, got) \<and> prefix got fs \<and> (rest = [] \<longrightarrow> got = fs)"
proof -
  have all: "parse crc (sent @ rest) = ([], fs)"
    using parse_wire [of "map (Pair []) fs" crc] fs by (simp add: stream wire_frames wire_ok_frames comp_def)
  obtain r got where p: "parse crc sent = (r, got)" by fastforce
  obtain r' got' where p': "parse crc (r @ rest) = (r', got')" by fastforce
  have "fs = got @ got'" using all parse_append [of crc sent rest] p p' by simp
  moreover have "got' = []" if "rest = []" using that p' parse_rest [OF p] by simp
  moreover obtain fp where "feed_chunks crc chunks = Some (fp, got)"
    using feed_chunks_parse [of crc chunks] chunks p by auto
  ultimately show ?thesis by auto
qed

end
