(* ===== verification/Io.thy ===== *)
theory Io
  imports Tx_Queue Crc32
begin

text \<open>
  What the channels and the daemon share: the environment they run in, the trace of their
  calls, the token layout of the event loop and the registry helpers
  (\<^verbatim>\<open>channel.rs\<close>), and the non-blocking read and write wrappers
  (\<^verbatim>\<open>serial.rs\<close>).

  The environment record \<open>env\<close> holds what the program does not decide: the results of
  system calls, the clock, and the third-party functions (\<open>crc32fast::hash\<close>, the success
  of a \<open>mio\<close> registration).  Each of these is a function of the number of calls made so
  far, so a run may see any sequence of results.  The state \<open>io\<close> that every handler threads
  holds the shared transmit queue, that call counter, and the trace of the calls that have
  an effect outside the program, frames given to the queue included.
\<close>


section \<open>The environment\<close>

type_synonym fd = nat
type_synonym token = nat
type_synonym instant = nat

text \<open>Durations are in nanoseconds.\<close>

definition from_secs :: "nat \<Rightarrow> nat" where "from_secs s = s * 1000000000"
definition from_millis :: "nat \<Rightarrow> nat" where "from_millis s = s * 1000000"

text \<open>\<open>mio::Interest\<close>: a non-empty set of the two flags.\<close>

datatype interest = READABLE | WRITABLE | READABLE_WRITABLE

fun interest_or :: "interest \<Rightarrow> interest \<Rightarrow> interest" where
  "interest_or a b = (if a = b then a else READABLE_WRITABLE)"

fun is_readable :: "interest \<Rightarrow> bool" where
  "is_readable i \<longleftrightarrow> i \<noteq> WRITABLE"

fun is_writable :: "interest \<Rightarrow> bool" where
  "is_writable i \<longleftrightarrow> i \<noteq> READABLE"

datatype read_result = ReadData bytes | ReadErr errno

datatype io_error = Os errno | InvalidInput

text \<open>The result of \<open>TcpListener::accept\<close> and of \<open>TcpStream::read\<close> up to the first
  \<open>WouldBlock\<close>, which is the end of the list.\<close>

datatype accept_result = Accepted fd | AcceptErr errno
datatype tcp_read = TcpData bytes | TcpReadErr errno

datatype cflag = CREAD | CLOCAL | CS8 | Cflag nat
datatype speed = B1200 | B2400 | B4800 | B9600 | B19200 | B38400 | B57600 | B115200
  | B230400 | B460800 | B921600

record termios =
  input_flags :: "nat set"
  output_flags :: "nat set"
  control_flags :: "cflag set"
  local_flags :: "nat set"
  vmin :: nat
  vtime :: nat
  speed_of :: "speed option"

text \<open>The part of the file system that the USB discovery reads: paths are lists of
  components, the root is \<open>[]\<close>.  \<open>None\<close> is an error of the call.\<close>

type_synonym path = "string list"

record sysfs =
  read_dir :: "path \<Rightarrow> string option list option"
  canonicalize :: "path \<Rightarrow> path option"
  read_to_string :: "path \<Rightarrow> string option"

record env =
  env_crc :: hash_fn
  env_now :: "nat \<Rightarrow> instant"
  env_read :: "nat \<Rightarrow> fd \<Rightarrow> nat \<Rightarrow> read_result"
  env_write :: "nat \<Rightarrow> fd \<Rightarrow> write_fn"
  env_open :: "nat \<Rightarrow> string \<Rightarrow> errno + fd"
  env_tcgetattr :: "nat \<Rightarrow> fd \<Rightarrow> errno + termios"
  env_cfsetspeed :: "nat \<Rightarrow> termios \<Rightarrow> speed \<Rightarrow> errno + termios"
  env_tcsetattr :: "nat \<Rightarrow> fd \<Rightarrow> termios \<Rightarrow> errno option"
  env_O_NONBLOCK :: u32
  env_getfl :: "nat \<Rightarrow> fd \<Rightarrow> errno + u32"
  env_setfl :: "nat \<Rightarrow> fd \<Rightarrow> u32 \<Rightarrow> errno option"
  env_openpty :: "nat \<Rightarrow> errno + (fd \<times> fd)"
  env_read_link :: "nat \<Rightarrow> fd \<Rightarrow> errno + string"
  env_symlink :: "nat \<Rightarrow> string \<Rightarrow> string \<Rightarrow> errno option"
  env_sysfs :: "nat \<Rightarrow> sysfs"
  env_register :: "nat \<Rightarrow> fd \<Rightarrow> token \<Rightarrow> errno option"
  env_accept :: "nat \<Rightarrow> fd \<Rightarrow> accept_result list"
  env_parse_addr :: "string \<Rightarrow> nat \<Rightarrow> string option"
  env_bind :: "nat \<Rightarrow> string \<Rightarrow> errno + fd"
  env_connect :: "nat \<Rightarrow> string \<Rightarrow> errno + fd"
  env_peer_addr :: "nat \<Rightarrow> fd \<Rightarrow> bool"
  env_tcp_read :: "nat \<Rightarrow> fd \<Rightarrow> nat \<Rightarrow> tcp_read list"

text \<open>The documented behaviour of the system calls that the code relies on: \<open>read()\<close> and
  \<open>write()\<close> never report more bytes than the buffer has, and the clock does not go back.\<close>

definition read_ok :: "env \<Rightarrow> bool" where
  "read_ok E \<longleftrightarrow> (\<forall>n f cap bs. env_read E n f cap = ReadData bs \<longrightarrow> length bs \<le> cap)
     \<and> (\<forall>n f cap bs. TcpData bs \<in> set (env_tcp_read E n f cap) \<longrightarrow> length bs \<le> cap)"

definition env_ok :: "env \<Rightarrow> bool" where
  "env_ok E \<longleftrightarrow> read_ok E \<and> (\<forall>n f. write_ok (env_write E n f)) \<and> mono (env_now E)"

lemma env_ok_write: "env_ok E \<Longrightarrow> env_write E n f bs = Written k \<Longrightarrow> k \<le> length bs"
  by (auto simp: env_ok_def write_ok_def)

lemma env_ok_read: "env_ok E \<Longrightarrow> env_read E n f cap = ReadData bs \<Longrightarrow> length bs \<le> cap"
  by (auto simp: env_ok_def read_ok_def)

lemma env_ok_tcp_read:
  "env_ok E \<Longrightarrow> TcpData bs \<in> set (env_tcp_read E n f cap) \<Longrightarrow> length bs \<le> cap"
  by (auto simp: env_ok_def read_ok_def)


section \<open>The trace and the threaded state\<close>

datatype call =
    Enqueue bytes
  | Register fd token interest
  | Reregister fd token interest
  | Deregister fd
  | OpenFd fd
  | CloseFd fd
  | Wrote fd bytes
  | LinkWrote fd bytes
  | SetTermios fd termios
  | Symlink string string
  | RemoveFile string
  | TxReset

record io =
  io_txq :: tx_queue
  io_log :: "call list"
  io_n :: nat

definition call :: "call \<Rightarrow> io \<Rightarrow> io" where
  "call c io = io\<lparr>io_log := io_log io @ [c]\<rparr>"

definition next_call :: "io \<Rightarrow> io" where
  "next_call io = io\<lparr>io_n := Suc (io_n io)\<rparr>"

text \<open>\<open>Instant::now()\<close>\<close>

definition now :: "env \<Rightarrow> io \<Rightarrow> instant \<times> io" where
  "now E io = (env_now E (io_n io), next_call io)"

text \<open>\<open>txq.enqueue(&frame)\<close> on the shared queue.\<close>

definition txq_enqueue :: "bytes \<Rightarrow> io \<Rightarrow> io option" where
  "txq_enqueue frame io = do {
     q \<leftarrow> enqueue frame (io_txq io);
     Some (call (Enqueue frame) (io\<lparr>io_txq := q\<rparr>))
   }"

text \<open>\<open>libc::close\<close>\<close>

definition close_raw :: "fd \<Rightarrow> io \<Rightarrow> io" where
  "close_raw f io = call (CloseFd f) io"

definition read_nonblock :: "env \<Rightarrow> fd \<Rightarrow> nat \<Rightarrow> io \<Rightarrow> (io_error + bytes option) \<times> io" where
  "read_nonblock E f cap io =
     (case env_read E (io_n io) f cap of
        ReadErr e \<Rightarrow> if e = EAGAIN \<or> e = EWOULDBLOCK then (Inr None, next_call io)
                     else (Inl (Os e), next_call io)
      | ReadData bs \<Rightarrow> (Inr (Some bs), next_call io))"

definition write_nonblock :: "env \<Rightarrow> fd \<Rightarrow> bytes \<Rightarrow> io \<Rightarrow> (io_error + nat) \<times> io" where
  "write_nonblock E f bs io =
     (case env_write E (io_n io) f bs of
        WriteErr e \<Rightarrow> if e = EAGAIN \<or> e = EWOULDBLOCK then (Inr 0, next_call io)
                      else (Inl (Os e), next_call io)
      | Written n \<Rightarrow> (Inr n, call (Wrote f (take n bs)) (next_call io)))"

text \<open>\<open>vec.drain(..n)\<close>: panics when \<open>n\<close> exceeds the length.\<close>

definition drain_front :: "nat \<Rightarrow> 'a list \<Rightarrow> 'a list option" where
  "drain_front n xs = (if n \<le> length xs then Some (drop n xs) else None)"

lemma drain_front_ok [panic_free]: "n \<le> length xs \<Longrightarrow> drain_front n xs = Some (drop n xs)"
  by (simp add: drain_front_def)


section \<open>Token layout\<close>

definition TOKEN_LINK :: token where "TOKEN_LINK = 0"
definition TCP_BASE :: nat where "TCP_BASE = 64"
definition MAX_CHANNEL_ID :: u8 where "MAX_CHANNEL_ID = 62"
definition MAX_TCP_CONNS :: nat where "MAX_TCP_CONNS = 256"

lemma token_consts [mux_consts]: "TOKEN_LINK = 0" "TCP_BASE = 64" "MAX_TCP_CONNS = 256"
  by (simp_all add: TOKEN_LINK_def TCP_BASE_def MAX_TCP_CONNS_def)

text \<open>The \<open>debug_assert\<close> of the source is a panic of the debug build.\<close>

definition primary_token :: "u8 \<Rightarrow> token option" where
  "primary_token ch_id = (if ch_id \<le> MAX_CHANNEL_ID then Some (unat ch_id + 1) else None)"

definition tcp_slot_token :: "u8 \<Rightarrow> nat \<Rightarrow> token" where
  "tcp_slot_token ch_id slot = TCP_BASE + unat ch_id * MAX_TCP_CONNS + slot"

definition channel_id_for_token :: "token \<Rightarrow> u8 option" where
  "channel_id_for_token t =
     (if t = 0 then None
      else if 1 \<le> t \<and> t \<le> 63 then Some (of_nat (t - 1))
      else let i = (t - TCP_BASE) div MAX_TCP_CONNS
           in if i \<le> unat MAX_CHANNEL_ID then Some (of_nat i) else None)"


section \<open>Registry helpers\<close>

definition reg_add :: "fd \<Rightarrow> token \<Rightarrow> interest \<Rightarrow> io \<Rightarrow> io" where
  "reg_add f t i io = call (Register f t i) io"

definition reg_mod :: "fd \<Rightarrow> token \<Rightarrow> interest \<Rightarrow> io \<Rightarrow> io" where
  "reg_mod f t i io = call (Reregister f t i) io"

definition reg_del :: "fd \<Rightarrow> io \<Rightarrow> io" where
  "reg_del f io = call (Deregister f) io"

text \<open>The body shared by the \<open>update_interest\<close> methods of the UART and the PTY channel: which
  readiness the channel waits for, and the registry call that makes it so.\<close>

definition wanted_interest :: "bool \<Rightarrow> bytes \<Rightarrow> interest option" where
  "wanted_interest bp_paused txbuf =
     (let i = (if bp_paused then None else Some READABLE)
      in if txbuf \<noteq> []
         then Some (case i of None \<Rightarrow> WRITABLE | Some i \<Rightarrow> interest_or i WRITABLE)
         else i)"

definition sync_interest :: "u8 \<Rightarrow> fd \<Rightarrow> interest option \<Rightarrow> bool \<Rightarrow> io \<Rightarrow> (bool \<times> io) option" where
  "sync_interest ch_id f wanted in_sel io = do {
     t \<leftarrow> primary_token ch_id;
     (case (wanted, in_sel) of
        (None, True) \<Rightarrow> Some (False, reg_del f io)
      | (None, False) \<Rightarrow> Some (in_sel, io)
      | (Some i, False) \<Rightarrow> Some (True, reg_add f t i io)
      | (Some i, True) \<Rightarrow> Some (in_sel, reg_mod f t i io))
   }"


section \<open>Tokens identify their owner\<close>

text \<open>The channel ids and slots that have a token.\<close>

abbreviation id_ok :: "u8 \<Rightarrow> bool" where
  "id_ok c \<equiv> c \<le> MAX_CHANNEL_ID"

lemma id_ok_unat: "id_ok c \<longleftrightarrow> unat c \<le> 62"
  by (simp add: MAX_CHANNEL_ID_def word_le_nat_alt)

lemma unat_max_id [mux_consts]: "unat MAX_CHANNEL_ID = 62"
  by (simp add: MAX_CHANNEL_ID_def)

lemma primary_token_ok [panic_free]: "id_ok c \<Longrightarrow> primary_token c = Some (unat c + 1)"
  by (simp add: primary_token_def)

lemma primary_token_routes: "primary_token c = Some t \<Longrightarrow> channel_id_for_token t = Some c"
  by (auto simp: primary_token_def channel_id_for_token_def id_ok_unat split: if_splits)

lemma tcp_slot_token_routes:
  assumes "id_ok c" "slot < MAX_TCP_CONNS"
  shows "channel_id_for_token (tcp_slot_token c slot) = Some c"
    and "(tcp_slot_token c slot - TCP_BASE) mod MAX_TCP_CONNS = slot"
  using assms
  by (simp_all add: tcp_slot_token_def channel_id_for_token_def id_ok_unat mux_consts Let_def)


section \<open>Traces of the handlers\<close>

text \<open>The frames given to the queue in a trace.\<close>

fun enqueued :: "call list \<Rightarrow> bytes list" where
  "enqueued [] = []"
| "enqueued (Enqueue f # cs) = f # enqueued cs"
| "enqueued (c # cs) = enqueued cs"

lemma enqueued_append [simp]: "enqueued (cs @ ds) = enqueued cs @ enqueued ds"
  by (induction cs rule: enqueued.induct) auto

text \<open>\<open>emits P io io'\<close>: from \<open>io\<close> to \<open>io'\<close> only calls in \<open>P\<close> were made, and the queue has
  changed by the frames enqueued and nothing else.\<close>

definition emits :: "(call \<Rightarrow> bool) \<Rightarrow> io \<Rightarrow> io \<Rightarrow> bool" where
  "emits P io io' \<longleftrightarrow> (\<exists>cs. io_log io' = io_log io @ cs \<and> list_all P cs
     \<and> io_txq io' = fold enq (enqueued cs) (io_txq io) \<and> io_n io \<le> io_n io')"

lemma emits_refl [simp]: "emits P io io"
  by (simp add: emits_def)

lemma emits_trans: "emits P a b \<Longrightarrow> emits P b c \<Longrightarrow> emits P a c"
  unfolding emits_def by (elim exE) (rule_tac x = "cs @ csa" in exI, auto)

lemma emits_mono: "emits P a b \<Longrightarrow> (\<And>c. P c \<Longrightarrow> Q c) \<Longrightarrow> emits Q a b"
  unfolding emits_def by (metis list_all_iff)

fun is_enqueue :: "call \<Rightarrow> bool" where
  "is_enqueue (Enqueue f) = True"
| "is_enqueue c = False"

lemma emits_call: "\<not> is_enqueue c \<Longrightarrow> P c \<Longrightarrow> emits P a b \<Longrightarrow> emits P a (call c b)"
  unfolding emits_def call_def
  by (elim exE, rule_tac x = "cs @ [c]" in exI) (cases c; simp)

lemma emits_next [simp]: "emits P a b \<Longrightarrow> emits P a (next_call b)"
  unfolding emits_def next_call_def by auto

lemma fold_enq_inv: "txq_inv q \<Longrightarrow> txq_inv (fold enq fs q)"
  by (induction fs arbitrary: q) auto

lemma emits_inv: "emits P io io' \<Longrightarrow> txq_inv (io_txq io) \<Longrightarrow> txq_inv (io_txq io')"
  by (auto simp: emits_def fold_enq_inv)

lemma enqueued_quiet: "list_all P cs \<Longrightarrow> (\<And>c. P c \<Longrightarrow> \<not> is_enqueue c) \<Longrightarrow> enqueued cs = []"
proof (induction cs)
  case (Cons c cs)
  then show ?case using Cons.prems(2) [of c] by (cases c) auto
qed simp

text \<open>Calls that enqueue nothing do not depend on the queue.\<close>

lemma emits_quiet_swap:
  assumes "emits P (io\<lparr>io_txq := q1\<rparr>) io'" "\<And>c. P c \<Longrightarrow> \<not> is_enqueue c"
  shows "emits P (io\<lparr>io_txq := q\<rparr>) (io'\<lparr>io_txq := q\<rparr>)"
  using assms enqueued_quiet [of P] unfolding emits_def by auto

text \<open>Under the queue invariant an enqueue is total.\<close>

definition send :: "bytes \<Rightarrow> io \<Rightarrow> io" where
  "send f io = call (Enqueue f) (io\<lparr>io_txq := enq f (io_txq io)\<rparr>)"

lemma txq_enqueue_send [simp]: "txq_inv (io_txq io) \<Longrightarrow> txq_enqueue f io = Some (send f io)"
  by (simp add: txq_enqueue_def send_def)

lemma emits_send: "P (Enqueue f) \<Longrightarrow> emits P a b \<Longrightarrow> emits P a (send f b)"
  unfolding emits_def send_def call_def
  by (elim exE, rule_tac x = "cs @ [Enqueue f]" in exI) simp

lemma io_fields [simp]:
  "io_txq (call c io) = io_txq io" "io_txq (next_call io) = io_txq io"
  "io_txq (send f io) = enq f (io_txq io)"
  "io_log (call c io) = io_log io @ [c]" "io_log (next_call io) = io_log io"
  "io_log (send f io) = io_log io @ [Enqueue f]"
  "io_n (call c io) = io_n io" "io_n (next_call io) = Suc (io_n io)" "io_n (send f io) = io_n io"
  by (simp_all add: call_def next_call_def send_def)

lemmas io_defs = reg_add_def reg_mod_def reg_del_def close_raw_def now_def



section \<open>An example environment\<close>

text \<open>A cooperative machine: reads have nothing to deliver, writes take everything, every call
  succeeds, and the clock counts the calls in milliseconds.  The witnesses instantiate the
  parameter \<open>E\<close> with it or with an update of it.\<close>

definition example_env :: env where
  "example_env = \<lparr>
     env_crc = crc32_buf,
     env_now = from_millis,
     env_read = (\<lambda>n f cap. ReadErr EAGAIN),
     env_write = (\<lambda>n f bs. Written (length bs)),
     env_open = (\<lambda>n dev. Inr 5),
     env_tcgetattr = (\<lambda>n f. Inr \<lparr>input_flags = {1}, output_flags = {1}, control_flags = {CS8},
        local_flags = {2}, vmin = 1, vtime = 0, speed_of = None\<rparr>),
     env_cfsetspeed = (\<lambda>n a s. Inr (a\<lparr>speed_of := Some s\<rparr>)),
     env_tcsetattr = (\<lambda>n f a. None),
     env_O_NONBLOCK = 0x800,
     env_getfl = (\<lambda>n f. Inr 2),
     env_setfl = (\<lambda>n f fl. None),
     env_openpty = (\<lambda>n. Inr (7, 8)),
     env_read_link = (\<lambda>n f. Inr ''/dev/pts/3''),
     env_symlink = (\<lambda>n a b. None),
     env_sysfs = (\<lambda>n. \<lparr>read_dir = (\<lambda>p. None), canonicalize = (\<lambda>p. None),
        read_to_string = (\<lambda>p. None)\<rparr>),
     env_register = (\<lambda>n f t. None),
     env_accept = (\<lambda>n f. []),
     env_parse_addr = (\<lambda>a p. Some a),
     env_bind = (\<lambda>n a. Inr 6),
     env_connect = (\<lambda>n a. Inr 9),
     env_peer_addr = (\<lambda>n f. True),
     env_tcp_read = (\<lambda>n f cap. [])\<rparr>"

definition io_new :: io where
  "io_new = \<lparr>io_txq = txq_new, io_log = [], io_n = 0\<rparr>"

lemma example_env_ok: "env_ok example_env"
  by (auto simp: env_ok_def read_ok_def write_ok_def example_env_def mono_def from_millis_def)

lemma io_new_sel [simp]: "io_txq io_new = txq_new" "io_log io_new = []" "io_n io_new = 0"
  by (simp_all add: io_new_def)

end
