(* ===== verification/Serial.thy ===== *)
theory Serial
  imports Io "HOL-Library.Char_ord" "HOL-Library.List_Lexorder"
begin

text \<open>
  Serial ports, PTY pairs and the USB discovery (\<^verbatim>\<open>serial.rs\<close>).  The file descriptors that a
  call opens and closes are read off the trace: \<open>leaked\<close> is what a trace leaves open.
\<close>


section \<open>File descriptors\<close>

definition set_nonblock :: "env \<Rightarrow> fd \<Rightarrow> io \<Rightarrow> (io_error + unit) \<times> io" where
  "set_nonblock E f io =
     (case env_getfl E (io_n io) f of
        Inl e \<Rightarrow> (Inl (Os e), next_call io)
      | Inr flags \<Rightarrow>
          let io = next_call io in
          (case env_setfl E (io_n io) f (flags OR env_O_NONBLOCK E) of
             Some e \<Rightarrow> (Inl (Os e), next_call io)
           | None \<Rightarrow> (Inr (), next_call io)))"


section \<open>Serial port\<close>

definition baud_to_speed :: "u32 \<Rightarrow> speed option" where
  "baud_to_speed baud =
     (if baud = 1200 then Some B1200
      else if baud = 2400 then Some B2400
      else if baud = 4800 then Some B4800
      else if baud = 9600 then Some B9600
      else if baud = 19200 then Some B19200
      else if baud = 38400 then Some B38400
      else if baud = 57600 then Some B57600
      else if baud = 115200 then Some B115200
      else if baud = 230400 then Some B230400
      else if baud = 460800 then Some B460800
      else if baud = 921600 then Some B921600
      else None)"

text \<open>The raw mode that \<open>apply_termios\<close> writes over the attributes it read.  On Linux the speed is
  part of the control flags (the bits \<open>CBAUD\<close>), so setting those clears it to \<open>B0\<close>, here \<open>None\<close>.\<close>

definition raw_attrs :: "termios \<Rightarrow> termios" where
  "raw_attrs attrs = attrs\<lparr>input_flags := {}, output_flags := {},
     control_flags := {CREAD, CLOCAL, CS8}, local_flags := {}, vmin := 0, vtime := 0,
     speed_of := None\<rparr>"

definition apply_termios :: "env \<Rightarrow> fd \<Rightarrow> u32 \<Rightarrow> io \<Rightarrow> (io_error + unit) \<times> io" where
  "apply_termios E f baud io =
     (case baud_to_speed baud of
        None \<Rightarrow> (Inl InvalidInput, io)
      | Some speed \<Rightarrow>
          (case env_tcgetattr E (io_n io) f of
             Inl e \<Rightarrow> (Inl (Os e), next_call io)
           | Inr attrs \<Rightarrow>
               let io = next_call io in
               (case env_cfsetspeed E (io_n io) (raw_attrs attrs) speed of
                  Inl e \<Rightarrow> (Inl (Os e), next_call io)
                | Inr attrs \<Rightarrow>
                    let io = next_call io in
                    (case env_tcsetattr E (io_n io) f attrs of
                       Some e \<Rightarrow> (Inl (Os e), next_call io)
                     | None \<Rightarrow> (Inr (), call (SetTermios f attrs) (next_call io))))))"

text \<open>\<open>CString::new\<close> fails on an inner NUL.\<close>

definition open_serial_fd :: "env \<Rightarrow> string \<Rightarrow> u32 \<Rightarrow> io \<Rightarrow> (io_error + fd) \<times> io" where
  "open_serial_fd E dev baud io =
     (if CHR 0x00 \<in> set dev then (Inl InvalidInput, io)
      else case env_open E (io_n io) dev of
        Inl e \<Rightarrow> (Inl (Os e), next_call io)
      | Inr f \<Rightarrow>
          (case apply_termios E f baud (call (OpenFd f) (next_call io)) of
             (Inl e, io) \<Rightarrow> (Inl e, close_raw f io)
           | (Inr _, io) \<Rightarrow> (Inr f, io)))"


section \<open>PTY helpers\<close>

definition open_pty_raw :: "env \<Rightarrow> u32 \<Rightarrow> io \<Rightarrow> (io_error + (fd \<times> fd)) \<times> io" where
  "open_pty_raw E baud io =
     (case env_openpty E (io_n io) of
        Inl e \<Rightarrow> (Inl (Os e), next_call io)
      | Inr (master, slave) \<Rightarrow>
          (case apply_termios E slave baud (call (OpenFd slave) (call (OpenFd master) (next_call io))) of
             (Inl e, io) \<Rightarrow> (Inl e, io)
           | (Inr _, io) \<Rightarrow>
               (case set_nonblock E master io of
                  (Inl e, io) \<Rightarrow> (Inl e, io)
                | (Inr _, io) \<Rightarrow> (Inr (master, slave), io))))"

definition pty_slave_name :: "env \<Rightarrow> fd \<Rightarrow> io \<Rightarrow> (io_error + string) \<times> io" where
  "pty_slave_name E slave io =
     (case env_read_link E (io_n io) slave of
        Inl e \<Rightarrow> (Inl (Os e), next_call io)
      | Inr p \<Rightarrow> (Inr p, next_call io))"


section \<open>USB discovery\<close>

definition is_space :: "char \<Rightarrow> bool" where
  "is_space c \<longleftrightarrow> c \<in> {CHR 0x09, CHR 0x0A, CHR 0x0B, CHR 0x0C, CHR 0x0D, CHR 0x20}"

text \<open>\<open>str::trim\<close> on ASCII text.\<close>

definition trim :: "string \<Rightarrow> string" where
  "trim s = rev (dropWhile is_space (rev (dropWhile is_space s)))"

text \<open>The inner loop: up to \<open>n\<close> levels from \<open>cur\<close> upwards; stops at the first directory that
  has both id files.\<close>

fun climb :: "sysfs \<Rightarrow> string \<Rightarrow> string \<Rightarrow> nat \<Rightarrow> path \<Rightarrow> bool" where
  "climb fs vid pid 0 cur = False"
| "climb fs vid pid (Suc n) cur =
     (case (read_to_string fs (cur @ [''idVendor'']), read_to_string fs (cur @ [''idProduct''])) of
        (Some v, Some p) \<Rightarrow> trim v = vid \<and> trim p = pid
      | _ \<Rightarrow> if cur = [] then False else climb fs vid pid n (butlast cur))"

definition tty_dir :: path where
  "tty_dir = [''sys'', ''class'', ''tty'']"

definition device_path :: "sysfs \<Rightarrow> string \<Rightarrow> path" where
  "device_path fs name =
     (case canonicalize fs (tty_dir @ [name]) of Some p \<Rightarrow> p | None \<Rightarrow> tty_dir @ [name])"

definition acm_entries :: "string option list \<Rightarrow> string list" where
  "acm_entries es = sort [e. Some e \<leftarrow> es, prefix ''ttyACM'' e]"

definition find_acm_by_usb_id :: "sysfs \<Rightarrow> string \<Rightarrow> string \<Rightarrow> string option" where
  "find_acm_by_usb_id fs vid pid = do {
     es \<leftarrow> read_dir fs tty_dir;
     name \<leftarrow> List.find (\<lambda>name. climb fs vid pid 8 (device_path fs name)) (acm_entries es);
     Some (''/dev/'' @ name)
   }"



section \<open>No descriptor is lost when a port cannot be opened\<close>

fun open_fds :: "call list \<Rightarrow> fd list \<Rightarrow> fd list" where
  "open_fds [] fs = fs"
| "open_fds (OpenFd f # cs) fs = open_fds cs (f # fs)"
| "open_fds (CloseFd f # cs) fs = open_fds cs (remove1 f fs)"
| "open_fds (c # cs) fs = open_fds cs fs"

definition leaked :: "call list \<Rightarrow> fd list" where
  "leaked cs = open_fds cs []"

lemma open_fds_append [simp]: "open_fds (cs @ ds) fs = open_fds ds (open_fds cs fs)"
  by (induction cs fs rule: open_fds.induct) auto

lemma apply_termios_trace:
  "apply_termios E f baud io = (r, io') \<Longrightarrow> io_txq io' = io_txq io \<and> io_n io \<le> io_n io' \<and>
    (case r of
       Inl e \<Rightarrow> io_log io' = io_log io
     | Inr _ \<Rightarrow> \<exists>s n a a'. baud_to_speed baud = Some s \<and> env_cfsetspeed E n (raw_attrs a) s = Inr a'
         \<and> io_log io' = io_log io @ [SetTermios f a'])"
  unfolding apply_termios_def
  by (auto simp: Let_def next_call_def call_def split: option.splits sum.splits) blast

lemma set_nonblock_trace:
  "set_nonblock E f io = (r, io') \<Longrightarrow> io_txq io' = io_txq io \<and> io_log io' = io_log io \<and> io_n io \<le> io_n io'"
  by (auto simp: set_nonblock_def Let_def next_call_def split: option.splits sum.splits)

lemma open_serial_fd_trace:
  assumes "open_serial_fd E dev baud io = (r, io')"
  shows "io_txq io' = io_txq io \<and> (\<exists>cs. io_log io' = io_log io @ cs
     \<and> (case r of
          Inl e \<Rightarrow> leaked cs = []
        | Inr f \<Rightarrow> leaked cs = [f] \<and> CHR 0x00 \<notin> set dev
            \<and> (\<exists>s n a a'. baud_to_speed baud = Some s
                 \<and> env_cfsetspeed E n (raw_attrs a) s = Inr a' \<and> SetTermios f a' \<in> set cs)))"
proof (cases "CHR 0x00 \<in> set dev")
  case True
  then show ?thesis using assms by (auto simp: open_serial_fd_def leaked_def)
next
  case nul: False
  show ?thesis
  proof (cases "env_open E (io_n io) dev")
    case (Inl e)
    with nul assms show ?thesis by (auto simp: open_serial_fd_def leaked_def)
  next
    case (Inr f)
    obtain x io1 where a: "apply_termios E f baud (call (OpenFd f) (next_call io)) = (x, io1)"
      by fastforce
    show ?thesis
    proof (cases x)
      case (Inl e)
      with a nul Inr assms apply_termios_trace [OF a] show ?thesis
        by (auto simp: open_serial_fd_def leaked_def close_raw_def)
    next
      case ok: (Inr u)
      with a nul Inr assms apply_termios_trace [OF a] show ?thesis
        by (fastforce simp: open_serial_fd_def leaked_def)
    qed
  qed
qed


text \<open>\<open>open_serial_fd\<close> either fails and leaves no descriptor open, or returns one that it opened,
  configured raw at a supported speed and left open; the transmit queue is not touched.\<close>

lemma open_serial_fd_owns:
  "case open_serial_fd E dev baud io of (r, io') \<Rightarrow>
     io_txq io' = io_txq io
     \<and> (\<exists>cs. io_log io' = io_log io @ cs
        \<and> (case r of
             Inl e \<Rightarrow> leaked cs = []
           | Inr f \<Rightarrow> leaked cs = [f] \<and> CHR 0x00 \<notin> set dev
               \<and> (\<exists>s n a a'. baud_to_speed baud = Some s
                    \<and> env_cfsetspeed E n (raw_attrs a) s = Inr a' \<and> SetTermios f a' \<in> set cs)))"
  by (cases "open_serial_fd E dev baud io") (auto dest: open_serial_fd_trace)

text \<open>C11: \<open>open_pty_raw\<close> has no such guarantee: when the baud rate is unsupported it returns an
  error and both descriptors of the pair it opened stay open.\<close>

theorem open_pty_raw_leaks:
  assumes "env_openpty E (io_n io) = Inr (master, slave)" "baud_to_speed baud = None"
  shows "\<exists>cs io'. open_pty_raw E baud io = (Inl InvalidInput, io')
    \<and> io_log io' = io_log io @ cs \<and> leaked cs = [slave, master]"
  using assms by (simp add: open_pty_raw_def apply_termios_def leaked_def)

theorem open_pty_raw_leaks_witness:
  "\<exists>cs io'. open_pty_raw example_env 250000 io_new = (Inl InvalidInput, io')
     \<and> io_log io' = cs \<and> leaked cs = [8, 7]"
  using open_pty_raw_leaks [of example_env io_new 7 8 250000]
  by (simp add: baud_to_speed_def example_env_def)


section \<open>The discovery finds the first matching device\<close>

text \<open>The specification: the nearest directory with both id files, within eight levels.\<close>

definition ids_at :: "sysfs \<Rightarrow> path \<Rightarrow> (string \<times> string) option" where
  "ids_at fs p =
     (case (read_to_string fs (p @ [''idVendor'']), read_to_string fs (p @ [''idProduct''])) of
        (Some v, Some d) \<Rightarrow> Some (trim v, trim d) | _ \<Rightarrow> None)"

definition ancestor :: "nat \<Rightarrow> path \<Rightarrow> path" where
  "ancestor k p = take (length p - k) p"

definition usb_match :: "sysfs \<Rightarrow> string \<Rightarrow> string \<Rightarrow> nat \<Rightarrow> path \<Rightarrow> bool" where
  "usb_match fs vid pid n p \<longleftrightarrow> (\<exists>k<n. k \<le> length p \<and> ids_at fs (ancestor k p) = Some (vid, pid)
     \<and> (\<forall>j<k. ids_at fs (ancestor j p) = None))"

lemma ancestor_Suc: "ancestor (Suc k) p = ancestor k (butlast p)"
  by (simp add: ancestor_def butlast_conv_take)

lemma ancestor_0 [simp]: "ancestor 0 p = p"
  by (simp add: ancestor_def)

lemma climb_step:
  "climb fs vid pid (Suc n) p =
     (case ids_at fs p of Some i \<Rightarrow> i = (vid, pid) | None \<Rightarrow> p \<noteq> [] \<and> climb fs vid pid n (butlast p))"
  by (auto simp: ids_at_def split: option.splits)

lemma usb_match_step:
  "usb_match fs vid pid (Suc n) p =
     (case ids_at fs p of Some i \<Rightarrow> i = (vid, pid) | None \<Rightarrow> p \<noteq> [] \<and> usb_match fs vid pid n (butlast p))"
proof (cases "ids_at fs p")
  case None
  have "usb_match fs vid pid (Suc n) p \<longleftrightarrow> (\<exists>k<n. Suc k \<le> length p
      \<and> ids_at fs (ancestor (Suc k) p) = Some (vid, pid) \<and> (\<forall>j<Suc k. ids_at fs (ancestor j p) = None))"
    unfolding usb_match_def using None by (simp add: Ex_less_Suc2)
  also have "\<dots> \<longleftrightarrow> p \<noteq> [] \<and> usb_match fs vid pid n (butlast p)"
    unfolding usb_match_def All_less_Suc2 using None by (cases p rule: rev_cases) (auto simp: ancestor_Suc)
  finally show ?thesis using None by simp
next
  case (Some i)
  then show ?thesis unfolding usb_match_def by (auto simp: Ex_less_Suc2)
qed

lemma climb_usb_match: "climb fs vid pid n p \<longleftrightarrow> usb_match fs vid pid n p"
proof (induction n arbitrary: p)
  case 0
  then show ?case by (simp add: usb_match_def)
next
  case (Suc n)
  then show ?case by (simp only: climb_step usb_match_step)
qed

lemma find_filter_head: "filter P ys = x # xs \<Longrightarrow> List.find P ys = Some x"
  by (induction ys) (auto split: if_splits)

definition acm_candidates :: "sysfs \<Rightarrow> string option list \<Rightarrow> string \<Rightarrow> string \<Rightarrow> string set" where
  "acm_candidates fs es vid pid =
     {n. Some n \<in> set es \<and> prefix ''ttyACM'' n \<and> usb_match fs vid pid 8 (device_path fs n)}"

text \<open>C10: the discovery returns \<open>/dev/\<close> and the least name, in byte order, among the
  \<open>ttyACM*\<close> entries whose nearest USB node within eight levels has the given ids, and nothing
  exactly when there is no such entry.\<close>

theorem find_acm_least:
  "find_acm_by_usb_id fs vid pid =
     (case read_dir fs tty_dir of
        None \<Rightarrow> None
      | Some es \<Rightarrow> let cands = acm_candidates fs es vid pid
          in if cands = {} then None else Some (''/dev/'' @ Min cands))"
proof (cases "read_dir fs tty_dir")
  case None
  then show ?thesis by (simp add: find_acm_by_usb_id_def)
next
  case (Some es)
  let ?P = "\<lambda>n. climb fs vid pid 8 (device_path fs n)"
  have set: "set (acm_entries es) = {n. Some n \<in> set es \<and> prefix ''ttyACM'' n}"
    by (auto simp: acm_entries_def)
  have cands: "acm_candidates fs es vid pid = set (filter ?P (acm_entries es))"
    by (auto simp: acm_candidates_def set climb_usb_match)
  have srt: "sorted (acm_entries es)" by (simp add: acm_entries_def)
  show ?thesis
  proof (cases "filter ?P (acm_entries es)")
    case Nil
    then have "List.find ?P (acm_entries es) = None" by (auto simp: find_None_iff filter_empty_conv)
    then show ?thesis using Some Nil by (simp add: find_acm_by_usb_id_def cands)
  next
    case (Cons x xs)
    have "List.find ?P (acm_entries es) = Some x" using Cons
      by (simp add: find_filter_head)
    moreover have "sorted (x # xs)" using srt Cons by (metis sorted_wrt_filter)
    then have "Min (set (x # xs)) = x" by (auto intro: Min_eqI)
    ultimately show ?thesis using Some by (simp add: find_acm_by_usb_id_def cands Cons del: filter.simps)
  qed
qed

end
