(* ===== verification/Channel_Spec.thy ===== *)
theory Channel_Spec
  imports Serial
begin

text \<open>
  The \<open>Channel\<close> trait of \<^verbatim>\<open>channel.rs\<close> as an interface.  What the daemon sees of a
  channel is its id, whether its reads are paused, whether it believes the link to be up, and
  the tokens it may register;
  what it relies on is that no handler panics, that a handler gives the queue only well-formed
  frames of the channel's own id and of the channel frame types, that it registers only tokens
  that route back to the channel, and that the handlers without a queue argument enqueue
  nothing.
\<close>

record chan_view =
  cv_id :: u8
  cv_paused :: bool
  cv_linked :: "bool option"
  cv_tokens :: "token set"

definition channel_types :: "u8 set" where
  "channel_types = {F_DATA, F_FLUSH, F_READY, F_TCONN, F_TDATA, F_TCLOSE}"

lemma channel_typesI [simp, intro]:
  "F_DATA \<in> channel_types" "F_FLUSH \<in> channel_types" "F_READY \<in> channel_types"
  "F_TCONN \<in> channel_types" "F_TDATA \<in> channel_types" "F_TCLOSE \<in> channel_types"
  by (simp_all add: channel_types_def)

definition own_frame :: "hash_fn \<Rightarrow> u8 \<Rightarrow> bytes \<Rightarrow> bool" where
  "own_frame crc c f \<longleftrightarrow>
     (\<exists>t p. f = build_frame crc t c p \<and> t \<in> channel_types \<and> length p \<le> MAX_PAYLOAD)"

fun own_call :: "hash_fn \<Rightarrow> u8 \<Rightarrow> call \<Rightarrow> bool" where
  "own_call crc c (Enqueue f) \<longleftrightarrow> own_frame crc c f"
| "own_call crc c (Register f t i) \<longleftrightarrow> channel_id_for_token t = Some c"
| "own_call crc c (Reregister f t i) \<longleftrightarrow> channel_id_for_token t = Some c"
| "own_call crc c TxReset \<longleftrightarrow> False"
| "own_call crc c (LinkWrote f bs) \<longleftrightarrow> False"
| "own_call crc c _ \<longleftrightarrow> True"

definition quiet_call :: "u8 \<Rightarrow> call \<Rightarrow> bool" where
  "quiet_call c x \<longleftrightarrow> \<not> is_enqueue x \<and> own_call (\<lambda>_. 0) c x"

lemma quiet_own: "quiet_call c x \<Longrightarrow> own_call crc c x"
  by (cases x) (auto simp: quiet_call_def)

lemma own_frameI:
  "t \<in> channel_types \<Longrightarrow> length p \<le> MAX_PAYLOAD \<Longrightarrow> own_frame crc c (build_frame crc t c p)"
  by (auto simp: own_frame_def)

text \<open>The outcome of a handler: a result, with the expected view, made by calls in \<open>P\<close> only.\<close>

definition handles ::
  "(call \<Rightarrow> bool) \<Rightarrow> ('c \<Rightarrow> bool) \<Rightarrow> ('c \<Rightarrow> chan_view) \<Rightarrow> chan_view \<Rightarrow> io \<Rightarrow> ('c \<times> io) option \<Rightarrow> bool" where
  "handles P ok view v io r \<longleftrightarrow>
     (\<exists>ch' io'. r = Some (ch', io') \<and> ok ch' \<and> view ch' = v \<and> emits P io io')"

abbreviation own :: "env \<Rightarrow> chan_view \<Rightarrow> call \<Rightarrow> bool" where
  "own E v \<equiv> own_call (env_crc E) (cv_id v)"

abbreviation quiet :: "chan_view \<Rightarrow> call \<Rightarrow> bool" where
  "quiet v \<equiv> quiet_call (cv_id v)"

lemma handlesI:
  "r = Some (ch', io') \<Longrightarrow> ok ch' \<Longrightarrow> view ch' = v \<Longrightarrow> emits P io io' \<Longrightarrow> handles P ok view v io r"
  by (auto simp: handles_def)

lemma handles_Some [simp]:
  "handles P ok view v io (Some (ch', io')) \<longleftrightarrow> ok ch' \<and> view ch' = v \<and> emits P io io'"
  by (auto simp: handles_def)

lemma handles_mono:
  "handles P ok view v io r \<Longrightarrow> (\<And>c. P c \<Longrightarrow> Q c) \<Longrightarrow> handles Q ok view v io r"
  unfolding handles_def using emits_mono by blast

text \<open>Sequencing of handlers.\<close>

lemma handles_bind:
  assumes "handles P ok view v io r" "emits P io0 io"
    and "\<And>ch' io'. ok ch' \<Longrightarrow> view ch' = v \<Longrightarrow> emits P io0 io' \<Longrightarrow> handles P ok view w io0 (k ch' io')"
  shows "handles P ok view w io0 (r \<bind> (\<lambda>(ch', io'). k ch' io'))"
proof -
  obtain ch' io' where r: "r = Some (ch', io')" "ok ch'" "view ch' = v" "emits P io io'"
    using assms(1) unfolding handles_def by blast
  show ?thesis using assms(3) [OF r(2,3) emits_trans [OF assms(2) r(4)]] r(1) by simp
qed

lemma handles_from:
  "handles P ok view v io r \<Longrightarrow> emits P io0 io \<Longrightarrow> handles P ok view v io0 r"
  unfolding handles_def using emits_trans by blast

lemma emits_open_serial:
  assumes "open_serial_fd E dev baud io = (r, io')" "\<And>f a. P (OpenFd f) \<and> P (CloseFd f) \<and> P (SetTermios f a)"
  shows "emits P io io'"
proof (cases "CHR 0x00 \<in> set dev")
  case True
  with assms(1) show ?thesis by (simp add: open_serial_fd_def)
next
  case nul: False
  show ?thesis
  proof (cases "env_open E (io_n io) dev")
    case (Inl e)
    with nul assms(1) show ?thesis by (auto simp: open_serial_fd_def)
  next
    case (Inr f)
    obtain r1 io1 where a: "apply_termios E f baud (call (OpenFd f) (next_call io)) = (r1, io1)"
      by fastforce
    have "emits P io (call (OpenFd f) (next_call io))" by (intro emits_call) (use assms(2) in auto)
    moreover have "emits P (call (OpenFd f) (next_call io)) io1"
      using apply_termios_trace [OF a] assms(2) unfolding emits_def
      by (cases r1) (auto simp: fold_enq_inv)
    ultimately have e: "emits P io io1" by (rule emits_trans)
    then show ?thesis using nul assms Inr a
      by (cases r1) (auto simp: open_serial_fd_def close_raw_def intro: emits_call)
  qed
qed


lemma read_nonblock_next:
  assumes "env_ok E"
  shows "\<exists>r. read_nonblock E f cap io = (r, next_call io)
     \<and> (\<forall>data. r = Inr (Some data) \<longrightarrow> length data \<le> cap)"
  using env_ok_read [OF assms, of "io_n io" f cap]
  by (cases "env_read E (io_n io) f cap") (auto simp: read_nonblock_def)

lemma sync_interest_txq: "sync_interest c f i s io = Some (b, io') \<Longrightarrow> io_txq io' = io_txq io"
  by (auto simp: sync_interest_def io_defs split: option.splits bool.splits if_splits bind_splits)

lemma open_serial_txq: "open_serial_fd E dev baud io = (r, io') \<Longrightarrow> io_txq io' = io_txq io"
  using apply_termios_trace
  by (fastforce simp: open_serial_fd_def close_raw_def split: if_splits sum.splits prod.splits)

lemma sync_interest_ok:
  assumes "id_ok c"
  shows "\<exists>io'. sync_interest c f i s io = Some (i \<noteq> None, io') \<and> emits (quiet_call c) io io'"
proof -
  have "channel_id_for_token (unat c + 1) = Some c"
    using primary_token_routes [OF primary_token_ok [OF assms]] .
  then show ?thesis using assms
    by (cases i; cases s)
       (auto simp: sync_interest_def primary_token_ok io_defs quiet_call_def intro!: emits_call)
qed

lemma own_ctl [simp]: "t \<in> channel_types \<Longrightarrow> own_call crc c (Enqueue (build_frame crc t c []))"
  by (auto intro!: own_frameI)


section \<open>The interface\<close>

text \<open>The method table of a \<open>dyn Channel\<close>.  A method that takes no queue in the source has an
  \<open>io\<close> argument here for its registry and descriptor calls.\<close>

record 'c vtable =
  vt_channel_id :: "'c \<Rightarrow> u8"
  vt_on_frame :: "env \<Rightarrow> u8 \<Rightarrow> bytes \<Rightarrow> 'c \<Rightarrow> io \<Rightarrow> ('c \<times> io) option"
  vt_on_link_connect :: "env \<Rightarrow> 'c \<Rightarrow> io \<Rightarrow> ('c \<times> io) option"
  vt_on_link_disconnect :: "env \<Rightarrow> 'c \<Rightarrow> io \<Rightarrow> ('c \<times> io) option"
  vt_tick :: "env \<Rightarrow> instant \<Rightarrow> 'c \<Rightarrow> io \<Rightarrow> ('c \<times> io) option"
  vt_next_deadline :: "'c \<Rightarrow> instant option"
  vt_handle_event :: "env \<Rightarrow> token \<Rightarrow> bool \<Rightarrow> bool \<Rightarrow> 'c \<Rightarrow> io \<Rightarrow> ('c \<times> io) option"
  vt_close :: "env \<Rightarrow> 'c \<Rightarrow> io \<Rightarrow> ('c \<times> io) option"
  vt_pause_source_reads :: "'c \<Rightarrow> io \<Rightarrow> ('c \<times> io) option"
  vt_resume_source_reads :: "'c \<Rightarrow> io \<Rightarrow> ('c \<times> io) option"

text \<open>One call through the table, and a sequence of them.\<close>

datatype chan_op =
    OnFrame u8 bytes
  | LinkConnect
  | LinkDisconnect
  | Tick instant
  | Event token bool bool
  | Pause
  | Resume
  | Close

fun chan_step :: "'c vtable \<Rightarrow> env \<Rightarrow> chan_op \<Rightarrow> 'c \<Rightarrow> io \<Rightarrow> ('c \<times> io) option" where
  "chan_step V E (OnFrame t p) = vt_on_frame V E t p"
| "chan_step V E LinkConnect = vt_on_link_connect V E"
| "chan_step V E LinkDisconnect = vt_on_link_disconnect V E"
| "chan_step V E (Tick n) = vt_tick V E n"
| "chan_step V E (Event t r w) = vt_handle_event V E t r w"
| "chan_step V E Pause = vt_pause_source_reads V"
| "chan_step V E Resume = vt_resume_source_reads V"
| "chan_step V E Close = vt_close V E"

fun chan_run :: "'c vtable \<Rightarrow> env \<Rightarrow> chan_op list \<Rightarrow> 'c \<Rightarrow> io \<Rightarrow> ('c \<times> io) option" where
  "chan_run V E [] ch io = Some (ch, io)"
| "chan_run V E (x # xs) ch io = do { (ch, io) \<leftarrow> chan_step V E x ch io; chan_run V E xs ch io }"

text \<open>What a call does to the view, whatever the channel.\<close>

fun view_step :: "chan_op \<Rightarrow> chan_view \<Rightarrow> chan_view" where
  "view_step LinkConnect v = v\<lparr>cv_linked := map_option (\<lambda>_. True) (cv_linked v)\<rparr>"
| "view_step LinkDisconnect v = v\<lparr>cv_linked := map_option (\<lambda>_. False) (cv_linked v)\<rparr>"
| "view_step Pause v = v\<lparr>cv_paused := True\<rparr>"
| "view_step Resume v = v\<lparr>cv_paused := False\<rparr>"
| "view_step _ v = v"

lemma view_step_id [simp]: "cv_id (view_step x v) = cv_id v"
  by (cases x) auto

lemma fold_view_step_id [simp]: "cv_id (fold view_step xs v) = cv_id v"
  by (induction xs arbitrary: v) auto

text \<open>Events carry a token that the channel registers; the daemon routes by token.\<close>

fun op_allowed :: "chan_view \<Rightarrow> chan_op \<Rightarrow> bool" where
  "op_allowed v (Event tk r w) \<longleftrightarrow> tk \<in> cv_tokens v"
| "op_allowed v _ \<longleftrightarrow> True"

lemma op_allowed_step [simp]: "op_allowed (view_step x v) y = op_allowed v y"
  by (cases x; cases y) auto

text \<open>The calls that have no queue argument in the source.\<close>

fun silent :: "chan_op \<Rightarrow> bool" where
  "silent LinkDisconnect = True"
| "silent Pause = True"
| "silent Resume = True"
| "silent Close = True"
| "silent _ = False"

lemma emits_quiet_txq: "emits (quiet_call c) io io' \<Longrightarrow> io_txq io' = io_txq io"
  using enqueued_quiet [of "quiet_call c"] by (auto simp: emits_def quiet_call_def)

locale channel =
  fixes V :: "'c vtable"
    and ok :: "'c \<Rightarrow> bool"
    and view :: "'c \<Rightarrow> chan_view"
  assumes id_view: "vt_channel_id V ch = cv_id (view ch)"
    and id_valid: "ok ch \<Longrightarrow> id_ok (cv_id (view ch))"
    and on_frame: "env_ok E \<Longrightarrow> ok ch \<Longrightarrow> txq_inv (io_txq io) \<Longrightarrow>
      handles (own E (view ch)) ok view (view ch) io (vt_on_frame V E t p ch io)"
    and on_link_connect: "env_ok E \<Longrightarrow> ok ch \<Longrightarrow> txq_inv (io_txq io) \<Longrightarrow>
      handles (own E (view ch)) ok view (view_step LinkConnect (view ch)) io (vt_on_link_connect V E ch io)"
    and on_link_disconnect: "ok ch \<Longrightarrow>
      handles (quiet (view ch)) ok view (view_step LinkDisconnect (view ch)) io (vt_on_link_disconnect V E ch io)"
    and tick: "env_ok E \<Longrightarrow> ok ch \<Longrightarrow> txq_inv (io_txq io) \<Longrightarrow>
      handles (own E (view ch)) ok view (view ch) io (vt_tick V E n ch io)"
    and handle_event: "env_ok E \<Longrightarrow> ok ch \<Longrightarrow> txq_inv (io_txq io) \<Longrightarrow> tk \<in> cv_tokens (view ch) \<Longrightarrow>
      handles (own E (view ch)) ok view (view ch) io (vt_handle_event V E tk r w ch io)"
    and close: "ok ch \<Longrightarrow> handles (quiet (view ch)) ok view (view ch) io (vt_close V E ch io)"
    and pause: "ok ch \<Longrightarrow>
      handles (quiet (view ch)) ok view (view_step Pause (view ch)) io (vt_pause_source_reads V ch io)"
    and resume: "ok ch \<Longrightarrow>
      handles (quiet (view ch)) ok view (view_step Resume (view ch)) io (vt_resume_source_reads V ch io)"
begin

lemma step:
  assumes "env_ok E" "ok ch" "txq_inv (io_txq io)" "op_allowed (view ch) x"
  shows "handles (own E (view ch)) ok view (view_step x (view ch)) io (chan_step V E x ch io)"
  using assms
  by (cases x)
     (auto intro: on_frame on_link_connect [simplified] tick handle_event quiet_own
        handles_mono [OF on_link_disconnect, simplified] handles_mono [OF close]
        handles_mono [OF pause, simplified] handles_mono [OF resume, simplified])

lemma silent_step:
  assumes "ok ch" "silent x" "chan_step V E x ch io = Some (ch', io')"
  shows "io_txq io' = io_txq io"
proof -
  have "emits (quiet (view ch)) io io'"
    using assms on_link_disconnect [OF assms(1), of io E] close [OF assms(1), of io E]
      pause [OF assms(1), of io] resume [OF assms(1), of io]
    by (cases x) auto
  then show ?thesis by (rule emits_quiet_txq)
qed

text \<open>Any sequence of calls runs without a panic, keeps the channel's invariant, and has the
  effect on the view that the sequence of calls has by itself.\<close>

lemma run:
  assumes "env_ok E" "ok ch" "txq_inv (io_txq io)" "list_all (op_allowed (view ch)) xs"
  shows "handles (own E (view ch)) ok view (fold view_step xs (view ch)) io (chan_run V E xs ch io)"
  using assms
proof (induction xs arbitrary: ch io)
  case (Cons x xs)
  have s: "handles (own E (view ch)) ok view (view_step x (view ch)) io (chan_step V E x ch io)"
    using Cons.prems by (intro step) auto
  have "handles (own E (view ch)) ok view (fold view_step xs (view_step x (view ch))) io
      (chan_step V E x ch io \<bind> (\<lambda>(ch', io'). chan_run V E xs ch' io'))"
  proof (rule handles_bind [OF s emits_refl])
    fix ch' io' assume a: "ok ch'" "view ch' = view_step x (view ch)" "emits (own E (view ch)) io io'"
    have "txq_inv (io_txq io')" using a(3) Cons.prems(3) by (rule emits_inv)
    then have "handles (own E (view ch')) ok view (fold view_step xs (view ch')) io' (chan_run V E xs ch' io')"
      using a Cons.prems by (intro Cons.IH) auto
    then show "handles (own E (view ch)) ok view (fold view_step xs (view_step x (view ch))) io
        (chan_run V E xs ch' io')"
      using a by (auto intro: handles_from)
  qed
  then show ?case by simp
qed simp

end



section \<open>Idle channels\<close>

text \<open>While the link is down a channel has nothing to say: closing the link makes it idle, and an
  idle channel stays idle and leaves the queue alone until the link is up again.\<close>

fun spontaneous :: "chan_op \<Rightarrow> bool" where
  "spontaneous (OnFrame t p) = False"
| "spontaneous LinkConnect = False"
| "spontaneous _ = True"

locale idle_channel = channel V ok view
  for V :: "'c vtable" and ok :: "'c \<Rightarrow> bool" and view :: "'c \<Rightarrow> chan_view" +
  fixes idle :: "'c \<Rightarrow> bool"
  assumes disconnect_idle: "ok ch \<Longrightarrow> chan_step V E LinkDisconnect ch io = Some (ch', io') \<Longrightarrow> idle ch'"
    and idle_step: "env_ok E \<Longrightarrow> ok ch \<Longrightarrow> idle ch \<Longrightarrow> txq_inv (io_txq io) \<Longrightarrow> spontaneous x \<Longrightarrow>
      op_allowed (view ch) x \<Longrightarrow> chan_step V E x ch io = Some (ch', io') \<Longrightarrow>
      idle ch' \<and> io_txq io' = io_txq io"
begin

lemma idle_run:
  assumes "env_ok E" "ok ch" "idle ch" "txq_inv (io_txq io)" "list_all spontaneous xs"
    "list_all (op_allowed (view ch)) xs" "chan_run V E xs ch io = Some (ch', io')"
  shows "idle ch' \<and> io_txq io' = io_txq io"
  using assms
proof (induction xs arbitrary: ch io)
  case (Cons x xs)
  obtain ch1 io1 where s: "chan_step V E x ch io = Some (ch1, io1)" "chan_run V E xs ch1 io1 = Some (ch', io')"
    using Cons.prems(7) by (auto split: bind_splits)
  have x: "op_allowed (view ch) x" "spontaneous x" "list_all spontaneous xs"
    using Cons.prems(5,6) by auto
  have "handles (own E (view ch)) ok view (view_step x (view ch)) io (chan_step V E x ch io)"
    by (rule step [OF Cons.prems(1,2,4) x(1)])
  with s(1) have v: "ok ch1" "view ch1 = view_step x (view ch)" by auto
  have i: "idle ch1 \<and> io_txq io1 = io_txq io"
    using idle_step [OF Cons.prems(1-4) x(2,1) s(1)] .
  have "idle ch' \<and> io_txq io' = io_txq io1"
    by (rule Cons.IH) (use Cons.prems v i x s(2) in auto)
  with i show ?case by simp
qed simp

end

end
