(* ===== verification/Mcu.thy ===== *)
theory Mcu
  imports Channel_Spec
begin

text \<open>
  The exporter-side MCU channel (\<^verbatim>\<open>channel.rs\<close>, \<open>McuChannel\<close>): a UART whose bytes become
  \<open>F_DATA\<close> frames, with the state machine that tells the host when the firmware is
  running (\<open>F_READY\<close>) and when it has reset (\<open>F_FLUSH\<close>).
\<close>

datatype mcu_state = Init | Active | Resetting

record mcu_channel =
  mcu_ch_id :: u8
  mcu_device :: string
  mcu_baud :: u32
  mcu_state :: mcu_state
  mcu_fd :: "fd option"
  mcu_fd_in_sel :: bool
  mcu_txbuf :: bytes
  mcu_last_rx :: "instant option"
  mcu_reopen_at :: "instant option"
  mcu_bp_paused :: bool
  mcu_link_up :: bool

definition RESET_SILENCE :: nat where "RESET_SILENCE = from_secs 5"
definition REOPEN_DELAY :: nat where "REOPEN_DELAY = from_secs 2"


section \<open>The UART\<close>

definition mcu_update_interest :: "mcu_channel \<Rightarrow> io \<Rightarrow> (mcu_channel \<times> io) option" where
  "mcu_update_interest ch io =
     (case mcu_fd ch of
        None \<Rightarrow> Some (ch, io)
      | Some f \<Rightarrow> do {
          (in_sel, io) \<leftarrow> sync_interest (mcu_ch_id ch) f
             (wanted_interest (mcu_bp_paused ch) (mcu_txbuf ch)) (mcu_fd_in_sel ch) io;
          Some (ch\<lparr>mcu_fd_in_sel := in_sel\<rparr>, io)
        })"

definition mcu_open_uart :: "env \<Rightarrow> mcu_channel \<Rightarrow> io \<Rightarrow> (mcu_channel \<times> io) option" where
  "mcu_open_uart E ch io =
     (case open_serial_fd E (mcu_device ch) (mcu_baud ch) io of
        (Inr f, io) \<Rightarrow> mcu_update_interest (ch\<lparr>mcu_fd := Some f, mcu_fd_in_sel := False\<rparr>) io
      | (Inl e, io) \<Rightarrow>
          let (t, io) = now E io
          in Some (ch\<lparr>mcu_reopen_at := Some (t + REOPEN_DELAY)\<rparr>, io))"

definition mcu_new :: "env \<Rightarrow> u8 \<Rightarrow> string \<Rightarrow> u32 \<Rightarrow> io \<Rightarrow> (mcu_channel \<times> io) option" where
  "mcu_new E ch_id device baud io =
     mcu_open_uart E
       \<lparr>mcu_ch_id = ch_id, mcu_device = device, mcu_baud = baud, mcu_state = Init, mcu_fd = None,
        mcu_fd_in_sel = False, mcu_txbuf = [], mcu_last_rx = None, mcu_reopen_at = None,
        mcu_bp_paused = False, mcu_link_up = False\<rparr> io"

definition mcu_close_uart :: "mcu_channel \<Rightarrow> io \<Rightarrow> mcu_channel \<times> io" where
  "mcu_close_uart ch io =
     (case mcu_fd ch of
        Some f \<Rightarrow>
          let io = (if mcu_fd_in_sel ch then reg_del f io else io)
          in (ch\<lparr>mcu_fd := None, mcu_fd_in_sel := False\<rparr>, close_raw f io)
      | None \<Rightarrow> (ch\<lparr>mcu_fd_in_sel := False\<rparr>, io))"

definition mcu_transition ::
  "env \<Rightarrow> mcu_state \<Rightarrow> mcu_channel \<Rightarrow> io \<Rightarrow> (mcu_channel \<times> io) option" where
  "mcu_transition E new_state ch io =
     (if new_state = mcu_state ch then Some (ch, io)
      else let ch = ch\<lparr>mcu_state := new_state\<rparr> in
        (case new_state of
           Resetting \<Rightarrow>
             let ch = ch\<lparr>mcu_last_rx := None, mcu_txbuf := []\<rparr> in
             if mcu_link_up ch
             then do { io \<leftarrow> txq_enqueue (build_frame (env_crc E) F_FLUSH (mcu_ch_id ch) []) io; Some (ch, io) }
             else Some (ch, io)
         | Active \<Rightarrow>
             if mcu_link_up ch
             then do { io \<leftarrow> txq_enqueue (build_frame (env_crc E) F_READY (mcu_ch_id ch) []) io; Some (ch, io) }
             else Some (ch, io)
         | Init \<Rightarrow> Some (ch, io)))"

definition mcu_uart_read :: "env \<Rightarrow> mcu_channel \<Rightarrow> io \<Rightarrow> (mcu_channel \<times> io) option" where
  "mcu_uart_read E ch io =
     (case mcu_fd ch of
        None \<Rightarrow> Some (ch, io)
      | Some f \<Rightarrow>
          (case read_nonblock E f 4096 io of
             (Inr None, io) \<Rightarrow> Some (ch, io)
           | (Inr (Some []), io) \<Rightarrow> Some (ch, io)
           | (Inr (Some data), io) \<Rightarrow>
               let (t, io) = now E io;
                   ch = ch\<lparr>mcu_last_rx := Some t\<rparr>
               in if mcu_state ch = Active
                  then (if mcu_link_up ch
                        then do {
                          io \<leftarrow> txq_enqueue (build_frame (env_crc E) F_DATA (mcu_ch_id ch) data) io;
                          Some (ch, io)
                        }
                        else Some (ch, io))
                  else (case position KLIPPER_SYNC data of
                          Some i \<Rightarrow> do {
                            (ch, io) \<leftarrow> mcu_transition E Active ch io;
                            (if mcu_link_up ch
                             then do {
                               rest \<leftarrow> slice data i (length data);
                               io \<leftarrow> txq_enqueue (build_frame (env_crc E) F_DATA (mcu_ch_id ch) rest) io;
                               Some (ch, io)
                             }
                             else Some (ch, io))
                          }
                        | None \<Rightarrow> Some (ch, io))
           | (Inl e, io) \<Rightarrow> do {
               let (ch, io) = mcu_close_uart ch io;
               (ch, io) \<leftarrow> mcu_transition E Resetting ch io;
               let (t, io) = now E io;
               Some (ch\<lparr>mcu_reopen_at := Some (t + from_secs 1)\<rparr>, io)
             }))"

definition mcu_uart_drain :: "env \<Rightarrow> mcu_channel \<Rightarrow> io \<Rightarrow> (mcu_channel \<times> io) option" where
  "mcu_uart_drain E ch io =
     (case mcu_fd ch of
        None \<Rightarrow> Some (ch, io)
      | Some f \<Rightarrow>
          if mcu_txbuf ch = [] then Some (ch, io)
          else (case write_nonblock E f (mcu_txbuf ch) io of
              (Inr n, io) \<Rightarrow>
                if n = 0 then mcu_update_interest ch io
                else do {
                  rest \<leftarrow> drain_front n (mcu_txbuf ch);
                  mcu_update_interest (ch\<lparr>mcu_txbuf := rest\<rparr>) io
                }
            | (Inl e, io) \<Rightarrow> mcu_update_interest (ch\<lparr>mcu_txbuf := []\<rparr>) io))"


section \<open>The channel interface\<close>

definition mcu_on_frame ::
  "env \<Rightarrow> u8 \<Rightarrow> bytes \<Rightarrow> mcu_channel \<Rightarrow> io \<Rightarrow> (mcu_channel \<times> io) option" where
  "mcu_on_frame E ftype payload ch io =
     (if ftype = F_DATA
      then if mcu_fd ch = None \<or> mcu_state ch \<noteq> Active then Some (ch, io)
           else mcu_uart_drain E (ch\<lparr>mcu_txbuf := mcu_txbuf ch @ payload\<rparr>) io
      else Some (ch, io))"

definition mcu_on_link_connect :: "env \<Rightarrow> mcu_channel \<Rightarrow> io \<Rightarrow> (mcu_channel \<times> io) option" where
  "mcu_on_link_connect E ch io = do {
     let ch = ch\<lparr>mcu_link_up := True\<rparr>;
     io \<leftarrow> txq_enqueue (build_frame (env_crc E)
             (if mcu_state ch = Active then F_READY else F_FLUSH) (mcu_ch_id ch) []) io;
     Some (ch, io)
   }"

definition mcu_on_link_disconnect :: "mcu_channel \<Rightarrow> io \<Rightarrow> (mcu_channel \<times> io) option" where
  "mcu_on_link_disconnect ch io = mcu_update_interest (ch\<lparr>mcu_link_up := False, mcu_txbuf := []\<rparr>) io"

definition mcu_tick :: "env \<Rightarrow> instant \<Rightarrow> mcu_channel \<Rightarrow> io \<Rightarrow> (mcu_channel \<times> io) option" where
  "mcu_tick E tnow ch io =
     (if mcu_fd ch = None
      then (case mcu_reopen_at ch of
              Some t \<Rightarrow> if tnow \<ge> t then mcu_open_uart E (ch\<lparr>mcu_reopen_at := None\<rparr>) io
                        else Some (ch, io)
            | None \<Rightarrow> Some (ch, io))
      else if mcu_state ch = Active
      then (case mcu_last_rx ch of
              Some lr \<Rightarrow> if tnow - lr > RESET_SILENCE then mcu_transition E Resetting ch io
                           else Some (ch, io)
            | None \<Rightarrow> Some (ch, io))
      else Some (ch, io))"

definition mcu_next_deadline :: "mcu_channel \<Rightarrow> instant option" where
  "mcu_next_deadline ch =
     (if mcu_fd ch = None then mcu_reopen_at ch
      else if mcu_state ch = Active then map_option (\<lambda>t. t + RESET_SILENCE) (mcu_last_rx ch)
      else None)"

definition mcu_handle_event ::
  "env \<Rightarrow> token \<Rightarrow> bool \<Rightarrow> bool \<Rightarrow> mcu_channel \<Rightarrow> io \<Rightarrow> (mcu_channel \<times> io) option" where
  "mcu_handle_event E token readable writable ch io = do {
     (ch, io) \<leftarrow> (if readable then mcu_uart_read E ch io else Some (ch, io));
     (if writable then mcu_uart_drain E ch io else Some (ch, io))
   }"

definition mcu_close :: "mcu_channel \<Rightarrow> io \<Rightarrow> (mcu_channel \<times> io) option" where
  "mcu_close ch io = Some (mcu_close_uart ch io)"

definition mcu_pause_source_reads :: "mcu_channel \<Rightarrow> io \<Rightarrow> (mcu_channel \<times> io) option" where
  "mcu_pause_source_reads ch io =
     (if \<not> mcu_bp_paused ch then mcu_update_interest (ch\<lparr>mcu_bp_paused := True\<rparr>) io
      else Some (ch, io))"

definition mcu_resume_source_reads :: "mcu_channel \<Rightarrow> io \<Rightarrow> (mcu_channel \<times> io) option" where
  "mcu_resume_source_reads ch io =
     (if mcu_bp_paused ch then mcu_update_interest (ch\<lparr>mcu_bp_paused := False\<rparr>) io
      else Some (ch, io))"

definition mcu_vtable :: "mcu_channel vtable" where
  "mcu_vtable = \<lparr>
     vt_channel_id = mcu_ch_id, vt_on_frame = mcu_on_frame, vt_on_link_connect = mcu_on_link_connect,
     vt_on_link_disconnect = (\<lambda>E. mcu_on_link_disconnect), vt_tick = mcu_tick,
     vt_next_deadline = mcu_next_deadline, vt_handle_event = mcu_handle_event, vt_close = (\<lambda>E. mcu_close),
     vt_pause_source_reads = mcu_pause_source_reads,
     vt_resume_source_reads = mcu_resume_source_reads\<rparr>"


section \<open>The invariant of the channel\<close>

text \<open>The UART of a channel that is not paused is registered; an unopened UART is not; bytes wait
  for the UART only while the firmware is active.\<close>

definition mcu_base :: "mcu_channel \<Rightarrow> bool" where
  "mcu_base ch \<longleftrightarrow> id_ok (mcu_ch_id ch) \<and> (mcu_state ch \<noteq> Active \<longrightarrow> mcu_txbuf ch = [])
     \<and> (mcu_fd ch = None \<longrightarrow> \<not> mcu_fd_in_sel ch)"

definition mcu_ok :: "mcu_channel \<Rightarrow> bool" where
  "mcu_ok ch \<longleftrightarrow> mcu_base ch \<and> (mcu_fd ch \<noteq> None \<and> \<not> mcu_bp_paused ch \<longrightarrow> mcu_fd_in_sel ch)"

definition mcu_view :: "mcu_channel \<Rightarrow> chan_view" where
  "mcu_view ch = \<lparr>cv_id = mcu_ch_id ch, cv_paused = mcu_bp_paused ch,
     cv_linked = Some (mcu_link_up ch), cv_tokens = {unat (mcu_ch_id ch) + 1}\<rparr>"

lemmas mcu_inv_defs = mcu_ok_def mcu_base_def mcu_view_def

lemma mcu_update_interest_ok:
  assumes "mcu_base ch"
  shows "handles (quiet (mcu_view ch)) mcu_ok mcu_view (mcu_view ch) io (mcu_update_interest ch io)"
proof (cases "mcu_fd ch")
  case None
  then show ?thesis using assms by (simp add: mcu_update_interest_def mcu_inv_defs)
next
  case (Some f)
  let ?i = "wanted_interest (mcu_bp_paused ch) (mcu_txbuf ch)"
  obtain io' where "sync_interest (mcu_ch_id ch) f ?i (mcu_fd_in_sel ch) io = Some (?i \<noteq> None, io')"
    "emits (quiet_call (mcu_ch_id ch)) io io'"
    using sync_interest_ok [of "mcu_ch_id ch"] assms unfolding mcu_base_def by blast
  then show ?thesis using assms Some
    by (auto simp: mcu_update_interest_def mcu_inv_defs wanted_interest_def Let_def)
qed

lemma mcu_update_interest_own:
  "mcu_base ch \<Longrightarrow> v = mcu_view ch \<Longrightarrow> emits (own E v) io0 io \<Longrightarrow>
   handles (own E v) mcu_ok mcu_view v io0 (mcu_update_interest ch io)"
  using handles_from [OF handles_mono [OF mcu_update_interest_ok]] quiet_own by blast

lemma mcu_open_uart_ok:
  assumes "mcu_base ch" "mcu_fd ch = None"
  shows "handles (own E (mcu_view ch)) mcu_ok mcu_view (mcu_view ch) io (mcu_open_uart E ch io)"
proof -
  obtain r io1 where r: "open_serial_fd E (mcu_device ch) (mcu_baud ch) io = (r, io1)" by fastforce
  have e: "emits (own E (mcu_view ch)) io io1" by (rule emits_open_serial [OF r]) simp
  show ?thesis
  proof (cases r)
    case (Inl e)
    then show ?thesis using assms r \<open>emits _ io io1\<close>
      by (simp add: mcu_open_uart_def mcu_inv_defs io_defs)
  next
    case (Inr f)
    have "handles (own E (mcu_view ch)) mcu_ok mcu_view (mcu_view ch) io
        (mcu_update_interest (ch\<lparr>mcu_fd := Some f, mcu_fd_in_sel := False\<rparr>) io1)"
      using assms e by (intro mcu_update_interest_own) (auto simp: mcu_inv_defs)
    then show ?thesis using Inr r by (simp add: mcu_open_uart_def)
  qed
qed

lemma mcu_transition_ok:
  assumes "mcu_ok ch" "txq_inv (io_txq io)" "s \<noteq> Init"
  shows "handles (own E (mcu_view ch)) mcu_ok mcu_view (mcu_view ch) io (mcu_transition E s ch io)"
  using assms
  by (cases s) (auto simp: mcu_transition_def mcu_inv_defs Let_def intro!: emits_send own_frameI)

lemma mcu_close_uart_ok:
  assumes "mcu_ok ch" "mcu_close_uart ch io = (ch', io')"
  shows "mcu_ok ch' \<and> mcu_view ch' = mcu_view ch \<and> emits (quiet (mcu_view ch)) io io'"
  using assms
  by (auto simp: mcu_close_uart_def mcu_inv_defs Let_def io_defs quiet_call_def
      intro!: emits_call split: option.splits)

lemma mcu_uart_drain_ok:
  assumes "env_ok E" "mcu_ok ch"
  shows "handles (own E (mcu_view ch)) mcu_ok mcu_view (mcu_view ch) io (mcu_uart_drain E ch io)"
proof (cases "mcu_fd ch = None \<or> mcu_txbuf ch = []")
  case True
  then show ?thesis using assms by (auto simp: mcu_uart_drain_def split: option.splits)
next
  case False
  then obtain f where f: "mcu_fd ch = Some f" "mcu_txbuf ch \<noteq> []" by auto
  have b: "mcu_base ch" using assms(2) by (simp add: mcu_ok_def)
  have upd: "handles (own E (mcu_view ch)) mcu_ok mcu_view (mcu_view ch) io
      (mcu_update_interest (ch\<lparr>mcu_txbuf := bs\<rparr>) io1)"
    if "emits (own E (mcu_view ch)) io io1" "mcu_state ch \<noteq> Active \<longrightarrow> bs = []" for bs io1
    using b that by (intro mcu_update_interest_own) (auto simp: mcu_inv_defs)
  have st: "mcu_state ch = Active" using f b by (auto simp: mcu_base_def)
  show ?thesis
  proof (cases "env_write E (io_n io) f (mcu_txbuf ch)")
    case (WriteErr e)
    then show ?thesis using f st upd [of _ "[]"] upd [of _ "mcu_txbuf ch"]
      by (auto simp: mcu_uart_drain_def write_nonblock_def)
  next
    case (Written n)
    have n: "n \<le> length (mcu_txbuf ch)" using env_ok_write [OF assms(1) Written] .
    let ?io = "call (Wrote f (take n (mcu_txbuf ch))) (next_call io)"
    have "emits (own E (mcu_view ch)) io ?io" by (intro emits_call) auto
    then show ?thesis using f st n Written upd [of ?io "drop n (mcu_txbuf ch)"] upd [of ?io "mcu_txbuf ch"]
      by (auto simp: mcu_uart_drain_def write_nonblock_def panic_free)
  qed
qed

text \<open>The two outcomes of a non-empty read.\<close>

lemma mcu_read_data_ok:
  assumes "mcu_ok ch" "txq_inv (io_txq io1)" "emits (own E (mcu_view ch)) io io1" "length data \<le> MAX_PAYLOAD"
  shows "handles (own E (mcu_view ch)) mcu_ok mcu_view (mcu_view ch) io
     (if mcu_link_up ch
      then do { io \<leftarrow> txq_enqueue (build_frame (env_crc E) F_DATA (mcu_ch_id ch) data) io1; Some (ch, io) }
      else Some (ch, io1))"
  using assms by (auto simp: mcu_view_def intro!: emits_send own_frameI)

lemma mcu_uart_read_ok:
  assumes E: "env_ok E" and ok: "mcu_ok ch" and q: "txq_inv (io_txq io)"
  shows "handles (own E (mcu_view ch)) mcu_ok mcu_view (mcu_view ch) io (mcu_uart_read E ch io)"
proof (cases "mcu_fd ch")
  case None
  then show ?thesis using ok by (simp add: mcu_uart_read_def)
next
  case (Some f)
  obtain r where r: "read_nonblock E f 4096 io = (r, next_call io)"
    and l: "\<forall>data. r = Inr (Some data) \<longrightarrow> length data \<le> 4096"
    using read_nonblock_next [OF E] by blast
  have len: "length data \<le> MAX_PAYLOAD" if "r = Inr (Some data)" for data
    using l that by (auto simp: mux_consts)
  consider "r = Inr None \<or> r = Inr (Some [])" | b bs where "r = Inr (Some (b # bs))" | e where "r = Inl e"
    by (metis list.exhaust option.exhaust sum.exhaust)
  then show ?thesis
  proof cases
    case 1
    then show ?thesis using Some r ok by (auto simp: mcu_uart_read_def)
  next
    case (2 b bs)
    let ?d = "b # bs" and ?io = "next_call (next_call io)"
    let ?ch = "ch\<lparr>mcu_last_rx := Some (env_now E (Suc (io_n io)))\<rparr>"
    have ok': "mcu_ok ?ch" and v: "mcu_view ?ch = mcu_view ch" using ok by (simp_all add: mcu_inv_defs)
    show ?thesis
    proof (cases "mcu_state ch = Active")
      case True
      then show ?thesis
        using Some r 2 q mcu_read_data_ok [OF ok', of ?io E io ?d] len
        by (auto simp: mcu_uart_read_def now_def v Let_def split: if_splits)
    next
      case False
      show ?thesis
      proof (cases "position KLIPPER_SYNC ?d")
        case None
        then show ?thesis using Some r 2 False ok' v
          by (simp add: mcu_uart_read_def now_def Let_def del: position.simps)
      next
        case (Some i)
        have i: "slice ?d i (length ?d) = Some (drop i ?d)"
          using Some unfolding position_Some_iff by (simp add: slice_def)
        have "handles (own E (mcu_view ch)) mcu_ok mcu_view (mcu_view ch) io
          (mcu_transition E Active ?ch ?io \<bind> (\<lambda>(ch, io). if mcu_link_up ch
             then do { io \<leftarrow> txq_enqueue (build_frame (env_crc E) F_DATA (mcu_ch_id ch) (drop i ?d)) io;
                       Some (ch, io) }
             else Some (ch, io)))"
        proof (rule handles_bind)
          show "handles (own E (mcu_view ch)) mcu_ok mcu_view (mcu_view ch) ?io (mcu_transition E Active ?ch ?io)"
            using mcu_transition_ok [OF ok', of ?io Active E] q by (simp add: v)
          show "emits (own E (mcu_view ch)) io ?io" by simp
          fix ch' io' assume a: "mcu_ok ch'" "mcu_view ch' = mcu_view ch" "emits (own E (mcu_view ch)) io io'"
          show "handles (own E (mcu_view ch)) mcu_ok mcu_view (mcu_view ch) io
            (if mcu_link_up ch'
             then do { io \<leftarrow> txq_enqueue (build_frame (env_crc E) F_DATA (mcu_ch_id ch') (drop i ?d)) io';
                       Some (ch', io) }
             else Some (ch', io'))"
            using mcu_read_data_ok [OF a(1), of io' E io "drop i ?d"] a q len [OF 2] emits_inv [OF a(3) q]
            by auto
        qed
        then show ?thesis using \<open>mcu_fd ch = Some f\<close> r 2 False Some i
          by (simp add: mcu_uart_read_def now_def Let_def del: position.simps cong: if_cong)
      qed
    qed
  next
    case (3 e)
    obtain ch1 io1 where c: "mcu_close_uart ch (next_call io) = (ch1, io1)" by fastforce
    note c1 = mcu_close_uart_ok [OF ok c]
    have e1: "emits (own E (mcu_view ch)) io io1"
      using c1 by (meson emits_mono emits_next emits_refl emits_trans quiet_own)
    have "handles (own E (mcu_view ch)) mcu_ok mcu_view (mcu_view ch) io
      (mcu_transition E Resetting ch1 io1 \<bind> (\<lambda>(ch, io). let (t, io) = now E io
         in Some (ch\<lparr>mcu_reopen_at := Some (t + from_secs 1)\<rparr>, io)))"
    proof (rule handles_bind [OF _ e1])
      show "handles (own E (mcu_view ch)) mcu_ok mcu_view (mcu_view ch) io1 (mcu_transition E Resetting ch1 io1)"
        using mcu_transition_ok [of ch1 io1 Resetting E] c1 emits_inv [OF e1 q] by simp
    qed (auto simp: now_def mcu_inv_defs)
    then show ?thesis using Some r 3 c by (simp add: mcu_uart_read_def)
  qed
qed

interpretation mcu: channel mcu_vtable mcu_ok mcu_view
proof unfold_locales
  fix E ch io t p n tk r w
  show "vt_channel_id mcu_vtable ch = cv_id (mcu_view ch)" by (simp add: mcu_vtable_def mcu_view_def)
  show "mcu_ok ch \<Longrightarrow> id_ok (cv_id (mcu_view ch))" by (simp add: mcu_inv_defs)
  assume ok: "mcu_ok ch"
  then have b: "mcu_base ch" by (simp add: mcu_ok_def)
  show "handles (quiet (mcu_view ch)) mcu_ok mcu_view (mcu_view ch) io (vt_close mcu_vtable E ch io)"
    using mcu_close_uart_ok [OF ok] by (cases "mcu_close_uart ch io") (simp add: mcu_vtable_def mcu_close_def)
  have upd: "handles (quiet (mcu_view ch)) mcu_ok mcu_view (mcu_view ch') io (mcu_update_interest ch' io)"
    if "mcu_base ch'" "mcu_ch_id ch' = mcu_ch_id ch" for ch'
    using mcu_update_interest_ok [OF that(1)] that(2) by (simp add: mcu_view_def)
  show "handles (quiet (mcu_view ch)) mcu_ok mcu_view (view_step LinkDisconnect (mcu_view ch)) io
      (vt_on_link_disconnect mcu_vtable E ch io)"
    using upd [of "ch\<lparr>mcu_link_up := False, mcu_txbuf := []\<rparr>"] b
    by (simp add: mcu_vtable_def mcu_on_link_disconnect_def mcu_base_def mcu_view_def)
  show "handles (quiet (mcu_view ch)) mcu_ok mcu_view (view_step Pause (mcu_view ch)) io
      (vt_pause_source_reads mcu_vtable ch io)"
    using upd [of "ch\<lparr>mcu_bp_paused := True\<rparr>"] ok
    by (auto simp: mcu_vtable_def mcu_pause_source_reads_def mcu_inv_defs)
  show "handles (quiet (mcu_view ch)) mcu_ok mcu_view (view_step Resume (mcu_view ch)) io
      (vt_resume_source_reads mcu_vtable ch io)"
    using upd [of "ch\<lparr>mcu_bp_paused := False\<rparr>"] ok
    by (auto simp: mcu_vtable_def mcu_resume_source_reads_def mcu_inv_defs)
  assume E: "env_ok E" and q: "txq_inv (io_txq io)"
  show "handles (own E (mcu_view ch)) mcu_ok mcu_view (view_step LinkConnect (mcu_view ch)) io
      (vt_on_link_connect mcu_vtable E ch io)"
    using ok q by (auto simp: mcu_vtable_def mcu_on_link_connect_def mcu_inv_defs intro!: emits_send own_frameI)
  show "handles (own E (mcu_view ch)) mcu_ok mcu_view (mcu_view ch) io (vt_on_frame mcu_vtable E t p ch io)"
    using ok mcu_uart_drain_ok [OF E, of "ch\<lparr>mcu_txbuf := mcu_txbuf ch @ p\<rparr>" io]
    by (auto simp: mcu_vtable_def mcu_on_frame_def mcu_inv_defs)
  show "handles (own E (mcu_view ch)) mcu_ok mcu_view (mcu_view ch) io (vt_tick mcu_vtable E n ch io)"
    using ok b q mcu_open_uart_ok [of "ch\<lparr>mcu_reopen_at := None\<rparr>" E io] mcu_transition_ok [OF ok q, of Resetting E]
    by (auto simp: mcu_vtable_def mcu_tick_def mcu_base_def mcu_view_def split: option.splits)
  have "handles (own E (mcu_view ch)) mcu_ok mcu_view (mcu_view ch) io
      ((if r then mcu_uart_read E ch io else Some (ch, io)) \<bind>
        (\<lambda>(ch, io). if w then mcu_uart_drain E ch io else Some (ch, io)))"
  proof (rule handles_bind [OF _ emits_refl])
    show "handles (own E (mcu_view ch)) mcu_ok mcu_view (mcu_view ch) io
        (if r then mcu_uart_read E ch io else Some (ch, io))"
      using mcu_uart_read_ok [OF E ok q] ok by simp
    fix ch' io' assume a: "mcu_ok ch'" "mcu_view ch' = mcu_view ch" "emits (own E (mcu_view ch)) io io'"
    show "handles (own E (mcu_view ch)) mcu_ok mcu_view (mcu_view ch) io
        (if w then mcu_uart_drain E ch' io' else Some (ch', io'))"
      using handles_from [OF mcu_uart_drain_ok [OF E a(1)]] a by simp
  qed
  then show "handles (own E (mcu_view ch)) mcu_ok mcu_view (mcu_view ch) io
      (vt_handle_event mcu_vtable E tk r w ch io)"
    by (simp add: mcu_vtable_def mcu_handle_event_def)
qed



section \<open>Idle while the link is down\<close>

definition mcu_idle :: "mcu_channel \<Rightarrow> bool" where
  "mcu_idle ch \<longleftrightarrow> \<not> mcu_link_up ch"

lemma mcu_update_interest_txq:
  "mcu_update_interest ch io = Some (ch', io') \<Longrightarrow> io_txq io' = io_txq io \<and> mcu_link_up ch' = mcu_link_up ch"
  by (auto simp: mcu_update_interest_def dest: sync_interest_txq split: option.splits bind_splits)

lemma mcu_transition_txq:
  "mcu_transition E s ch io = Some (ch', io') \<Longrightarrow> mcu_idle ch \<Longrightarrow> io' = io \<and> mcu_idle ch'"
  by (cases s) (auto simp: mcu_transition_def mcu_idle_def Let_def split: if_splits)

lemma mcu_open_uart_txq:
  "mcu_open_uart E ch io = Some (ch', io') \<Longrightarrow> mcu_idle ch \<Longrightarrow> io_txq io' = io_txq io \<and> mcu_idle ch'"
  by (auto simp: mcu_open_uart_def mcu_idle_def io_defs dest!: mcu_update_interest_txq open_serial_txq
      split: prod.splits sum.splits)

lemma mcu_close_uart_txq:
  "mcu_close_uart ch io = (ch', io') \<Longrightarrow> mcu_idle ch \<Longrightarrow> io_txq io' = io_txq io \<and> mcu_idle ch'"
  by (auto simp: mcu_close_uart_def mcu_idle_def io_defs Let_def split: option.splits)

lemma mcu_uart_drain_txq:
  "mcu_uart_drain E ch io = Some (ch', io') \<Longrightarrow> mcu_idle ch \<Longrightarrow> io_txq io' = io_txq io \<and> mcu_idle ch'"
  by (auto simp: mcu_uart_drain_def write_nonblock_def mcu_idle_def dest!: mcu_update_interest_txq
      split: option.splits if_splits write_result.splits bind_splits)

lemma mcu_uart_read_txq:
  assumes "mcu_uart_read E ch io = Some (ch', io')" "mcu_idle ch"
  shows "io_txq io' = io_txq io \<and> mcu_idle ch'"
  using assms
  by (auto simp: mcu_uart_read_def read_nonblock_def mcu_idle_def io_defs Let_def
      split: option.splits if_splits read_result.splits list.splits bind_splits prod.splits
      dest!: mcu_transition_txq [unfolded mcu_idle_def] mcu_close_uart_txq [unfolded mcu_idle_def])

interpretation mcu_idling: idle_channel mcu_vtable mcu_ok mcu_view mcu_idle
proof unfold_locales
  fix E ch io ch' io' and x :: chan_op
  show "chan_step mcu_vtable E LinkDisconnect ch io = Some (ch', io') \<Longrightarrow> mcu_idle ch'"
    by (auto simp: mcu_vtable_def mcu_on_link_disconnect_def mcu_idle_def dest!: mcu_update_interest_txq)
  assume i: "mcu_idle ch" and x: "spontaneous x" and s: "chan_step mcu_vtable E x ch io = Some (ch', io')"
  have upd: "mcu_idle ch' \<and> io_txq io' = io_txq io"
    if "mcu_update_interest c io = Some (ch', io')" "\<not> mcu_link_up c" for c
    using mcu_update_interest_txq [OF that(1)] that(2) by (simp add: mcu_idle_def)
  show "mcu_idle ch' \<and> io_txq io' = io_txq io"
  proof (cases x)
    case (Tick n)
    then show ?thesis using s i
      by (auto simp: mcu_vtable_def mcu_tick_def mcu_idle_def split: option.splits if_splits
          dest!: mcu_open_uart_txq [unfolded mcu_idle_def] mcu_transition_txq [unfolded mcu_idle_def])
  next
    case (Event tk r w)
    then obtain ch1 io1 where
      "(if r then mcu_uart_read E ch io else Some (ch, io)) = Some (ch1, io1)"
      "(if w then mcu_uart_drain E ch1 io1 else Some (ch1, io1)) = Some (ch', io')"
      using s by (auto simp: mcu_vtable_def mcu_handle_event_def split: bind_splits)
    then show ?thesis using i mcu_uart_read_txq [of E ch io ch1 io1] mcu_uart_drain_txq [of E ch1 io1 ch' io']
      by (auto split: if_splits)
  qed (use s i x upd in \<open>auto simp: mcu_vtable_def mcu_on_link_disconnect_def mcu_pause_source_reads_def
        mcu_resume_source_reads_def mcu_close_def mcu_idle_def split: if_splits
        dest!: mcu_close_uart_txq [unfolded mcu_idle_def]\<close>)
qed

end
