(* ===== verification/Monitor.thy ===== *)
theory Monitor
  imports Channel_Spec
begin

text \<open>
  Monitors over the trace of a channel.  A monitor reads the calls one by one and either moves to
  a new state or reports a violation.  A channel follows a monitor when, from any monitor state
  that agrees with the channel, the calls of a handler are accepted and lead to a monitor state
  that agrees with the channel again.  A channel whose every handler does so does so in every
  run.
\<close>

fun mon_run :: "('m \<Rightarrow> call \<Rightarrow> 'm option) \<Rightarrow> 'm \<Rightarrow> call list \<Rightarrow> 'm option" where
  "mon_run mon m [] = Some m"
| "mon_run mon m (c # cs) = do { m \<leftarrow> mon m c; mon_run mon m cs }"

lemma mon_run_append: "mon_run mon m (cs @ ds) = do { m \<leftarrow> mon_run mon m cs; mon_run mon m ds }"
  by (induction cs arbitrary: m) (auto split: bind_split)

lemma mon_run_ignored: "(\<And>m c. P c \<Longrightarrow> mon m c = Some m) \<Longrightarrow> list_all P cs \<Longrightarrow> mon_run mon m cs = Some m"
  by (induction cs) auto

definition follows ::
  "('m \<Rightarrow> call \<Rightarrow> 'm option) \<Rightarrow> ('c \<Rightarrow> 'm \<Rightarrow> bool) \<Rightarrow> 'c \<Rightarrow> io \<Rightarrow> 'c \<Rightarrow> io \<Rightarrow> bool" where
  "follows mon agree ch io ch' io' \<longleftrightarrow> (\<exists>cs. io_log io' = io_log io @ cs
     \<and> (\<forall>m. agree ch m \<longrightarrow> (\<exists>m'. mon_run mon m cs = Some m' \<and> agree ch' m')))"

lemma follows_refl [simp]: "follows mon agree ch io ch io"
  by (auto simp: follows_def)

lemma follows_same: "(\<And>m. agree ch m \<Longrightarrow> agree ch' m) \<Longrightarrow> follows mon agree ch io ch' io"
  by (auto simp: follows_def)

lemma follows_next [simp]:
  "follows mon agree ch (next_call io) ch' io' = follows mon agree ch io ch' io'"
  "follows mon agree ch io ch' (next_call io') = follows mon agree ch io ch' io'"
  by (simp_all add: follows_def)

lemma follows_trans:
  assumes "follows mon agree ch io ch1 io1" "follows mon agree ch1 io1 ch2 io2"
  shows "follows mon agree ch io ch2 io2"
proof -
  obtain cs ds where l: "io_log io1 = io_log io @ cs" "io_log io2 = io_log io1 @ ds"
    and c: "\<forall>m. agree ch m \<longrightarrow> (\<exists>m'. mon_run mon m cs = Some m' \<and> agree ch1 m')"
    and d: "\<forall>m. agree ch1 m \<longrightarrow> (\<exists>m'. mon_run mon m ds = Some m' \<and> agree ch2 m')"
    using assms unfolding follows_def by blast
  show ?thesis unfolding follows_def
  proof (intro exI [of _ "cs @ ds"] conjI allI impI)
    show "io_log io2 = io_log io @ cs @ ds" using l by simp
    fix m assume "agree ch m"
    with c obtain m1 where "mon_run mon m cs = Some m1" "agree ch1 m1" by blast
    with d show "\<exists>m'. mon_run mon m (cs @ ds) = Some m' \<and> agree ch2 m'" by (auto simp: mon_run_append)
  qed
qed

lemma follows_call:
  "(\<And>m. agree ch m \<Longrightarrow> \<exists>m'. mon m c = Some m' \<and> agree ch' m') \<Longrightarrow> follows mon agree ch io ch' (call c io)"
  unfolding follows_def by (intro exI [of _ "[c]"]) (auto split: bind_splits)

lemma follows_send:
  "(\<And>m. agree ch m \<Longrightarrow> \<exists>m'. mon m (Enqueue f) = Some m' \<and> agree ch' m') \<Longrightarrow> follows mon agree ch io ch' (send f io)"
  unfolding follows_def by (intro exI [of _ "[Enqueue f]"]) (auto split: bind_splits)

text \<open>Calls that the monitor ignores.\<close>

lemma follows_ignored:
  assumes "emits P io io'" "\<And>m c. P c \<Longrightarrow> mon m c = Some m" "\<And>m. agree ch m \<Longrightarrow> agree ch' m"
  shows "follows mon agree ch io ch' io'"
  using assms mon_run_ignored [of P mon] unfolding follows_def emits_def by blast

locale monitored_channel = channel V ok view
  for V :: "'c vtable" and ok :: "'c \<Rightarrow> bool" and view :: "'c \<Rightarrow> chan_view" +
  fixes mon :: "'m \<Rightarrow> call \<Rightarrow> 'm option" and agree :: "'c \<Rightarrow> 'm \<Rightarrow> bool"
  assumes step_follows: "env_ok E \<Longrightarrow> ok ch \<Longrightarrow> txq_inv (io_txq io) \<Longrightarrow> op_allowed (view ch) x \<Longrightarrow>
      chan_step V E x ch io = Some (ch', io') \<Longrightarrow> follows mon agree ch io ch' io'"
begin

lemma run_follows:
  assumes "env_ok E" "ok ch" "txq_inv (io_txq io)" "list_all (op_allowed (view ch)) xs"
  shows "\<exists>ch' io'. chan_run V E xs ch io = Some (ch', io') \<and> follows mon agree ch io ch' io' \<and> ok ch'"
  using assms(2-)
proof (induction xs arbitrary: ch io)
  case (Cons x xs)
  have x: "op_allowed (view ch) x" using Cons.prems(3) by simp
  obtain ch1 io1 where s: "chan_step V E x ch io = Some (ch1, io1)" "ok ch1"
    "view ch1 = view_step x (view ch)" "emits (own E (view ch)) io io1"
    using step [OF assms(1) Cons.prems(1,2) x] unfolding handles_def by auto
  obtain ch' io' where "chan_run V E xs ch1 io1 = Some (ch', io')" "follows mon agree ch1 io1 ch' io'" "ok ch'"
    using Cons.IH [OF s(2) emits_inv [OF s(4) Cons.prems(2)]] Cons.prems(3) s(3) by auto
  with s(1) step_follows [OF assms(1) Cons.prems(1,2) x s(1)] show ?case
    by (auto intro: follows_trans)
qed simp

lemma run_monitored:
  assumes "env_ok E" "ok ch" "txq_inv (io_txq io)" "list_all (op_allowed (view ch)) xs" "agree ch m"
  shows "\<exists>ch' io' cs m'. chan_run V E xs ch io = Some (ch', io') \<and> io_log io' = io_log io @ cs
     \<and> mon_run mon m cs = Some m' \<and> agree ch' m' \<and> ok ch'"
  using run_follows [OF assms(1-4)] assms(5) unfolding follows_def by blast

end

end
