(* ===== verification/Mcu_Props.thy ===== *)
theory Mcu_Props
  imports Mcu Monitor
begin

text \<open>
  What the MCU channel tells the host.  The host learns the state of the firmware from
  \<open>F_READY\<close> and \<open>F_FLUSH\<close> frames, and may be sent \<open>F_DATA\<close> only while it believes the
  firmware to be running.
\<close>


section \<open>The announcements\<close>

text \<open>The host's belief (\<open>None\<close>: nothing announced yet) after a call of the channel; \<open>None\<close> as a result
  is a protocol violation.\<close>

fun status_call :: "bool option \<Rightarrow> call \<Rightarrow> bool option option" where
  "status_call a (Enqueue f) =
     (if f ! 2 = F_READY then Some (Some True)
      else if f ! 2 = F_FLUSH then Some (Some False)
      else if f ! 2 = F_DATA \<and> a = Some True then Some a
      else None)"
| "status_call a _ = Some a"

definition announced :: "mcu_channel \<Rightarrow> bool option \<Rightarrow> bool" where
  "announced ch a \<longleftrightarrow> (mcu_link_up ch \<longrightarrow> a = Some (mcu_state ch = Active))"

abbreviation speaks :: "mcu_channel \<Rightarrow> io \<Rightarrow> mcu_channel \<Rightarrow> io \<Rightarrow> bool" where
  "speaks \<equiv> follows status_call announced"

lemma speaks_same:
  assumes "emits (quiet_call c) io io'" "mcu_link_up ch' \<longrightarrow> mcu_link_up ch \<and> (mcu_state ch' = Active \<longleftrightarrow> mcu_state ch = Active)"
  shows "speaks ch io ch' io'"
proof (rule follows_ignored [OF assms(1)])
  show "quiet_call c x \<Longrightarrow> status_call m x = Some m" for m x by (cases x) (auto simp: quiet_call_def)
qed (use assms(2) in \<open>auto simp: announced_def\<close>)

lemma frame_type: "length p \<le> MAX_PAYLOAD \<Longrightarrow> build_frame crc t c p ! 2 = t"
  by (simp add: build_frame_def)

lemma speaks_status:
  assumes "mcu_link_up ch'" "(t, mcu_state ch' = Active) \<in> {(F_READY, True), (F_FLUSH, False)}"
  shows "speaks ch io ch' (send (build_frame crc t c []) io)"
  by (rule follows_send) (use assms in \<open>auto simp: announced_def frame_type frame_types\<close>)

lemma speaks_data:
  assumes "mcu_state ch = Active" "mcu_link_up ch" "length p \<le> MAX_PAYLOAD"
  shows "speaks ch io ch (send (build_frame crc F_DATA c p) io)"
  by (rule follows_send) (use assms in \<open>auto simp: announced_def frame_type frame_types\<close>)


section \<open>Every handler keeps the host informed\<close>

lemma mcu_update_interest_speaks:
  assumes "mcu_update_interest ch io = Some (ch', io')" "mcu_base ch"
    and "mcu_link_up ch \<longrightarrow> mcu_link_up ch0 \<and> (mcu_state ch = Active \<longleftrightarrow> mcu_state ch0 = Active)"
  shows "speaks ch0 io ch' io' \<and> mcu_state ch' = mcu_state ch \<and> mcu_link_up ch' = mcu_link_up ch"
proof -
  have "emits (quiet (mcu_view ch)) io io'" using mcu_update_interest_ok [OF assms(2), of io] assms(1) by simp
  moreover have f: "mcu_state ch' = mcu_state ch" "mcu_link_up ch' = mcu_link_up ch"
    using assms(1) by (auto simp: mcu_update_interest_def split: option.splits bind_splits)
  ultimately show ?thesis using speaks_same [of "mcu_ch_id ch" io io' ch' ch0] assms(3)
    by (simp add: mcu_view_def)
qed

lemma mcu_transition_speaks:
  assumes "mcu_transition E s ch io = Some (ch', io')" "txq_inv (io_txq io)" "s \<noteq> Init"
  shows "speaks ch io ch' io' \<and> mcu_link_up ch' = mcu_link_up ch \<and> mcu_state ch' = s"
proof (cases "s = mcu_state ch \<or> \<not> mcu_link_up ch")
  case True
  then show ?thesis using assms
    by (cases s) (auto simp: mcu_transition_def Let_def follows_def announced_def split: if_splits)
next
  case False
  then show ?thesis using assms
    by (cases s) (auto simp: mcu_transition_def Let_def intro!: speaks_status)
qed

lemma mcu_uart_drain_speaks:
  assumes "mcu_uart_drain E ch io = Some (ch', io')" "mcu_base ch"
    and "mcu_state ch = mcu_state ch0" "mcu_link_up ch = mcu_link_up ch0"
  shows "speaks ch0 io ch' io'"
proof -
  have q: "emits (quiet_call c) io (call (Wrote f bs) (next_call io))" for c f bs
    by (intro emits_call) (auto simp: quiet_call_def)
  have s: "speaks ch0 io ch0 (call (Wrote f bs) (next_call io))" for f bs using speaks_same [OF q] by auto
  have upd: "speaks ch0 io1 ch' io'"
    if "mcu_update_interest (ch\<lparr>mcu_txbuf := bs\<rparr>) io1 = Some (ch', io')" "mcu_state ch \<noteq> Active \<longrightarrow> bs = []"
    for bs io1
    using mcu_update_interest_speaks [OF that(1), of ch0] assms(2-4) that(2) by (auto simp: mcu_base_def)
  have old: "mcu_state ch \<noteq> Active \<longrightarrow> mcu_txbuf ch = []" using assms(2) by (simp add: mcu_base_def)
  have upd0: "speaks ch0 io1 ch' io'" if "mcu_update_interest ch io1 = Some (ch', io')" for io1
    using upd [of "mcu_txbuf ch" io1] that old by simp
  show ?thesis
  proof (cases "mcu_fd ch = None \<or> mcu_txbuf ch = []")
    case True
    then have "ch' = ch" "io' = io" using assms(1) by (auto simp: mcu_uart_drain_def split: option.splits)
    then show ?thesis using assms(3,4) by (auto simp: follows_def announced_def)
  next
    case False
    then obtain f where f: "mcu_fd ch = Some f" "mcu_txbuf ch \<noteq> []" by auto
    show ?thesis
    proof (cases "env_write E (io_n io) f (mcu_txbuf ch)")
      case (WriteErr e)
      then show ?thesis using assms(1) f upd [of "[]" "next_call io"] upd0 [of "next_call io"]
        by (auto simp: mcu_uart_drain_def write_nonblock_def split: if_splits)
    next
      case (Written n)
      let ?io = "call (Wrote f (take n (mcu_txbuf ch))) (next_call io)"
      have "speaks ch0 ?io ch' io'"
        using assms(1) f Written upd [of "drop n (mcu_txbuf ch)" ?io] upd0 [of ?io] old
        by (auto simp: mcu_uart_drain_def write_nonblock_def drain_front_def split: if_splits bind_splits)
      then show ?thesis by (rule follows_trans [OF s])
    qed
  qed
qed

lemma mcu_open_uart_speaks:
  assumes "mcu_open_uart E ch io = Some (ch', io')" "mcu_base ch"
  shows "speaks ch io ch' io'"
proof -
  obtain r io1 where r: "open_serial_fd E (mcu_device ch) (mcu_baud ch) io = (r, io1)" by fastforce
  have "emits (quiet_call (mcu_ch_id ch)) io io1" by (rule emits_open_serial [OF r]) (simp add: quiet_call_def)
  then have s: "speaks ch io ch io1" by (rule speaks_same) simp
  show ?thesis
  proof (cases r)
    case (Inl e)
    then show ?thesis using assms(1) r s
      by (auto simp: mcu_open_uart_def io_defs follows_def announced_def)
  next
    case (Inr f)
    then have "speaks ch io1 ch' io'"
      using mcu_update_interest_speaks [of "ch\<lparr>mcu_fd := Some f, mcu_fd_in_sel := False\<rparr>" io1 ch' io' ch] assms r
      by (auto simp: mcu_open_uart_def mcu_base_def)
    then show ?thesis by (rule follows_trans [OF s])
  qed
qed

lemma mcu_close_uart_speaks:
  assumes "mcu_close_uart ch io = (ch', io')" "mcu_ok ch"
  shows "speaks ch io ch' io' \<and> mcu_link_up ch' = mcu_link_up ch \<and> mcu_state ch' = mcu_state ch"
proof -
  have "mcu_link_up ch' = mcu_link_up ch \<and> mcu_state ch' = mcu_state ch"
    using assms(1) by (auto simp: mcu_close_uart_def Let_def split: option.splits)
  then show ?thesis using mcu_close_uart_ok [OF assms(2,1)] speaks_same by auto
qed

lemma mcu_uart_read_speaks:
  assumes E: "env_ok E" and ok: "mcu_ok ch" and q: "txq_inv (io_txq io)"
    and r: "mcu_uart_read E ch io = Some (ch', io')"
  shows "speaks ch io ch' io'"
proof (cases "mcu_fd ch")
  case None
  then show ?thesis using r by (simp add: mcu_uart_read_def)
next
  case (Some f)
  obtain x where x: "read_nonblock E f 4096 io = (x, next_call io)"
    and l: "\<forall>data. x = Inr (Some data) \<longrightarrow> length data \<le> 4096"
    using read_nonblock_next [OF E] by blast
  consider "x = Inr None \<or> x = Inr (Some [])" | b bs where "x = Inr (Some (b # bs))" | e where "x = Inl e"
    by (metis list.exhaust option.exhaust sum.exhaust)
  then show ?thesis
  proof cases
    case 1
    then show ?thesis using Some x r by (auto simp: mcu_uart_read_def)
  next
    case (2 b bs)
    let ?d = "b # bs" and ?ch = "ch\<lparr>mcu_last_rx := Some (env_now E (Suc (io_n io)))\<rparr>"
    let ?io = "next_call (next_call io)"
    have len: "length ?d \<le> MAX_PAYLOAD" using l 2 by (simp add: mux_consts)
    have s0: "speaks ch io ?ch io" by (auto simp: follows_def announced_def)
    show ?thesis
    proof (cases "mcu_state ch = Active")
      case True
      have "speaks ?ch ?io ch' io'"
        using True Some x 2 q r len speaks_data [of ?ch ?d ?io "env_crc E" "mcu_ch_id ch"]
        by (auto simp: mcu_uart_read_def now_def Let_def split: if_splits)
      then show ?thesis using follows_trans [OF s0] by simp
    next
      case False
      show ?thesis
      proof (cases "position KLIPPER_SYNC ?d")
        case None
        then show ?thesis using Some x 2 q r False s0
          by (auto simp: mcu_uart_read_def now_def Let_def simp del: position.simps)
      next
        case (Some i)
        then obtain ch1 io1 where t: "mcu_transition E Active ?ch ?io = Some (ch1, io1)"
          and fin: "(if mcu_link_up ch1
             then do {
               rest \<leftarrow> slice ?d i (length ?d);
               io \<leftarrow> txq_enqueue (build_frame (env_crc E) F_DATA (mcu_ch_id ch1) rest) io1;
               Some (ch1, io)
             }
             else Some (ch1, io1)) = Some (ch', io')"
          using \<open>mcu_fd ch = Some f\<close> x 2 q r False
          by (auto simp: mcu_uart_read_def now_def Let_def simp del: position.simps split: bind_splits)
        have tr: "speaks ?ch ?io ch1 io1 \<and> mcu_link_up ch1 = mcu_link_up ?ch \<and> mcu_state ch1 = Active"
          by (rule mcu_transition_speaks [OF t]) (use q in auto)
        have q1: "txq_inv (io_txq io1)"
          using mcu_transition_ok [of ?ch ?io Active E] ok q t emits_inv [of _ ?io io1]
          by (auto simp: mcu_inv_defs)
        have "speaks ch1 io1 ch' io'"
          using fin q1 tr len speaks_data [of ch1 "drop i ?d" io1 "env_crc E" "mcu_ch_id ch1"]
          by (auto simp: slice_def split: if_splits bind_splits)
        then show ?thesis using follows_trans [OF s0 follows_trans [of status_call announced ?ch io ch1 io1]] tr by simp
      qed
    qed
  next
    case (3 e)
    obtain ch1 io1 where c: "mcu_close_uart ch (next_call io) = (ch1, io1)" by fastforce
    obtain ch2 io2 where t: "mcu_transition E Resetting ch1 io1 = Some (ch2, io2)"
      and fin: "ch' = ch2\<lparr>mcu_reopen_at := Some (env_now E (io_n io2) + from_secs 1)\<rparr>" "io' = next_call io2"
      using Some x 3 r c by (auto simp: mcu_uart_read_def now_def Let_def split: bind_splits)
    have q1: "txq_inv (io_txq io1)"
      using mcu_close_uart_ok [OF ok c] emits_inv [of _ "next_call io" io1] q by auto
    have "speaks ch (next_call io) ch1 io1" using mcu_close_uart_speaks [OF c ok] by blast
    moreover have "speaks ch1 io1 ch2 io2" using mcu_transition_speaks [OF t q1] by simp
    ultimately have "speaks ch io ch2 io2" using follows_trans by simp
    then show ?thesis by (auto simp: fin follows_def announced_def)
  qed
qed

lemma mcu_step_speaks:
  assumes E: "env_ok E" and ok: "mcu_ok ch" and q: "txq_inv (io_txq io)"
    and s: "chan_step mcu_vtable E x ch io = Some (ch', io')"
  shows "speaks ch io ch' io'"
proof -
  have b: "mcu_base ch" using ok by (simp add: mcu_ok_def)
  have upd: "speaks ch io ch' io'" if "mcu_update_interest c io = Some (ch', io')" "mcu_base c"
    "mcu_link_up c \<longrightarrow> mcu_link_up ch \<and> mcu_state c = mcu_state ch" for c
    using mcu_update_interest_speaks [OF that(1,2), of ch] that(3) by auto
  show ?thesis
  proof (cases x)
    case (OnFrame t p)
    then show ?thesis
      using s b mcu_uart_drain_speaks [of E "ch\<lparr>mcu_txbuf := mcu_txbuf ch @ p\<rparr>" io ch' io' ch]
      by (auto simp: mcu_vtable_def mcu_on_frame_def mcu_base_def split: if_splits)
  next
    case LinkConnect
    then show ?thesis using s q speaks_status [of "ch\<lparr>mcu_link_up := True\<rparr>" _ ch io "env_crc E" "mcu_ch_id ch"]
      by (auto simp: mcu_vtable_def mcu_on_link_connect_def)
  next
    case (Tick n)
    then show ?thesis
      using s b q mcu_open_uart_speaks [of E "ch\<lparr>mcu_reopen_at := None\<rparr>" io ch' io']
        mcu_transition_speaks [of E Resetting ch io ch' io']
      by (auto simp: mcu_vtable_def mcu_tick_def mcu_base_def follows_def announced_def
          split: option.splits if_splits)
  next
    case (Event tk r w)
    then obtain ch1 io1 where r: "(if r then mcu_uart_read E ch io else Some (ch, io)) = Some (ch1, io1)"
      and w: "(if w then mcu_uart_drain E ch1 io1 else Some (ch1, io1)) = Some (ch', io')"
      using s by (auto simp: mcu_vtable_def mcu_handle_event_def split: bind_splits)
    have "speaks ch io ch1 io1" using r mcu_uart_read_speaks [OF E ok q] by (auto split: if_splits)
    moreover have "mcu_ok ch1" using r ok mcu_uart_read_ok [OF E ok q] by (auto split: if_splits)
    then have "speaks ch1 io1 ch' io'" using w mcu_uart_drain_speaks [of E ch1 io1 ch' io' ch1]
      by (auto simp: mcu_ok_def split: if_splits)
    ultimately show ?thesis by (rule follows_trans)
  next
    case Close
    then show ?thesis using s mcu_close_uart_speaks [OF _ ok] by (auto simp: mcu_vtable_def mcu_close_def)
  qed (use s b upd in \<open>auto simp: mcu_vtable_def mcu_on_link_disconnect_def mcu_pause_source_reads_def
         mcu_resume_source_reads_def mcu_base_def split: if_splits\<close>)
qed

interpretation mcu_speaking: monitored_channel mcu_vtable mcu_ok mcu_view status_call announced
  by unfold_locales (rule mcu_step_speaks)

text \<open>C6: in any run of an MCU channel the frames it sends follow the protocol: after every call, as long
  as the link is up, the last announcement (\<open>F_READY\<close> or \<open>F_FLUSH\<close>) agrees with the state of the
  firmware, and \<open>F_DATA\<close> is sent only while the last announcement was \<open>F_READY\<close>.  No call panics.\<close>

theorem mcu_keeps_host_informed:
  assumes "env_ok E" "mcu_ok ch" "txq_inv (io_txq io)" "list_all (op_allowed (mcu_view ch)) xs"
    and "announced ch a"
  shows "\<exists>ch' io' cs a'. chan_run mcu_vtable E xs ch io = Some (ch', io')
     \<and> io_log io' = io_log io @ cs \<and> mon_run status_call a cs = Some a' \<and> announced ch' a'"
  using mcu_speaking.run_monitored [OF assms] by blast

definition example_mcu :: mcu_channel where
  "example_mcu = \<lparr>mcu_ch_id = 1, mcu_device = ''/dev/ttyS1'', mcu_baud = 230400, mcu_state = Init,
     mcu_fd = Some 5, mcu_fd_in_sel = True, mcu_txbuf = [], mcu_last_rx = None, mcu_reopen_at = None,
     mcu_bp_paused = False, mcu_link_up = False\<rparr>"

lemma example_mcu_ok: "mcu_ok example_mcu"
  by (simp add: mcu_inv_defs example_mcu_def MAX_CHANNEL_ID_def)

text \<open>A UART on which the firmware talks.\<close>

definition example_uart :: env where
  "example_uart = example_env\<lparr>env_read := \<lambda>n f cap. ReadData (take cap [0x00, 0x7E, 0x05])\<rparr>"

lemma example_uart_ok: "env_ok example_uart"
  using example_env_ok by (auto simp: env_ok_def read_ok_def example_uart_def)

theorem mcu_keeps_host_informed_witness:
  "\<exists>ch' io' cs a'. chan_run mcu_vtable example_uart [LinkConnect, Event 2 True False] example_mcu io_new
       = Some (ch', io')
     \<and> io_log io' = cs \<and> mon_run status_call None cs = Some a' \<and> announced ch' a'"
  using mcu_keeps_host_informed [OF example_uart_ok example_mcu_ok, of io_new
      "[LinkConnect, Event 2 True False]" None]
  by (simp add: mcu_view_def announced_def example_mcu_def)


section \<open>The branches of a UART read\<close>

text \<open>A read of the UART, on every branch.  While the firmware is not active everything up to the
  first sync byte is dropped; the sync byte makes it active, which is announced before the first
  data, and the first data starts with the sync byte; an active firmware's bytes are forwarded as
  they are; nothing is sent while the link is down.\<close>

lemma mcu_uart_read_spec:
  assumes "txq_inv (io_txq io)" "mcu_fd ch = Some f" "env_read E (io_n io) f 4096 = ReadData data" "data \<noteq> []"
  shows "\<exists>ch' io'. mcu_uart_read E ch io = Some (ch', io')
     \<and> mcu_state ch' = (if KLIPPER_SYNC \<in> set data then Active else mcu_state ch)
     \<and> mcu_last_rx ch' = Some (env_now E (Suc (io_n io))) \<and> mcu_txbuf ch' = mcu_txbuf ch
     \<and> io_log io' = io_log io @ (if \<not> mcu_link_up ch then []
         else if mcu_state ch = Active then [Enqueue (build_frame (env_crc E) F_DATA (mcu_ch_id ch) data)]
         else if KLIPPER_SYNC \<in> set data
         then [Enqueue (build_frame (env_crc E) F_READY (mcu_ch_id ch) []),
               Enqueue (build_frame (env_crc E) F_DATA (mcu_ch_id ch) (dropWhile (\<lambda>b. b \<noteq> KLIPPER_SYNC) data))]
         else [])"
proof -
  have r: "read_nonblock E f 4096 io = (Inr (Some data), next_call io)"
    using assms(3) by (simp add: read_nonblock_def)
  obtain b bs where d: "data = b # bs" using assms(4) by (cases data) auto
  show ?thesis
  proof (cases "mcu_state ch = Active")
    case True
    then show ?thesis using assms(1,2) r d by (simp add: mcu_uart_read_def now_def Let_def)
  next
    case False
    show ?thesis
    proof (cases "position KLIPPER_SYNC data")
      case None
      then have n: "KLIPPER_SYNC \<notin> set data" by (simp add: position_None_iff)
      show ?thesis using False None n assms(1,2) r unfolding d
        by (simp add: mcu_uart_read_def now_def Let_def del: position.simps set_simps)
    next
      case (Some i)
      then have i: "KLIPPER_SYNC \<in> set data" "drop i data = dropWhile (\<lambda>b. b \<noteq> KLIPPER_SYNC) data"
        "slice data i (length data) = Some (drop i data)"
        by (auto simp: position_Some_iff position_dropWhile slice_def in_set_conv_nth)
      show ?thesis using False Some i assms(1,2) r unfolding d
        by (simp add: mcu_uart_read_def mcu_transition_def now_def Let_def
            del: position.simps set_simps dropWhile.simps length_Cons)
    qed
  qed
qed


section \<open>Timers\<close>

text \<open>The deadline that the channel reports is exact: a tick before it (for an open UART, at or
  before it) changes nothing and makes no call; a later tick resets a silent active firmware, and
  a tick at or after the deadline of a closed UART clears the deadline and tries to open it.\<close>

lemma mcu_deadline_exact:
  assumes "mcu_ok ch" "txq_inv (io_txq io)"
  shows "(case mcu_next_deadline ch of
       None \<Rightarrow> mcu_tick E tnow ch io = Some (ch, io)
     | Some dl \<Rightarrow>
         if mcu_fd ch = None
         then if tnow < dl then mcu_tick E tnow ch io = Some (ch, io)
              else mcu_tick E tnow ch io = mcu_open_uart E (ch\<lparr>mcu_reopen_at := None\<rparr>) io
         else if tnow \<le> dl then mcu_tick E tnow ch io = Some (ch, io)
              else \<exists>io'. mcu_tick E tnow ch io
                     = Some (ch\<lparr>mcu_state := Resetting, mcu_last_rx := None, mcu_txbuf := []\<rparr>, io'))"
  using assms
  by (cases "mcu_fd ch"; cases "mcu_reopen_at ch"; cases "mcu_last_rx ch")
     (auto simp: mcu_next_deadline_def mcu_tick_def mcu_transition_def Let_def)

end
