(* ===== verification/Channel_Writes.thy ===== *)
theory Channel_Writes
  imports Monitor
begin

text \<open>
  Channels that write the payloads of \<open>F_DATA\<close> frames to a descriptor through a buffer.  In any run what has been
  written and what is in the buffer is, in order, a part of what the channel was given; while the session
  lasts and no write fails it is all of it.
\<close>

fun reg_call :: "call \<Rightarrow> bool" where
  "reg_call (Register f t i) = True"
| "reg_call (Reregister f t i) = True"
| "reg_call (Deregister f) = True"
| "reg_call (SetTermios f a) = True"
| "reg_call _ = False"

lemma sync_interest_regs: "sync_interest c f i s io = Some (s', io') \<Longrightarrow> emits reg_call io io'"
  by (cases i; cases s) (auto simp: sync_interest_def io_defs intro!: emits_call split: bind_splits)

text \<open>The bytes written by some calls, and those that an operation gives to the channel.\<close>

fun wrote :: "call \<Rightarrow> bytes" where
  "wrote (Wrote f bs) = bs"
| "wrote _ = []"

definition written :: "call list \<Rightarrow> bytes" where
  "written cs = concat (map wrote cs)"

lemma written_simps [simp]:
  "written [] = []" "written (c # cs) = wrote c @ written cs" "written (cs @ ds) = written cs @ written ds"
  by (simp_all add: written_def)

fun fed :: "chan_op \<Rightarrow> bytes" where
  "fed (OnFrame t p) = (if t = F_DATA then p else [])"
| "fed _ = []"

text \<open>No write fails for good.\<close>

definition steady :: "env \<Rightarrow> bool" where
  "steady E \<longleftrightarrow> (\<forall>n f bs e. env_write E n f bs = WriteErr e \<longrightarrow> e = EAGAIN \<or> e = EWOULDBLOCK)"

text \<open>From one state to another, having been given \<open>p\<close>; \<open>ends\<close> says which calls end a session.\<close>

definition writes ::
  "('c \<Rightarrow> bool) \<Rightarrow> (call \<Rightarrow> bool) \<Rightarrow> ('c \<Rightarrow> bytes) \<Rightarrow> bytes \<Rightarrow> 'c \<Rightarrow> io \<Rightarrow> 'c \<Rightarrow> io \<Rightarrow> bool" where
  "writes session ends tx p ch io ch' io' \<longleftrightarrow> (\<exists>cs. io_log io' = io_log io @ cs
     \<and> subseq (written cs @ tx ch') (tx ch @ p)
     \<and> (session ch \<and> list_all (\<lambda>c. \<not> ends c) cs \<longrightarrow> session ch' \<and> written cs @ tx ch' = tx ch @ p))"

lemma writesI:
  "io_log io' = io_log io @ cs \<Longrightarrow> subseq (written cs @ tx ch') (tx ch @ p) \<Longrightarrow>
   (session ch \<Longrightarrow> list_all (\<lambda>c. \<not> ends c) cs \<Longrightarrow> session ch' \<and> written cs @ tx ch' = tx ch @ p) \<Longrightarrow>
   writes session ends tx p ch io ch' io'"
  unfolding writes_def by blast

lemma writes_same: "io_log io' = io_log io \<Longrightarrow> tx ch' = tx ch \<Longrightarrow> (session ch \<Longrightarrow> session ch') \<Longrightarrow> writes session ends tx [] ch io ch' io'"
  by (rule writesI [of _ _ "[]"]) simp_all

lemma writes_next [simp]:
  "writes session ends tx p ch (next_call io) ch' io' = writes session ends tx p ch io ch' io'"
  "writes session ends tx p ch io ch' (next_call io') = writes session ends tx p ch io ch' io'"
  by (simp_all add: writes_def)

lemma writes_trans:
  assumes "writes session ends tx p ch io ch1 io1" "writes session ends tx q ch1 io1 ch2 io2"
  shows "writes session ends tx (p @ q) ch io ch2 io2"
proof -
  obtain cs where c: "io_log io1 = io_log io @ cs" "subseq (written cs @ tx ch1) (tx ch @ p)"
    "session ch \<and> list_all (\<lambda>c. \<not> ends c) cs \<longrightarrow> session ch1 \<and> written cs @ tx ch1 = tx ch @ p"
    using assms(1) unfolding writes_def by blast
  obtain ds where d: "io_log io2 = io_log io1 @ ds" "subseq (written ds @ tx ch2) (tx ch1 @ q)"
    "session ch1 \<and> list_all (\<lambda>c. \<not> ends c) ds \<longrightarrow> session ch2 \<and> written ds @ tx ch2 = tx ch1 @ q"
    using assms(2) unfolding writes_def by blast
  have "subseq (written cs @ written ds @ tx ch2) (written cs @ tx ch1 @ q)" using d(2) by (simp add: subseq_append')
  moreover have "subseq ((written cs @ tx ch1) @ q) ((tx ch @ p) @ q)" using c(2) by (simp only: subseq_append)
  ultimately have s: "subseq (written (cs @ ds) @ tx ch2) (tx ch @ p @ q)" by (simp add: subseq_order.trans)
  have e: "session ch2 \<and> written (cs @ ds) @ tx ch2 = tx ch @ p @ q"
    if "session ch" "list_all (\<lambda>c. \<not> ends c) (cs @ ds)"
  proof -
    have "session ch1" "written cs @ tx ch1 = tx ch @ p" "session ch2" "written ds @ tx ch2 = tx ch1 @ q"
      using that c(3) d(3) by simp_all
    then show ?thesis by (metis append.assoc written_simps(3))
  qed
  show ?thesis by (rule writesI [of _ _ "cs @ ds"]) (use c(1) d(1) s e in simp_all)
qed

text \<open>Calls that write nothing, a part written from the front of the buffer, and a buffer that is dropped.\<close>

lemma written_none: "list_all P cs \<Longrightarrow> (\<And>c. P c \<Longrightarrow> wrote c = []) \<Longrightarrow> written cs = []"
  by (induction cs) auto

lemma writes_quiet:
  assumes "emits P io io'" "\<And>c. P c \<Longrightarrow> wrote c = []" "tx ch' = tx ch @ p" "session ch \<Longrightarrow> session ch'"
  shows "writes session ends tx p ch io ch' io'"
proof -
  obtain cs where cs: "io_log io' = io_log io @ cs" "list_all P cs" using assms(1) by (auto simp: emits_def)
  show ?thesis by (rule writesI [OF cs(1)]) (use assms(3,4) written_none [OF cs(2) assms(2)] in simp_all)
qed

lemma writes_wrote:
  "tx ch = bs @ tx ch' \<Longrightarrow> (session ch \<Longrightarrow> session ch') \<Longrightarrow> writes session ends tx [] ch io ch' (call (Wrote f bs) io)"
  by (rule writesI [of _ _ "[Wrote f bs]"]) (simp_all add: call_def)

lemma writes_dropped:
  assumes "io_log io' = io_log io @ cs" "written cs = []" "tx ch' = []"
    and "session ch \<Longrightarrow> list_ex ends cs"
  shows "writes session ends tx p ch io ch' io'"
  by (rule writesI [OF assms(1)]) (use assms(2-) in \<open>auto simp: list_ex_iff list_all_iff\<close>)

lemma reg_call_wrote: "reg_call c \<Longrightarrow> wrote c = []"
  by (cases c) auto

text \<open>The function that drains the buffer has the same form in both channels: \<open>upd\<close> adjusts the interest and
  \<open>put\<close> replaces the buffer.\<close>

lemma drain_writes:
  assumes d: "(case fdo of
       None \<Rightarrow> Some (ch, io)
     | Some f \<Rightarrow>
         if tx ch = [] then Some (ch, io)
         else (case write_nonblock E f (tx ch) io of
             (Inr n, io) \<Rightarrow>
               if n = 0 then upd ch io
               else do { rest \<leftarrow> drain_front n (tx ch); upd (put rest ch) io }
           | (Inl e, io) \<Rightarrow> upd (put [] ch) io)) = Some (ch', io')"
    and E: "env_ok E" and steady: "session ch0 \<Longrightarrow> steady E"
    and p: "tx ch = tx ch0 @ p" "session ch0 \<Longrightarrow> session ch"
    and put: "\<And>bs. tx (put bs ch) = bs" "\<And>bs. session ch \<Longrightarrow> session (put bs ch)"
    and upd: "\<And>c io. upd c io = Some (ch', io') \<Longrightarrow> emits reg_call io io' \<and> tx ch' = tx c \<and> (session c \<longrightarrow> session ch')"
  shows "writes session ends tx p ch0 io ch' io'"
proof -
  have interest: "writes session ends tx q c0 io1 ch' io'"
    if "upd c io1 = Some (ch', io')" "tx c = tx c0 @ q" "session c0 \<Longrightarrow> session c" for c c0 q io1
    using upd [OF that(1)] that(2,3) by (intro writes_quiet [of reg_call _ _ tx, OF _ reg_call_wrote]) simp_all
  have same: "writes session ends tx p ch0 io ch io"
    by (rule writes_quiet [of reg_call]) (use p reg_call_wrote in auto)
  show ?thesis
  proof (cases "fdo = None \<or> tx ch = []")
    case True
    then show ?thesis using d same by (auto split: option.splits)
  next
    case False
    then obtain f where f: "fdo = Some f" "tx ch \<noteq> []" by auto
    show ?thesis
    proof (cases "env_write E (io_n io) f (tx ch)")
      case (WriteErr e)
      show ?thesis
      proof (cases "e = EAGAIN \<or> e = EWOULDBLOCK")
        case True
        then have "upd ch (next_call io) = Some (ch', io')" using d f WriteErr by (auto simp: write_nonblock_def)
        from interest [OF this p(1) p(2)] show ?thesis by simp
      next
        case False
        then have u: "upd (put [] ch) (next_call io) = Some (ch', io')" and n: "\<not> steady E"
          using d f WriteErr by (auto simp: write_nonblock_def steady_def)
        obtain cs where "io_log io' = io_log io @ cs" "list_all reg_call cs" using upd [OF u] by (auto simp: emits_def)
        then show ?thesis using upd [OF u] put(1) n steady written_none [of reg_call cs] reg_call_wrote
          by (intro writes_dropped [of _ _ cs]) auto
      qed
    next
      case (Written n)
      let ?bs = "take n (tx ch)" and ?ch = "put (drop n (tx ch)) ch"
      let ?io = "call (Wrote f ?bs) (next_call io)"
      have n: "n \<le> length (tx ch)" using env_ok_write [OF E Written] .
      have w: "writes session ends tx p ch0 io c ?io" if "tx c = drop n (tx ch)" "session ch \<Longrightarrow> session c" for c
        using writes_trans [OF same, of "[]" c ?io] writes_wrote [of tx ch ?bs c session ends "next_call io" f] that by simp
      show ?thesis
      proof (cases "n = 0")
        case True
        then have "upd ch ?io = Some (ch', io')" using d f Written by (simp add: write_nonblock_def)
        from writes_trans [OF w interest [OF this, of ch "[]"]] True show ?thesis by simp
      next
        case False
        then have "upd ?ch ?io = Some (ch', io')" using d f Written n by (simp add: write_nonblock_def drain_front_def)
        from writes_trans [OF w interest [OF this, of ?ch "[]"]] put show ?thesis by simp
      qed
    qed
  qed
qed

locale writing_channel = channel V ok view
  for V :: "'c vtable" and ok :: "'c \<Rightarrow> bool" and view :: "'c \<Rightarrow> chan_view" +
  fixes session :: "env \<Rightarrow> 'c \<Rightarrow> bool" and ends :: "call \<Rightarrow> bool" and tx :: "'c \<Rightarrow> bytes" and keeps :: "chan_op \<Rightarrow> bool"
  assumes step_writes: "env_ok E \<Longrightarrow> ok ch \<Longrightarrow> txq_inv (io_txq io) \<Longrightarrow> op_allowed (view ch) x \<Longrightarrow>
      chan_step V E x ch io = Some (ch', io') \<Longrightarrow>
      writes (\<lambda>ch. keeps x \<and> session E ch) ends tx (fed x) ch io ch' io'"
begin

lemma run_writes:
  assumes "env_ok E" "ok ch" "txq_inv (io_txq io)" "list_all (op_allowed (view ch)) xs"
  shows "\<exists>ch' io'. chan_run V E xs ch io = Some (ch', io') \<and> ok ch'
     \<and> writes (\<lambda>ch. list_all keeps xs \<and> session E ch) ends tx (concat (map fed xs)) ch io ch' io'"
  using assms(2-)
proof (induction xs arbitrary: ch io)
  case Nil
  then show ?case by (auto intro: writes_same)
next
  case (Cons x xs)
  have x: "op_allowed (view ch) x" using Cons.prems(3) by simp
  obtain ch1 io1 where s: "chan_step V E x ch io = Some (ch1, io1)" "ok ch1"
    "view ch1 = view_step x (view ch)" "emits (own E (view ch)) io io1"
    using step [OF assms(1) Cons.prems(1,2) x] unfolding handles_def by auto
  obtain ch' io' where r: "chan_run V E xs ch1 io1 = Some (ch', io')" "ok ch'"
    "writes (\<lambda>ch. list_all keeps xs \<and> session E ch) ends tx (concat (map fed xs)) ch1 io1 ch' io'"
    using Cons.IH [OF s(2) emits_inv [OF s(4) Cons.prems(2)]] Cons.prems(3) s(3) by auto
  have "writes (\<lambda>ch. list_all keeps (x # xs) \<and> session E ch) ends tx (fed x) ch io ch1 io1"
    using step_writes [OF assms(1) Cons.prems(1,2) x s(1)] unfolding writes_def by auto
  moreover have "writes (\<lambda>ch. list_all keeps (x # xs) \<and> session E ch) ends tx (concat (map fed xs)) ch1 io1 ch' io'"
    using r(3) unfolding writes_def by auto
  ultimately show ?case using s(1) r(1,2) writes_trans by fastforce
qed

end

end
