(* ===== verification/Mcu_Writes.thy ===== *)
theory Mcu_Writes
  imports Mcu_Props Channel_Writes
begin

text \<open>
  The bytes that the firmware reads from the UART of an MCU channel, as an instance of \<open>writing_channel\<close>.
\<close>

definition mcu_session :: "env \<Rightarrow> mcu_channel \<Rightarrow> bool" where
  "mcu_session E ch \<longleftrightarrow> steady E \<and> mcu_fd ch \<noteq> None \<and> mcu_state ch = Active \<and> mcu_link_up ch"

text \<open>A session ends with the UART, when the host is told of a reset, or with the link.\<close>

fun mcu_ends :: "call \<Rightarrow> bool" where
  "mcu_ends (CloseFd f) = True"
| "mcu_ends (Enqueue f) = (f ! 2 = F_FLUSH)"
| "mcu_ends _ = False"

abbreviation mcu_writes :: "env \<Rightarrow> bytes \<Rightarrow> mcu_channel \<Rightarrow> io \<Rightarrow> mcu_channel \<Rightarrow> io \<Rightarrow> bool" where
  "mcu_writes E \<equiv> writes (mcu_session E) mcu_ends mcu_txbuf"

lemma mcu_update_interest_keeps:
  assumes "mcu_update_interest ch io = Some (ch', io')"
  shows "emits reg_call io io'" "mcu_txbuf ch' = mcu_txbuf ch" "mcu_session E ch' = mcu_session E ch"
  using assms sync_interest_regs by (auto simp: mcu_update_interest_def mcu_session_def split: option.splits bind_splits)

lemma mcu_update_interest_writes:
  assumes "mcu_update_interest ch io = Some (ch', io')" "mcu_txbuf ch = mcu_txbuf ch0 @ p" "mcu_session E ch0 \<Longrightarrow> mcu_session E ch"
  shows "mcu_writes E p ch0 io ch' io'"
  by (rule writes_quiet [OF mcu_update_interest_keeps(1) [OF assms(1)] reg_call_wrote])
     (use mcu_update_interest_keeps(2,3) [OF assms(1)] assms(2,3) in simp_all)

lemma mcu_session_put: "mcu_session E (ch\<lparr>mcu_txbuf := bs\<rparr>) = mcu_session E ch"
  by (simp add: mcu_session_def)

lemma mcu_uart_drain_writes:
  assumes "mcu_uart_drain E ch io = Some (ch', io')" "env_ok E"
    and "mcu_txbuf ch = mcu_txbuf ch0 @ p" "mcu_session E ch0 \<Longrightarrow> mcu_session E ch"
  shows "mcu_writes E p ch0 io ch' io'"
  by (rule drain_writes [where tx = mcu_txbuf and upd = mcu_update_interest and put = "\<lambda>bs ch. ch\<lparr>mcu_txbuf := bs\<rparr>",
        OF assms(1) [unfolded mcu_uart_drain_def] assms(2)])
     (use assms(3,4) in \<open>auto simp: mcu_session_put mcu_update_interest_keeps mcu_session_def [of E ch0]\<close>)

lemma mcu_close_uart_writes:
  assumes "mcu_close_uart ch io = (ch', io')"
  shows "mcu_writes E [] ch io ch' io'"
proof -
  let ?cs = "case mcu_fd ch of None \<Rightarrow> [] | Some f \<Rightarrow> (if mcu_fd_in_sel ch then [Deregister f] else []) @ [CloseFd f]"
  have "io_log io' = io_log io @ ?cs" "mcu_txbuf ch' = mcu_txbuf ch"
    using assms by (auto simp: mcu_close_uart_def io_defs call_def Let_def split: option.splits)
  then show ?thesis by (intro writesI [of _ _ ?cs]) (auto simp: mcu_session_def split: option.split)
qed

lemma mcu_transition_writes:
  assumes "mcu_transition E s ch io = Some (ch', io')" "txq_inv (io_txq io)" "s \<noteq> Init"
  shows "mcu_writes E [] ch io ch' io'"
proof (cases "s = mcu_state ch \<or> s = Active")
  case True
  then have e: "emits (\<lambda>c. wrote c = []) io io'" "mcu_txbuf ch' = mcu_txbuf ch" "mcu_session E ch \<Longrightarrow> mcu_session E ch'"
    using assms by (auto simp: mcu_transition_def mcu_session_def Let_def intro: emits_send split: if_splits)
  show ?thesis by (rule writes_quiet [OF e(1)]) (use e in simp_all)
next
  case False
  let ?cs = "if mcu_link_up ch then [Enqueue (build_frame (env_crc E) F_FLUSH (mcu_ch_id ch) [])] else []"
  have s: "s = Resetting" using False assms(3) by (cases s) auto
  then have "io_log io' = io_log io @ ?cs" "mcu_txbuf ch' = []"
    using assms(1,2) False by (auto simp: mcu_transition_def Let_def send_def call_def split: if_splits)
  then show ?thesis by (intro writes_dropped [of _ _ ?cs]) (auto simp: mcu_session_def frame_type)
qed

lemma mcu_open_uart_writes:
  assumes "mcu_open_uart E ch io = Some (ch', io')" "mcu_fd ch = None"
  shows "mcu_writes E [] ch io ch' io'"
proof -
  let ?P = "\<lambda>c. wrote c = []"
  obtain r io1 where r: "open_serial_fd E (mcu_device ch) (mcu_baud ch) io = (r, io1)" by fastforce
  have e: "emits ?P io io1" by (rule emits_open_serial [OF r]) simp
  have "emits ?P io io' \<and> mcu_txbuf ch' = mcu_txbuf ch"
  proof (cases r)
    case (Inl x)
    then show ?thesis using assms(1) r e by (auto simp: mcu_open_uart_def now_def)
  next
    case (Inr f)
    then have u: "mcu_update_interest (ch\<lparr>mcu_fd := Some f, mcu_fd_in_sel := False\<rparr>) io1 = Some (ch', io')"
      using assms(1) r by (simp add: mcu_open_uart_def)
    show ?thesis using emits_trans [OF e emits_mono [OF mcu_update_interest_keeps(1) [OF u] reg_call_wrote]]
      mcu_update_interest_keeps(2) [OF u] by simp
  qed
  then show ?thesis by (intro writes_quiet [of ?P]) (use assms(2) in \<open>simp_all add: mcu_session_def\<close>)
qed

lemma mcu_uart_read_writes:
  assumes E: "env_ok E" and ok: "mcu_ok ch" and q: "txq_inv (io_txq io)"
    and r: "mcu_uart_read E ch io = Some (ch', io')"
  shows "mcu_writes E [] ch io ch' io'"
proof (cases "mcu_fd ch")
  case None
  then show ?thesis using r by (auto simp: mcu_uart_read_def intro: writes_same)
next
  case (Some f)
  let ?P = "\<lambda>c. wrote c = []"
  obtain x where x: "read_nonblock E f 4096 io = (x, next_call io)" using read_nonblock_next [OF E] by blast
  consider "x = Inr None \<or> x = Inr (Some [])" | b bs where "x = Inr (Some (b # bs))" | e where "x = Inl e"
    by (metis list.exhaust option.exhaust sum.exhaust)
  then show ?thesis
  proof cases
    case 1
    then show ?thesis using Some x r by (auto simp: mcu_uart_read_def writes_same)
  next
    case (2 b bs)
    let ?ch = "ch\<lparr>mcu_last_rx := Some (env_now E (Suc (io_n io)))\<rparr>" and ?io = "next_call (next_call io)"
    have send: "emits ?P io (send y ?io)" for y by (intro emits_send) simp_all
    have e: "emits ?P io io' \<and> mcu_txbuf ch' = mcu_txbuf ch \<and> (mcu_session E ch \<longrightarrow> mcu_session E ch')"
      using Some x 2 q r send
      by (auto simp: mcu_uart_read_def now_def Let_def mcu_transition_def mcu_session_def simp del: position.simps
          split: if_splits option.splits bind_splits intro!: emits_send)
    show ?thesis by (rule writes_quiet [of ?P]) (use e in simp_all)
  next
    case (3 e)
    obtain ch1 io1 where c: "mcu_close_uart ch (next_call io) = (ch1, io1)" by fastforce
    obtain ch2 io2 where t: "mcu_transition E Resetting ch1 io1 = Some (ch2, io2)"
      and fin: "ch' = ch2\<lparr>mcu_reopen_at := Some (env_now E (io_n io2) + from_secs 1)\<rparr>" "io' = next_call io2"
      using Some x 3 r c by (auto simp: mcu_uart_read_def now_def Let_def split: bind_splits)
    have q1: "txq_inv (io_txq io1)"
      using mcu_close_uart_ok [OF ok c] emits_inv [of _ "next_call io" io1] q by auto
    have "mcu_writes E [] ch io ch1 io1" using mcu_close_uart_writes [OF c] by simp
    moreover have "mcu_writes E [] ch1 io1 ch2 io2" using mcu_transition_writes [OF t q1] by simp
    moreover have "mcu_writes E [] ch2 io2 ch' io'" unfolding fin by (rule writes_same) (simp_all add: mcu_session_def)
    ultimately show ?thesis using writes_trans [OF writes_trans] by fastforce
  qed
qed

lemma mcu_step_writes:
  assumes E: "env_ok E" and ok: "mcu_ok ch" and q: "txq_inv (io_txq io)"
    and s: "chan_step mcu_vtable E x ch io = Some (ch', io')"
  shows "writes (\<lambda>ch. x \<noteq> LinkDisconnect \<and> mcu_session E ch) mcu_ends mcu_txbuf (fed x) ch io ch' io'"
proof -
  have same: "mcu_writes E [] ch io ch io" by (simp add: writes_same)
  have upd: "mcu_writes E [] ch io ch' io'" if "mcu_update_interest (ch\<lparr>mcu_bp_paused := b\<rparr>) io = Some (ch', io')" for b
    by (rule mcu_update_interest_writes [OF that]) (simp_all add: mcu_session_def)
  have w: "mcu_writes E (fed x) ch io ch' io'" if "x \<noteq> LinkDisconnect"
  proof (cases x)
    case (OnFrame t p)
    have d: "mcu_writes E p ch io ch' io'" if "mcu_uart_drain E (ch\<lparr>mcu_txbuf := mcu_txbuf ch @ p\<rparr>) io = Some (ch', io')"
      by (rule mcu_uart_drain_writes [OF that E]) (simp_all add: mcu_session_def)
    have n: "mcu_writes E p ch io ch io" if "mcu_fd ch = None \<or> mcu_state ch \<noteq> Active"
      by (rule writesI [of _ _ "[]"]) (use that in \<open>auto simp: mcu_session_def prefix_imp_subseq\<close>)
    show ?thesis using s OnFrame d n same by (auto simp: mcu_vtable_def mcu_on_frame_def split: if_splits)
  next
    case LinkConnect
    then show ?thesis using s q
      by (auto simp: mcu_vtable_def mcu_on_link_connect_def mcu_session_def
          intro!: writes_quiet [of "\<lambda>c. wrote c = []"] emits_send)
  next
    case (Tick n)
    have o: "mcu_writes E [] ch io ch' io'" if "mcu_open_uart E (ch\<lparr>mcu_reopen_at := None\<rparr>) io = Some (ch', io')" "mcu_fd ch = None"
      using mcu_open_uart_writes [OF that(1)] that(2) unfolding writes_def by (simp add: mcu_session_def)
    then show ?thesis using Tick s q same mcu_transition_writes [of E Resetting ch io ch' io']
      by (auto simp: mcu_vtable_def mcu_tick_def split: option.splits if_splits)
  next
    case (Event tk r wr)
    then obtain ch1 io1 where r: "(if r then mcu_uart_read E ch io else Some (ch, io)) = Some (ch1, io1)"
      and d: "(if wr then mcu_uart_drain E ch1 io1 else Some (ch1, io1)) = Some (ch', io')"
      using s by (auto simp: mcu_vtable_def mcu_handle_event_def split: bind_splits)
    have "mcu_writes E [] ch io ch1 io1" using r mcu_uart_read_writes [OF E ok q] same by (auto split: if_splits)
    moreover have "mcu_writes E [] ch1 io1 ch' io'"
      using d mcu_uart_drain_writes [of E ch1 io1 ch' io' ch1 "[]"] E by (auto split: if_splits intro: writes_same)
    ultimately show ?thesis using writes_trans Event by fastforce
  next
    case Close
    then show ?thesis using s mcu_close_uart_writes by (auto simp: mcu_vtable_def mcu_close_def)
  qed (use s that upd same in \<open>auto simp: mcu_vtable_def mcu_pause_source_reads_def mcu_resume_source_reads_def split: if_splits\<close>)
  show ?thesis
  proof (cases "x = LinkDisconnect")
    case True
    then have u: "mcu_update_interest (ch\<lparr>mcu_link_up := False, mcu_txbuf := []\<rparr>) io = Some (ch', io')"
      using s by (simp add: mcu_vtable_def mcu_on_link_disconnect_def)
    obtain cs where "io_log io' = io_log io @ cs" "list_all reg_call cs"
      using mcu_update_interest_keeps(1) [OF u] by (auto simp: emits_def)
    then show ?thesis using True mcu_update_interest_keeps(2) [OF u] written_none [of reg_call cs] reg_call_wrote
      by (intro writes_dropped [of _ _ cs]) simp_all
  qed (use w in simp)
qed

interpretation mcu_writing: writing_channel mcu_vtable mcu_ok mcu_view mcu_session mcu_ends mcu_txbuf "\<lambda>x. x \<noteq> LinkDisconnect"
  by unfold_locales (rule mcu_step_writes)

text \<open>C7: what the firmware reads from the UART.  In any run of an MCU channel the bytes written to the UART,
  followed by those still in its buffer, are in order a part of the buffer before and the payloads of the
  \<open>F_DATA\<close> frames received.  While the firmware is active, the link stays up, the UART stays open and no write
  fails for good, nothing is lost either.\<close>

theorem mcu_delivers:
  assumes "env_ok E" "mcu_ok ch" "txq_inv (io_txq io)" "list_all (op_allowed (mcu_view ch)) xs"
  shows "\<exists>ch' io' cs. chan_run mcu_vtable E xs ch io = Some (ch', io') \<and> io_log io' = io_log io @ cs
     \<and> subseq (written cs @ mcu_txbuf ch') (mcu_txbuf ch @ concat (map fed xs))
     \<and> (steady E \<and> mcu_fd ch \<noteq> None \<and> mcu_state ch = Active \<and> mcu_link_up ch
          \<and> list_all (\<lambda>x. x \<noteq> LinkDisconnect) xs \<and> list_all (\<lambda>c. \<not> mcu_ends c) cs \<longrightarrow>
          written cs @ mcu_txbuf ch' = mcu_txbuf ch @ concat (map fed xs))"
  using mcu_writing.run_writes [OF assms] unfolding writes_def mcu_session_def by blast

text \<open>An active firmware, with data already in the buffer.\<close>

theorem mcu_delivers_witness:
  "\<exists>ch' io' cs. chan_run mcu_vtable example_env [OnFrame F_DATA [1, 2], Event 2 False True, OnFrame F_DATA [3]]
       (example_mcu\<lparr>mcu_state := Active, mcu_link_up := True, mcu_last_rx := Some 0, mcu_txbuf := [0]\<rparr>) io_new
       = Some (ch', io')
     \<and> io_log io' = cs \<and> written cs @ mcu_txbuf ch' = [0, 1, 2, 3]"
proof -
  let ?ch = "example_mcu\<lparr>mcu_state := Active, mcu_link_up := True, mcu_last_rx := Some 0, mcu_txbuf := [0]\<rparr>"
  let ?xs = "[OnFrame F_DATA [1, 2], Event 2 False True, OnFrame F_DATA [3]]"
  have ok: "mcu_ok ?ch" using example_mcu_ok by (simp add: mcu_inv_defs example_mcu_def)
  have st: "steady example_env" by (simp add: steady_def example_env_def)
  have lasts: "list_all (\<lambda>c. \<not> mcu_ends c) (io_log io')" if "chan_run mcu_vtable example_env ?xs ?ch io_new = Some (ch', io')" for ch' io'
    using that
    by (auto simp: mcu_vtable_def mcu_on_frame_def mcu_handle_event_def mcu_uart_drain_def mcu_update_interest_def sync_interest_def
        write_nonblock_def drain_front_def example_mcu_def example_env_def wanted_interest_def io_defs
        call_def next_call_def frame_types split: bind_splits option.splits if_splits)
  show ?thesis
    using mcu_delivers [OF example_env_ok ok, of io_new ?xs] st lasts
    by (auto simp: mcu_view_def example_mcu_def)
qed

end
