(* ===== verification/Pty.thy ===== *)
theory Pty
  imports Channel_Spec
begin

text \<open>
  The host-side MCU channel (\<^verbatim>\<open>channel.rs\<close>, \<open>PtyChannel\<close>): a PTY pair behind a well-known
  symbolic link, opened on \<open>F_READY\<close> and closed on \<open>F_FLUSH\<close>, on a link change, or when the
  last reader of the slave side goes away.
\<close>

record pty_channel =
  pty_ch_id :: u8
  pty_symlink :: string
  pty_baud :: u32
  pty_master_fd :: "fd option"
  pty_slave_fd :: "fd option"
  pty_master_in_sel :: bool
  pty_txbuf :: bytes
  pty_bp_paused :: bool


section \<open>The PTY pair\<close>

text \<open>The result of \<open>remove_file\<close> is ignored; the trace records the attempt.\<close>

definition pty_remove_symlink :: "pty_channel \<Rightarrow> io \<Rightarrow> io" where
  "pty_remove_symlink ch io = call (RemoveFile (pty_symlink ch)) io"

definition pty_new :: "u8 \<Rightarrow> string \<Rightarrow> u32 \<Rightarrow> io \<Rightarrow> pty_channel \<times> io" where
  "pty_new ch_id symlink baud io =
     (let ch = \<lparr>pty_ch_id = ch_id, pty_symlink = symlink, pty_baud = baud, pty_master_fd = None,
               pty_slave_fd = None, pty_master_in_sel = False, pty_txbuf = [], pty_bp_paused = False\<rparr>
      in (ch, pty_remove_symlink ch io))"

definition pty_update_interest :: "pty_channel \<Rightarrow> io \<Rightarrow> (pty_channel \<times> io) option" where
  "pty_update_interest ch io =
     (case pty_master_fd ch of
        None \<Rightarrow> Some (ch, io)
      | Some f \<Rightarrow> do {
          (in_sel, io) \<leftarrow> sync_interest (pty_ch_id ch) f
             (wanted_interest (pty_bp_paused ch) (pty_txbuf ch)) (pty_master_in_sel ch) io;
          Some (ch\<lparr>pty_master_in_sel := in_sel\<rparr>, io)
        })"

definition pty_open_pty :: "env \<Rightarrow> pty_channel \<Rightarrow> io \<Rightarrow> (pty_channel \<times> io) option" where
  "pty_open_pty E ch io =
     (if pty_master_fd ch \<noteq> None then Some (ch, io)
      else case open_pty_raw E (pty_baud ch) io of
        (Inl e, io) \<Rightarrow> Some (ch, io)
      | (Inr (master, slave), io) \<Rightarrow>
          (case pty_slave_name E slave io of
             (Inl e, io) \<Rightarrow> Some (ch, close_raw slave (close_raw master io))
           | (Inr slave_path, io) \<Rightarrow>
               let io = pty_remove_symlink ch io in
               (case env_symlink E (io_n io) slave_path (pty_symlink ch) of
                  Some e \<Rightarrow> Some (ch, close_raw slave (close_raw master (next_call io)))
                | None \<Rightarrow>
                    pty_update_interest
                      (ch\<lparr>pty_master_fd := Some master, pty_slave_fd := Some slave,
                          pty_master_in_sel := False\<rparr>)
                      (call (Symlink slave_path (pty_symlink ch)) (next_call io)))))"

definition pty_close_pty :: "pty_channel \<Rightarrow> io \<Rightarrow> pty_channel \<times> io" where
  "pty_close_pty ch io =
     (let io = (case pty_master_fd ch of
                  Some f \<Rightarrow> close_raw f (if pty_master_in_sel ch then reg_del f io else io)
                | None \<Rightarrow> io);
          io = (case pty_slave_fd ch of Some f \<Rightarrow> close_raw f io | None \<Rightarrow> io);
          ch = ch\<lparr>pty_master_fd := None, pty_slave_fd := None, pty_master_in_sel := False, pty_txbuf := []\<rparr>
      in (ch, pty_remove_symlink ch io))"

definition pty_drain :: "env \<Rightarrow> pty_channel \<Rightarrow> io \<Rightarrow> (pty_channel \<times> io) option" where
  "pty_drain E ch io =
     (case pty_master_fd ch of
        None \<Rightarrow> Some (ch, io)
      | Some f \<Rightarrow>
          if pty_txbuf ch = [] then Some (ch, io)
          else (case write_nonblock E f (pty_txbuf ch) io of
              (Inr n, io) \<Rightarrow>
                if n = 0 then pty_update_interest ch io
                else do {
                  rest \<leftarrow> drain_front n (pty_txbuf ch);
                  pty_update_interest (ch\<lparr>pty_txbuf := rest\<rparr>) io
                }
            | (Inl e, io) \<Rightarrow> pty_update_interest (ch\<lparr>pty_txbuf := []\<rparr>) io))"


section \<open>The channel interface\<close>

definition pty_on_frame ::
  "env \<Rightarrow> u8 \<Rightarrow> bytes \<Rightarrow> pty_channel \<Rightarrow> io \<Rightarrow> (pty_channel \<times> io) option" where
  "pty_on_frame E ftype payload ch io =
     (if ftype = F_FLUSH then Some (pty_close_pty ch io)
      else if ftype = F_READY then pty_open_pty E ch io
      else if ftype = F_DATA then
        (if pty_master_fd ch \<noteq> None
         then pty_drain E (ch\<lparr>pty_txbuf := pty_txbuf ch @ payload\<rparr>) io
         else Some (ch, io))
      else Some (ch, io))"

definition pty_on_link_connect :: "env \<Rightarrow> pty_channel \<Rightarrow> io \<Rightarrow> (pty_channel \<times> io) option" where
  "pty_on_link_connect E ch io = Some (pty_close_pty ch io)"

definition pty_on_link_disconnect :: "pty_channel \<Rightarrow> io \<Rightarrow> (pty_channel \<times> io) option" where
  "pty_on_link_disconnect ch io = Some (pty_close_pty ch io)"

definition pty_tick :: "env \<Rightarrow> instant \<Rightarrow> pty_channel \<Rightarrow> io \<Rightarrow> (pty_channel \<times> io) option" where
  "pty_tick E t ch io = Some (ch, io)"

definition pty_next_deadline :: "pty_channel \<Rightarrow> instant option" where
  "pty_next_deadline ch = None"

text \<open>The early return on a closed PTY leaves the handler before the write half.\<close>

definition pty_handle_event ::
  "env \<Rightarrow> token \<Rightarrow> bool \<Rightarrow> bool \<Rightarrow> pty_channel \<Rightarrow> io \<Rightarrow> (pty_channel \<times> io) option" where
  "pty_handle_event E token readable writable ch io =
     (if readable \<and> pty_master_fd ch = None then Some (ch, io)
      else do {
        (ch, io) \<leftarrow>
          (case (readable, pty_master_fd ch) of
             (True, Some f) \<Rightarrow>
               (case read_nonblock E f 4096 io of
                  (Inr (Some data), io) \<Rightarrow>
                    if length data > 0
                    then do {
                      io \<leftarrow> txq_enqueue (build_frame (env_crc E) F_DATA (pty_ch_id ch) data) io;
                      Some (ch, io)
                    }
                    else Some (ch, io)
                | (Inl e, io) \<Rightarrow>
                    if e = Os EIO then Some (pty_close_pty ch io) else Some (ch, io)
                | (Inr None, io) \<Rightarrow> Some (ch, io))
           | _ \<Rightarrow> Some (ch, io));
        (if writable then pty_drain E ch io else Some (ch, io))
      })"

definition pty_close :: "pty_channel \<Rightarrow> io \<Rightarrow> (pty_channel \<times> io) option" where
  "pty_close ch io = Some (pty_close_pty ch io)"

definition pty_pause_source_reads :: "pty_channel \<Rightarrow> io \<Rightarrow> (pty_channel \<times> io) option" where
  "pty_pause_source_reads ch io =
     (if \<not> pty_bp_paused ch then pty_update_interest (ch\<lparr>pty_bp_paused := True\<rparr>) io
      else Some (ch, io))"

definition pty_resume_source_reads :: "pty_channel \<Rightarrow> io \<Rightarrow> (pty_channel \<times> io) option" where
  "pty_resume_source_reads ch io =
     (if pty_bp_paused ch then pty_update_interest (ch\<lparr>pty_bp_paused := False\<rparr>) io
      else Some (ch, io))"

definition pty_vtable :: "pty_channel vtable" where
  "pty_vtable = \<lparr>
     vt_channel_id = pty_ch_id, vt_on_frame = pty_on_frame, vt_on_link_connect = pty_on_link_connect,
     vt_on_link_disconnect = (\<lambda>E. pty_on_link_disconnect), vt_tick = pty_tick,
     vt_next_deadline = pty_next_deadline, vt_handle_event = pty_handle_event, vt_close = (\<lambda>E. pty_close),
     vt_pause_source_reads = pty_pause_source_reads,
     vt_resume_source_reads = pty_resume_source_reads\<rparr>"


section \<open>The invariant of the channel\<close>

definition pty_base :: "pty_channel \<Rightarrow> bool" where
  "pty_base ch \<longleftrightarrow> id_ok (pty_ch_id ch) \<and> (pty_master_fd ch = None \<longleftrightarrow> pty_slave_fd ch = None)
     \<and> (pty_master_fd ch = None \<longrightarrow> pty_txbuf ch = [] \<and> \<not> pty_master_in_sel ch)"

definition pty_ok :: "pty_channel \<Rightarrow> bool" where
  "pty_ok ch \<longleftrightarrow> pty_base ch
     \<and> (pty_master_fd ch \<noteq> None \<longrightarrow>
          (pty_master_in_sel ch \<longleftrightarrow> \<not> pty_bp_paused ch \<or> pty_txbuf ch \<noteq> []))"

definition pty_view :: "pty_channel \<Rightarrow> chan_view" where
  "pty_view ch = \<lparr>cv_id = pty_ch_id ch, cv_paused = pty_bp_paused ch, cv_linked = None,
     cv_tokens = {unat (pty_ch_id ch) + 1}\<rparr>"

lemmas pty_inv_defs = pty_ok_def pty_base_def pty_view_def

lemma pty_update_interest_ok:
  assumes "pty_base ch"
  shows "handles (quiet (pty_view ch)) pty_ok pty_view (pty_view ch) io (pty_update_interest ch io)"
proof (cases "pty_master_fd ch")
  case None
  then show ?thesis using assms by (simp add: pty_update_interest_def pty_inv_defs)
next
  case (Some f)
  let ?i = "wanted_interest (pty_bp_paused ch) (pty_txbuf ch)"
  obtain io' where "sync_interest (pty_ch_id ch) f ?i (pty_master_in_sel ch) io = Some (?i \<noteq> None, io')"
    "emits (quiet_call (pty_ch_id ch)) io io'"
    using sync_interest_ok [of "pty_ch_id ch"] assms unfolding pty_base_def by blast
  then show ?thesis using assms Some
    by (auto simp: pty_update_interest_def pty_inv_defs wanted_interest_def Let_def)
qed

lemma pty_update_interest_own:
  "pty_base ch \<Longrightarrow> v = pty_view ch \<Longrightarrow> emits (own E v) io0 io \<Longrightarrow>
   handles (own E v) pty_ok pty_view v io0 (pty_update_interest ch io)"
  using handles_from [OF handles_mono [OF pty_update_interest_ok]] quiet_own by blast

lemma pty_close_pty_ok:
  assumes "pty_ok ch"
  shows "handles (quiet (pty_view ch)) pty_ok pty_view (pty_view ch) io (Some (pty_close_pty ch io))"
  using assms
  by (auto simp: pty_close_pty_def pty_remove_symlink_def pty_inv_defs Let_def io_defs quiet_call_def
      intro!: emits_call split: option.splits)

lemma pty_close_pty_own:
  "pty_ok ch \<Longrightarrow> v = pty_view ch \<Longrightarrow> emits (own E v) io0 io \<Longrightarrow>
   handles (own E v) pty_ok pty_view v io0 (Some (pty_close_pty ch io))"
  using handles_from [OF handles_mono [OF pty_close_pty_ok]] quiet_own by blast

lemma pty_drain_ok:
  assumes "env_ok E" "pty_base ch" "pty_master_fd ch = None \<or> pty_txbuf ch = [] \<longrightarrow> pty_ok ch"
  shows "handles (own E (pty_view ch)) pty_ok pty_view (pty_view ch) io (pty_drain E ch io)"
proof (cases "pty_master_fd ch = None \<or> pty_txbuf ch = []")
  case True
  then show ?thesis using assms by (auto simp: pty_drain_def split: option.splits)
next
  case False
  then obtain f where f: "pty_master_fd ch = Some f" "pty_txbuf ch \<noteq> []" by auto
  have upd: "handles (own E (pty_view ch)) pty_ok pty_view (pty_view ch) io
      (pty_update_interest (ch\<lparr>pty_txbuf := bs\<rparr>) io1)"
    if "emits (own E (pty_view ch)) io io1" for bs io1
    using assms(2) f that by (intro pty_update_interest_own) (auto simp: pty_inv_defs)
  show ?thesis
  proof (cases "env_write E (io_n io) f (pty_txbuf ch)")
    case (WriteErr e)
    then show ?thesis using f upd [of _ "[]"] upd [of _ "pty_txbuf ch"]
      by (auto simp: pty_drain_def write_nonblock_def)
  next
    case (Written n)
    have n: "n \<le> length (pty_txbuf ch)" using env_ok_write [OF assms(1) Written] .
    let ?io = "call (Wrote f (take n (pty_txbuf ch))) (next_call io)"
    have "emits (own E (pty_view ch)) io ?io" by (intro emits_call) auto
    then show ?thesis using f n Written upd [of ?io "drop n (pty_txbuf ch)"] upd [of ?io "pty_txbuf ch"]
      by (auto simp: pty_drain_def write_nonblock_def panic_free)
  qed
qed

lemma emits_open_pty:
  assumes "open_pty_raw E baud io = (r, io')" "\<And>f a. P (OpenFd f) \<and> P (SetTermios f a)"
  shows "emits P io io'"
proof (cases "env_openpty E (io_n io)")
  case (Inl e)
  with assms(1) show ?thesis by (auto simp: open_pty_raw_def)
next
  case (Inr p)
  obtain m s where p: "p = (m, s)" by fastforce
  let ?io = "call (OpenFd s) (call (OpenFd m) (next_call io))"
  obtain r1 io1 where a: "apply_termios E s baud ?io = (r1, io1)" by fastforce
  have "emits P io ?io" by (intro emits_call) (use assms(2) in auto)
  moreover have "emits P ?io io1"
    using apply_termios_trace [OF a] assms(2) unfolding emits_def by (cases r1) auto
  ultimately have e: "emits P io io1" by (rule emits_trans)
  obtain r2 io2 where b: "set_nonblock E m io1 = (r2, io2)" by fastforce
  have "emits P io io2" using e set_nonblock_trace [OF b] unfolding emits_def by auto
  with e show ?thesis using assms(1) Inr p a b by (cases r1; cases r2) (auto simp: open_pty_raw_def)
qed

lemma pty_open_pty_ok:
  assumes "pty_ok ch"
  shows "handles (own E (pty_view ch)) pty_ok pty_view (pty_view ch) io (pty_open_pty E ch io)"
proof (cases "pty_master_fd ch")
  case (Some f)
  then show ?thesis using assms by (simp add: pty_open_pty_def)
next
  case None
  obtain r io1 where o: "open_pty_raw E (pty_baud ch) io = (r, io1)" by fastforce
  have e: "emits (own E (pty_view ch)) io io1" by (rule emits_open_pty [OF o]) simp
  show ?thesis
  proof (cases r)
    case (Inl x)
    then show ?thesis using None o e assms by (simp add: pty_open_pty_def)
  next
    case (Inr p)
    obtain m s where p: "p = (m, s)" by fastforce
    have nm: "(\<exists>x. pty_slave_name E s io1 = (Inl x, next_call io1)) \<or> (\<exists>n. pty_slave_name E s io1 = (Inr n, next_call io1))"
      by (cases "env_read_link E (io_n io1) s") (auto simp: pty_slave_name_def)
    have upd: "handles (own E (pty_view ch)) pty_ok pty_view (pty_view ch) io
       (pty_update_interest (ch\<lparr>pty_master_fd := Some m, pty_slave_fd := Some s, pty_master_in_sel := False\<rparr>) io2)"
      if "emits (own E (pty_view ch)) io io2" for io2
      using assms that by (intro pty_update_interest_own) (auto simp: pty_inv_defs)
    from nm show ?thesis using None o e Inr p assms
      by (auto simp: pty_open_pty_def pty_remove_symlink_def Let_def io_defs split: option.splits
          intro!: emits_call emits_next upd)
  qed
qed

lemma pty_read_ok:
  assumes "env_ok E" "pty_ok ch" "txq_inv (io_txq io)"
  shows "handles (own E (pty_view ch)) pty_ok pty_view (pty_view ch) io
    (case read_nonblock E f 4096 io of
       (Inr (Some data), io) \<Rightarrow>
         if length data > 0
         then do {
           io \<leftarrow> txq_enqueue (build_frame (env_crc E) F_DATA (pty_ch_id ch) data) io;
           Some (ch, io)
         }
         else Some (ch, io)
     | (Inl e, io) \<Rightarrow>
         if e = Os EIO then Some (pty_close_pty ch io) else Some (ch, io)
     | (Inr None, io) \<Rightarrow> Some (ch, io))"
proof -
  obtain x where x: "read_nonblock E f 4096 io = (x, next_call io)"
    "\<forall>data. x = Inr (Some data) \<longrightarrow> length data \<le> 4096"
    using read_nonblock_next [OF assms(1)] by blast
  then show ?thesis using assms pty_close_pty_own [OF assms(2) refl, of E io "next_call io"]
    by (auto split: sum.splits option.splits intro!: emits_send own_frameI
        simp: pty_view_def mux_consts)
qed

lemma pty_handle_event_ok:
  assumes E: "env_ok E" and ok: "pty_ok ch" and q: "txq_inv (io_txq io)"
  shows "handles (own E (pty_view ch)) pty_ok pty_view (pty_view ch) io (pty_handle_event E tk r w ch io)"
proof (cases "r \<and> pty_master_fd ch = None")
  case True
  then show ?thesis using ok by (simp add: pty_handle_event_def)
next
  case False
  show ?thesis
    unfolding pty_handle_event_def if_not_P [OF False]
  proof (rule handles_bind [OF _ emits_refl])
    show "handles (own E (pty_view ch)) pty_ok pty_view (pty_view ch) io
      (case (r, pty_master_fd ch) of
         (True, Some f) \<Rightarrow>
           (case read_nonblock E f 4096 io of
              (Inr (Some data), io) \<Rightarrow>
                if length data > 0
                then do {
                  io \<leftarrow> txq_enqueue (build_frame (env_crc E) F_DATA (pty_ch_id ch) data) io;
                  Some (ch, io)
                }
                else Some (ch, io)
            | (Inl e, io) \<Rightarrow> if e = Os EIO then Some (pty_close_pty ch io) else Some (ch, io)
            | (Inr None, io) \<Rightarrow> Some (ch, io))
       | _ \<Rightarrow> Some (ch, io))"
      using pty_read_ok [OF E ok q] ok by (simp split: bool.split option.split)
    fix ch' io' assume a: "pty_ok ch'" "pty_view ch' = pty_view ch" "emits (own E (pty_view ch)) io io'"
    then show "handles (own E (pty_view ch)) pty_ok pty_view (pty_view ch) io
        (if w then pty_drain E ch' io' else Some (ch', io'))"
      using handles_from [OF pty_drain_ok [OF E, of ch']] by (simp add: pty_ok_def)
  qed
qed

interpretation pty: channel pty_vtable pty_ok pty_view
proof unfold_locales
  fix E ch io t p n tk r w
  show "vt_channel_id pty_vtable ch = cv_id (pty_view ch)" by (simp add: pty_vtable_def pty_view_def)
  show "pty_ok ch \<Longrightarrow> id_ok (cv_id (pty_view ch))" by (simp add: pty_inv_defs)
  assume ok: "pty_ok ch"
  have linked: "view_step LinkConnect (pty_view ch) = pty_view ch"
    "view_step LinkDisconnect (pty_view ch) = pty_view ch" by (simp_all add: pty_view_def)
  show "handles (quiet (pty_view ch)) pty_ok pty_view (pty_view ch) io (vt_close pty_vtable E ch io)"
    using pty_close_pty_ok [OF ok] by (simp add: pty_vtable_def pty_close_def)
  show "handles (quiet (pty_view ch)) pty_ok pty_view (view_step LinkDisconnect (pty_view ch)) io
      (vt_on_link_disconnect pty_vtable E ch io)"
    unfolding linked using pty_close_pty_ok [OF ok] by (simp add: pty_vtable_def pty_on_link_disconnect_def)
  have upd: "handles (quiet (pty_view ch)) pty_ok pty_view (pty_view ch') io (pty_update_interest ch' io)"
    if "pty_base ch'" "pty_ch_id ch' = pty_ch_id ch" for ch'
    using pty_update_interest_ok [OF that(1)] that(2) by (simp add: pty_view_def)
  show "handles (quiet (pty_view ch)) pty_ok pty_view (view_step Pause (pty_view ch)) io
      (vt_pause_source_reads pty_vtable ch io)"
    using upd [of "ch\<lparr>pty_bp_paused := True\<rparr>"] ok
    by (auto simp: pty_vtable_def pty_pause_source_reads_def pty_inv_defs)
  show "handles (quiet (pty_view ch)) pty_ok pty_view (view_step Resume (pty_view ch)) io
      (vt_resume_source_reads pty_vtable ch io)"
    using upd [of "ch\<lparr>pty_bp_paused := False\<rparr>"] ok
    by (auto simp: pty_vtable_def pty_resume_source_reads_def pty_inv_defs)
  assume E: "env_ok E" and q: "txq_inv (io_txq io)"
  show "handles (own E (pty_view ch)) pty_ok pty_view (view_step LinkConnect (pty_view ch)) io
      (vt_on_link_connect pty_vtable E ch io)"
    unfolding linked using pty_close_pty_own [OF ok refl emits_refl]
    by (simp add: pty_vtable_def pty_on_link_connect_def)
  show "handles (own E (pty_view ch)) pty_ok pty_view (pty_view ch) io (vt_on_frame pty_vtable E t p ch io)"
  proof -
    let ?ch = "ch\<lparr>pty_txbuf := pty_txbuf ch @ p\<rparr>"
    have v: "pty_view ?ch = pty_view ch" by (simp add: pty_view_def)
    have "handles (own E (pty_view ch)) pty_ok pty_view (pty_view ch) io (pty_drain E ?ch io)"
      if "pty_master_fd ch \<noteq> None"
    proof (rule pty_drain_ok [OF E, of ?ch, unfolded v])
      show "pty_base ?ch" "pty_master_fd ?ch = None \<or> pty_txbuf ?ch = [] \<longrightarrow> pty_ok ?ch"
        using ok that by (auto simp: pty_inv_defs)
    qed
    then show ?thesis
      using pty_close_pty_own [OF ok refl emits_refl] pty_open_pty_ok [OF ok] ok
      by (simp add: pty_vtable_def pty_on_frame_def)
  qed
  show "handles (own E (pty_view ch)) pty_ok pty_view (pty_view ch) io (vt_tick pty_vtable E n ch io)"
    using ok by (simp add: pty_vtable_def pty_tick_def)
  show "handles (own E (pty_view ch)) pty_ok pty_view (pty_view ch) io
      (vt_handle_event pty_vtable E tk r w ch io)"
    using pty_handle_event_ok [OF E ok q] by (simp add: pty_vtable_def)
qed



section \<open>Idle while the link is down\<close>

definition pty_idle :: "pty_channel \<Rightarrow> bool" where
  "pty_idle ch \<longleftrightarrow> pty_master_fd ch = None"

lemma pty_close_pty_txq:
  "pty_close_pty ch io = (ch', io') \<Longrightarrow> pty_idle ch' \<and> io_txq io' = io_txq io"
  by (auto simp: pty_close_pty_def pty_idle_def pty_remove_symlink_def io_defs Let_def split: option.splits)

interpretation pty_idling: idle_channel pty_vtable pty_ok pty_view pty_idle
proof unfold_locales
  fix E ch io ch' io' and x :: chan_op
  show "chan_step pty_vtable E LinkDisconnect ch io = Some (ch', io') \<Longrightarrow> pty_idle ch'"
    using pty_close_pty_txq by (auto simp: pty_vtable_def pty_on_link_disconnect_def)
  assume i: "pty_idle ch" and x: "spontaneous x" and s: "chan_step pty_vtable E x ch io = Some (ch', io')"
  have upd: "pty_update_interest c io = Some (c, io)" if "pty_master_fd c = None" for c
    using that by (simp add: pty_update_interest_def)
  show "pty_idle ch' \<and> io_txq io' = io_txq io"
    using s i x upd pty_close_pty_txq
    by (cases x) (auto simp: pty_vtable_def pty_on_link_disconnect_def pty_tick_def pty_handle_event_def
        pty_close_def pty_pause_source_reads_def pty_resume_source_reads_def pty_drain_def pty_idle_def
        split: if_splits bool.splits)
qed

end
