(* ===== verification/Pty_Props.thy ===== *)
theory Pty_Props
  imports Pty Channel_Writes "HOL-Library.Multiset"
begin

text \<open>
  What the PTY channel does to the outside: the symbolic link that Klipper opens is made for a PTY and its removal is
  requested with the end of the PTY, and descriptors are configured, registered, written and closed only while they are open.
\<close>


section \<open>The symbolic link and the descriptors\<close>

text \<open>The state of the monitor: whether the link was made and no removal was requested since, and the open descriptors.
  The program ignores the result of a removal, so the first component is what it assumes of the link; when a
  removal has failed, the next attempt to make the link fails, and the PTY is closed again.  A violation is a link
  made at another path or while the last one was not removed, another file removed, a descriptor that is not open
  registered, changed, deregistered, configured, written or closed, and data taken from or given to Klipper while
  there is no link.\<close>

fun link_call :: "string \<Rightarrow> bool \<times> fd list \<Rightarrow> call \<Rightarrow> (bool \<times> fd list) option" where
  "link_call p (l, fds) (Symlink t q) = (if q = p \<and> \<not> l then Some (True, fds) else None)"
| "link_call p (l, fds) (RemoveFile q) = (if q = p then Some (False, fds) else None)"
| "link_call p (l, fds) (OpenFd f) = Some (l, f # fds)"
| "link_call p (l, fds) (CloseFd f) = (if f \<in> set fds then Some (l, remove1 f fds) else None)"
| "link_call p (l, fds) (Register f t i) = (if f \<in> set fds then Some (l, fds) else None)"
| "link_call p (l, fds) (Reregister f t i) = (if f \<in> set fds then Some (l, fds) else None)"
| "link_call p (l, fds) (Deregister f) = (if f \<in> set fds then Some (l, fds) else None)"
| "link_call p (l, fds) (SetTermios f a) = (if f \<in> set fds then Some (l, fds) else None)"
| "link_call p (l, fds) (Wrote f bs) = (if l \<and> f \<in> set fds then Some (l, fds) else None)"
| "link_call p (l, fds) (Enqueue f) = (if l then Some (l, fds) else None)"
| "link_call p m _ = Some m"

definition pty_fds :: "pty_channel \<Rightarrow> fd list" where
  "pty_fds ch = (case (pty_master_fd ch, pty_slave_fd ch) of (Some m, Some s) \<Rightarrow> [m, s] | _ \<Rightarrow> [])"

definition linked :: "string \<Rightarrow> pty_channel \<Rightarrow> bool \<times> fd list \<Rightarrow> bool" where
  "linked p ch m \<longleftrightarrow> pty_symlink ch = p \<and> fst m = (pty_master_fd ch \<noteq> None) \<and> mset (pty_fds ch) \<subseteq># mset (snd m)"

abbreviation links :: "string \<Rightarrow> pty_channel \<Rightarrow> io \<Rightarrow> pty_channel \<Rightarrow> io \<Rightarrow> bool" where
  "links p \<equiv> follows (link_call p) (linked p)"

text \<open>While the PTY is open the monitor knows both descriptors.\<close>

lemma linked_open:
  assumes "linked p ch m" "pty_master_fd ch = Some f" "pty_slave_fd ch = Some s"
  obtains fds where "m = (True, fds)" "f \<in> set fds" "s \<in> set (remove1 f fds)"
proof -
  have "{#f, s#} \<subseteq># mset (snd m)" "fst m" using assms by (simp_all add: linked_def pty_fds_def)
  then have "f \<in># mset (snd m)" "s \<in># mset (remove1 f (snd m))" by (simp_all add: insert_subset_eq_iff)
  then have "f \<in> set (snd m)" "s \<in> set (remove1 f (snd m))" unfolding set_mset_mset .
  then show thesis using that [of "snd m"] \<open>fst m\<close> by (cases m) simp
qed

text \<open>Calls on an open descriptor that leave it open.\<close>

fun reg_fd :: "call \<Rightarrow> fd option" where
  "reg_fd (Register f t i) = Some f"
| "reg_fd (Reregister f t i) = Some f"
| "reg_fd (Deregister f) = Some f"
| "reg_fd (SetTermios f a) = Some f"
| "reg_fd _ = None"

lemma mon_on: "list_all (\<lambda>c. reg_fd c = Some f) cs \<Longrightarrow> f \<in> set fds \<Longrightarrow> mon_run (link_call p) (l, fds) cs = Some (l, fds)"
proof (induction cs)
  case (Cons c cs)
  then show ?case by (cases c) auto
qed simp

lemma sync_interest_on: "sync_interest c f i s io = Some (s', io') \<Longrightarrow> emits (\<lambda>c. reg_fd c = Some f) io io'"
  by (cases i; cases s) (auto simp: sync_interest_def io_defs intro!: emits_call split: bind_splits)

lemma pty_update_interest_links:
  assumes "pty_update_interest ch io = Some (ch', io')" "\<And>m. linked p ch0 m \<Longrightarrow> linked p ch m"
    and "pty_master_fd ch \<noteq> None \<Longrightarrow> pty_slave_fd ch \<noteq> None"
  shows "links p ch0 io ch' io'"
proof -
  have same: "pty_fds ch' = pty_fds ch" "pty_symlink ch' = pty_symlink ch" "pty_master_fd ch' = pty_master_fd ch"
    using assms(1) by (auto simp: pty_update_interest_def pty_fds_def split: option.splits bind_splits)
  then have l: "linked p ch' m" if "linked p ch0 m" for m using assms(2) [OF that] by (simp add: linked_def)
  show ?thesis
  proof (cases "pty_master_fd ch")
    case None
    then have "io' = io" using assms(1) by (simp add: pty_update_interest_def)
    then show ?thesis using follows_same [of "linked p" ch0 ch'] l by blast
  next
    case (Some f)
    then obtain s where s: "pty_slave_fd ch = Some s" using assms(3) by auto
    have "emits (\<lambda>c. reg_fd c = Some f) io io'" using assms(1) Some sync_interest_on
      by (auto simp: pty_update_interest_def split: bind_splits)
    then obtain cs where cs: "io_log io' = io_log io @ cs" "list_all (\<lambda>c. reg_fd c = Some f) cs" by (auto simp: emits_def)
    have "mon_run (link_call p) m cs = Some m" if "linked p ch0 m" for m
      using linked_open [OF assms(2) [OF that] Some s] mon_on [OF cs(2)] by metis
    then show ?thesis using cs(1) l unfolding follows_def by blast
  qed
qed

lemma pty_close_pty_links:
  assumes "pty_close_pty ch io = (ch', io')" "pty_ok ch"
  shows "links p ch io ch' io'"
proof (cases "pty_master_fd ch")
  case None
  then have "pty_slave_fd ch = None" using assms(2) by (simp add: pty_inv_defs)
  then show ?thesis using assms(1) None
    by (auto simp: pty_close_pty_def pty_remove_symlink_def linked_def pty_fds_def intro!: follows_call)
next
  case (Some f)
  then obtain s where s: "pty_slave_fd ch = Some s" using assms(2) by (auto simp: pty_inv_defs)
  let ?cs = "(if pty_master_in_sel ch then [Deregister f] else []) @ [CloseFd f, CloseFd s, RemoveFile (pty_symlink ch)]"
  have l: "io_log io' = io_log io @ ?cs" and c: "pty_master_fd ch' = None" "pty_slave_fd ch' = None" "pty_symlink ch' = pty_symlink ch"
    using assms(1) Some s by (auto simp: pty_close_pty_def pty_remove_symlink_def io_defs call_def Let_def)
  have "\<exists>m'. mon_run (link_call p) m ?cs = Some m' \<and> linked p ch' m'" if m: "linked p ch m" for m
  proof -
    obtain fds where "m = (True, fds)" "f \<in> set fds" "s \<in> set (remove1 f fds)" by (rule linked_open [OF m Some s])
    then show ?thesis using m c by (auto simp: linked_def pty_fds_def)
  qed
  then show ?thesis using l unfolding follows_def by blast
qed

lemma pty_drain_links:
  assumes "pty_drain E ch io = Some (ch', io')" "pty_base ch"
    and "pty_master_fd ch0 = pty_master_fd ch" "pty_slave_fd ch0 = pty_slave_fd ch" "pty_symlink ch0 = pty_symlink ch"
  shows "links p ch0 io ch' io'"
proof (cases "pty_master_fd ch = None \<or> pty_txbuf ch = []")
  case True
  then have "ch' = ch" "io' = io" using assms(1) by (auto simp: pty_drain_def split: option.splits)
  then show ?thesis using assms(3-5) by (auto simp: linked_def pty_fds_def intro!: follows_same)
next
  case False
  then obtain f s where f: "pty_master_fd ch = Some f" "pty_slave_fd ch = Some s" "pty_txbuf ch \<noteq> []"
    using assms(2) by (auto simp: pty_base_def)
  have upd: "links p ch0 io1 ch' io'" if "pty_update_interest (ch\<lparr>pty_txbuf := bs\<rparr>) io1 = Some (ch', io')" for bs io1
    by (rule pty_update_interest_links [OF that]) (use assms(3-5) f(2) in \<open>simp_all add: linked_def pty_fds_def\<close>)
  have upd0: "links p ch0 io1 ch' io'" if "pty_update_interest ch io1 = Some (ch', io')" for io1
    using upd [of "pty_txbuf ch"] that by simp
  have w: "links p ch0 io ch0 (call (Wrote f bs) (next_call io))" for bs
    unfolding follows_next(1) [symmetric, where io = io]
    by (rule follows_call, frule linked_open [of p ch0 _ f s]) (use f assms(3,4) in auto)
  show ?thesis
  proof (cases "env_write E (io_n io) f (pty_txbuf ch)")
    case (WriteErr e)
    then show ?thesis using assms(1) f upd [of "[]" "next_call io"] upd0 [of "next_call io"]
      by (auto simp: pty_drain_def write_nonblock_def split: if_splits)
  next
    case (Written n)
    let ?io = "call (Wrote f (take n (pty_txbuf ch))) (next_call io)"
    have "links p ch0 ?io ch' io'"
      using assms(1) f Written upd [of "drop n (pty_txbuf ch)" ?io] upd0 [of ?io]
      by (auto simp: pty_drain_def write_nonblock_def drain_front_def split: if_splits bind_splits)
    then show ?thesis by (rule follows_trans [OF w])
  qed
qed

text \<open>Opening a PTY.  On some error paths the descriptors stay open, which the monitor allows.\<close>

lemma open_pty_trace:
  assumes "open_pty_raw E baud io = (r, io')"
  obtains (none) "io_log io' = io_log io" "\<exists>e. r = Inl e"
    | (pair) m s ds where "io_log io' = io_log io @ [OpenFd m, OpenFd s] @ ds" "list_all (\<lambda>c. reg_fd c = Some s) ds"
        "r = Inr (m, s) \<or> (\<exists>e. r = Inl e)"
proof (cases "env_openpty E (io_n io)")
  case (Inl e)
  with assms show thesis by (intro none) (auto simp: open_pty_raw_def)
next
  case (Inr q)
  obtain m s where q: "q = (m, s)" by fastforce
  let ?io = "call (OpenFd s) (call (OpenFd m) (next_call io))"
  obtain r1 io1 where a: "apply_termios E s baud ?io = (r1, io1)" by fastforce
  obtain r2 io2 where b: "set_nonblock E m io1 = (r2, io2)" by fastforce
  obtain ds where d: "io_log io1 = io_log ?io @ ds" "list_all (\<lambda>c. reg_fd c = Some s) ds"
    using apply_termios_trace [OF a] by (cases r1) auto
  have "io_log io2 = io_log io1" using set_nonblock_trace [OF b] by simp
  then have "io_log io' = io_log io @ [OpenFd m, OpenFd s] @ ds"
    using assms Inr q a b d(1) by (cases r1; cases r2) (auto simp: open_pty_raw_def call_def)
  moreover have "r = Inr (m, s) \<or> (\<exists>e. r = Inl e)"
    using assms Inr q a b by (cases r1; cases r2) (auto simp: open_pty_raw_def)
  ultimately show thesis using d(2) by (intro pair)
qed

lemma mon_pair:
  "list_all (\<lambda>c. reg_fd c = Some s) ds \<Longrightarrow>
   mon_run (link_call p) (l, fds) ([OpenFd f, OpenFd s] @ ds @ es) = mon_run (link_call p) (l, s # f # fds) es"
  by (simp add: mon_run_append mon_on)

lemma pty_open_pair_links:
  assumes "pty_open_pty E ch io = Some (ch', io')" "pty_master_fd ch = None"
    and o: "open_pty_raw E (pty_baud ch) io = (Inr (f, s), io1)"
    and l: "io_log io1 = io_log io @ [OpenFd f, OpenFd s] @ ds" "list_all (\<lambda>c. reg_fd c = Some s) ds"
  shows "links p ch io ch' io'"
proof -
  let ?cs = "[OpenFd f, OpenFd s] @ ds"
  note None = assms(2) and run = mon_pair [OF l(2), of p]
  have fds: "pty_fds ch = []" using None by (simp add: pty_fds_def)
  have gone: "links p ch io ch (close_raw s (close_raw f io2))"
    if "io_log io2 = io_log io @ ?cs @ rm" "rm = [] \<or> rm = [RemoveFile (pty_symlink ch)]" for io2 rm
    unfolding follows_def
    by (intro exI [of _ "?cs @ rm @ [CloseFd f, CloseFd s]"])
       (use that None fds run in \<open>auto simp: linked_def close_raw_def call_def\<close>)
  let ?ch = "ch\<lparr>pty_master_fd := Some f, pty_slave_fd := Some s, pty_master_in_sel := False\<rparr>"
  have made: "links p ch io ?ch io2"
    if "io_log io2 = io_log io @ ?cs @ [RemoveFile (pty_symlink ch), Symlink t (pty_symlink ch)]" for io2 t
    unfolding follows_def
    by (intro exI [of _ "?cs @ [RemoveFile (pty_symlink ch), Symlink t (pty_symlink ch)]"])
       (use that None run in \<open>auto simp: linked_def pty_fds_def\<close>)
  show ?thesis
  proof (cases "env_read_link E (io_n io1) s")
    case (Inl e)
    then show ?thesis using assms(1) None o gone [of "next_call io1" "[]"] l(1)
      by (auto simp: pty_open_pty_def pty_slave_name_def)
  next
    case n: (Inr t)
    let ?io = "pty_remove_symlink ch (next_call io1)"
    have log: "io_log ?io = io_log io @ ?cs @ [RemoveFile (pty_symlink ch)]"
      using l(1) by (simp add: pty_remove_symlink_def call_def)
    show ?thesis
    proof (cases "env_symlink E (io_n ?io) t (pty_symlink ch)")
      case (Some e)
      then show ?thesis using assms(1) None o n gone [of "next_call ?io" "[RemoveFile (pty_symlink ch)]"] log
        by (auto simp: pty_open_pty_def pty_slave_name_def Let_def)
    next
      case ok: None
      let ?io2 = "call (Symlink t (pty_symlink ch)) (next_call ?io)"
      have u: "pty_update_interest ?ch ?io2 = Some (ch', io')"
        using assms(1) None o n ok by (simp add: pty_open_pty_def pty_slave_name_def Let_def)
      have "links p ch io ?ch ?io2" by (rule made [of _ t]) (simp add: call_def log)
      then show ?thesis by (rule follows_trans [OF _ pty_update_interest_links [OF u]]) simp_all
    qed
  qed
qed

lemma pty_open_pty_links:
  assumes "pty_open_pty E ch io = Some (ch', io')" "pty_ok ch"
  shows "links p ch io ch' io'"
proof (cases "pty_master_fd ch")
  case (Some f)
  then show ?thesis using assms(1) by (simp add: pty_open_pty_def)
next
  case None
  obtain r io1 where o: "open_pty_raw E (pty_baud ch) io = (r, io1)" by fastforce
  have fds: "pty_fds ch = []" using None by (simp add: pty_fds_def)
  show ?thesis
    using o
  proof (cases rule: open_pty_trace)
    case none
    then have "ch' = ch" "io_log io' = io_log io" using assms(1) None o by (auto simp: pty_open_pty_def)
    then show ?thesis unfolding follows_def by (intro exI [of _ "[]"]) simp
  next
    case (pair f s ds)
    let ?cs = "[OpenFd f, OpenFd s] @ ds"
    note run = mon_pair [OF pair(2), of p]
    show ?thesis
    proof (cases r)
      case (Inl e)
      then have "ch' = ch" "io_log io' = io_log io @ ?cs" using assms(1) None o pair(1) by (auto simp: pty_open_pty_def)
      then show ?thesis unfolding follows_def
        by (intro exI [of _ ?cs]) (use run [of _ _ _ "[]"] None fds in \<open>auto simp: linked_def\<close>)
    next
      case (Inr q)
      then have q: "q = (f, s)" using pair(3) by auto
      show ?thesis using pty_open_pair_links [OF assms(1) None o [unfolded Inr q] pair(1,2)] .
    qed
  qed
qed

lemma pty_handle_event_links:
  assumes E: "env_ok E" and ok: "pty_ok ch" and q: "txq_inv (io_txq io)"
    and s: "pty_handle_event E tk r w ch io = Some (ch', io')"
  shows "links p ch io ch' io'"
proof (cases "r \<and> pty_master_fd ch = None")
  case True
  then show ?thesis using s by (simp add: pty_handle_event_def)
next
  case False
  obtain ch1 io1 where read: "links p ch io ch1 io1" "pty_ok ch1" and d: "(if w then pty_drain E ch1 io1 else Some (ch1, io1)) = Some (ch', io')"
  proof (cases r)
    case True
    then obtain f where f: "pty_master_fd ch = Some f" using False by auto
    obtain x where x: "read_nonblock E f 4096 io = (x, next_call io)" using read_nonblock_next [OF E] by blast
    have send: "links p ch io ch (send bs (next_call io))" for bs
      unfolding follows_next(1) [symmetric, where io = io]
      by (rule follows_send) (use f in \<open>auto simp: linked_def\<close>)
    obtain ch2 io2 where c: "pty_close_pty ch (next_call io) = (ch2, io2)" by fastforce
    have close: "links p ch io ch2 io2" using pty_close_pty_links [OF c ok, of p] by simp
    have ok2: "pty_ok ch2" using pty_close_pty_ok [OF ok, of "next_call io"] c by simp
    have same: "links p ch io ch (next_call io)" by simp
    show thesis using s False True f x c q that [OF same ok] that [OF close ok2] that [OF send ok]
      by (auto simp: pty_handle_event_def split: if_splits sum.splits option.splits)
  next
    case False
    then show thesis using s that [of ch io] ok by (simp add: pty_handle_event_def)
  qed
  have "links p ch1 io1 ch' io'"
    using d pty_drain_links [of E ch1 io1 ch' io' ch1 p] read(2) by (auto simp: pty_ok_def split: if_splits)
  then show ?thesis by (rule follows_trans [OF read(1)])
qed

lemma pty_step_links:
  assumes E: "env_ok E" and ok: "pty_ok ch" and q: "txq_inv (io_txq io)"
    and s: "chan_step pty_vtable E x ch io = Some (ch', io')"
  shows "links p ch io ch' io'"
proof -
  have close: "links p ch io ch' io'" if "pty_close_pty ch io = (ch', io')" using pty_close_pty_links [OF that ok] .
  have upd: "links p ch io ch' io'" if "pty_update_interest (ch\<lparr>pty_bp_paused := b\<rparr>) io = Some (ch', io')" for b
    by (rule pty_update_interest_links [OF that]) (use ok in \<open>auto simp: linked_def pty_fds_def pty_inv_defs\<close>)
  show ?thesis
  proof (cases x)
    case (OnFrame t bs)
    have "links p ch io ch' io'" if "pty_drain E (ch\<lparr>pty_txbuf := pty_txbuf ch @ bs\<rparr>) io = Some (ch', io')" "pty_master_fd ch \<noteq> None"
      by (rule pty_drain_links [OF that(1)]) (use ok that(2) in \<open>auto simp: pty_inv_defs\<close>)
    then show ?thesis using s OnFrame close pty_open_pty_links [OF _ ok]
      by (auto simp: pty_vtable_def pty_on_frame_def split: if_splits)
  next
    case (Event tk r w)
    then show ?thesis using s pty_handle_event_links [OF E ok q] by (auto simp: pty_vtable_def)
  qed (use s close upd in \<open>auto simp: pty_vtable_def pty_on_link_connect_def pty_on_link_disconnect_def
      pty_tick_def pty_close_def pty_pause_source_reads_def pty_resume_source_reads_def split: if_splits\<close>)
qed

interpretation pty_linking: monitored_channel pty_vtable pty_ok pty_view "link_call p" "linked p" for p
  by unfold_locales (rule pty_step_links)

text \<open>C9: in any run of a PTY channel, no call panics, and the calls it makes obey the monitor: the link is made and its
  removal is requested at the configured path only, it is never made again before a removal, and it counts as made
  (made, and no removal requested since) exactly while the PTY is open; a descriptor is registered with the poller,
  changed, deregistered, configured, written and closed only while it is open, and so never after it was closed; and
  data is sent to the link or written to Klipper only while the link counts as made.  After every run, and so before
  every handler, both descriptors of an open PTY are among the open ones.  Reads leave no call in the trace.\<close>

theorem pty_link_safe:
  assumes "env_ok E" "pty_ok ch" "txq_inv (io_txq io)" "list_all (op_allowed (pty_view ch)) xs"
  shows "\<exists>ch' io' cs made fds. chan_run pty_vtable E xs ch io = Some (ch', io') \<and> io_log io' = io_log io @ cs
     \<and> mon_run (link_call (pty_symlink ch)) (pty_master_fd ch \<noteq> None, pty_fds ch) cs = Some (made, fds)
     \<and> made = (pty_master_fd ch' \<noteq> None) \<and> mset (pty_fds ch') \<subseteq># mset fds"
proof -
  have "linked (pty_symlink ch) ch (pty_master_fd ch \<noteq> None, pty_fds ch)" by (simp add: linked_def)
  from pty_linking.run_monitored [OF assms this] obtain ch' io' cs m where
    "chan_run pty_vtable E xs ch io = Some (ch', io')" "io_log io' = io_log io @ cs"
    "mon_run (link_call (pty_symlink ch)) (pty_master_fd ch \<noteq> None, pty_fds ch) cs = Some m" "linked (pty_symlink ch) ch' m"
    by blast
  then show ?thesis by (cases m) (auto simp: linked_def)
qed

text \<open>Klipper's PTY is opened, gets data, and is closed when the firmware resets.\<close>

definition example_pty :: pty_channel where
  "example_pty = \<lparr>pty_ch_id = 1, pty_symlink = ''/tmp/klipper_mcu'', pty_baud = 230400, pty_master_fd = None,
     pty_slave_fd = None, pty_master_in_sel = False, pty_txbuf = [], pty_bp_paused = False\<rparr>"

lemma example_pty_ok: "pty_ok example_pty"
  by (simp add: pty_inv_defs example_pty_def MAX_CHANNEL_ID_def)

theorem pty_link_safe_witness:
  "\<exists>ch' io' cs present fds. chan_run pty_vtable example_env
       [OnFrame F_READY [], OnFrame F_DATA [0x7E], Event 2 True True, OnFrame F_FLUSH []] example_pty io_new = Some (ch', io')
     \<and> io_log io' = cs \<and> mon_run (link_call ''/tmp/klipper_mcu'') (False, []) cs = Some (present, fds)
     \<and> present = (pty_master_fd ch' \<noteq> None)"
  using pty_link_safe [OF example_env_ok example_pty_ok, of io_new
      "[OnFrame F_READY [], OnFrame F_DATA [0x7E], Event 2 True True, OnFrame F_FLUSH []]"]
  by (simp add: pty_view_def example_pty_def pty_fds_def) blast


section \<open>The bytes that Klipper reads\<close>

definition pty_session :: "env \<Rightarrow> pty_channel \<Rightarrow> bool" where
  "pty_session E ch \<longleftrightarrow> steady E \<and> pty_master_fd ch \<noteq> None"

text \<open>A session ends with the removal of the link.\<close>

fun pty_ends :: "call \<Rightarrow> bool" where
  "pty_ends (RemoveFile p) = True"
| "pty_ends _ = False"

abbreviation pty_writes :: "env \<Rightarrow> bytes \<Rightarrow> pty_channel \<Rightarrow> io \<Rightarrow> pty_channel \<Rightarrow> io \<Rightarrow> bool" where
  "pty_writes E \<equiv> writes (pty_session E) pty_ends pty_txbuf"

lemma pty_update_interest_keeps:
  assumes "pty_update_interest ch io = Some (ch', io')"
  shows "emits reg_call io io'" "pty_txbuf ch' = pty_txbuf ch" "pty_master_fd ch' = pty_master_fd ch"
  using assms sync_interest_regs by (auto simp: pty_update_interest_def split: option.splits bind_splits)

lemma pty_update_interest_writes:
  assumes "pty_update_interest ch io = Some (ch', io')" "pty_txbuf ch = pty_txbuf ch0 @ p" "pty_master_fd ch = pty_master_fd ch0"
  shows "pty_writes E p ch0 io ch' io'"
  by (rule writes_quiet [OF pty_update_interest_keeps(1) [OF assms(1)] reg_call_wrote])
     (use pty_update_interest_keeps(2,3) [OF assms(1)] assms(2,3) in \<open>simp_all add: pty_session_def\<close>)

lemma pty_close_pty_writes:
  assumes "pty_close_pty ch io = (ch', io')"
  shows "pty_writes E p ch io ch' io'"
proof -
  let ?cs = "(case pty_master_fd ch of None \<Rightarrow> [] | Some f \<Rightarrow> (if pty_master_in_sel ch then [Deregister f] else []) @ [CloseFd f])
    @ (case pty_slave_fd ch of None \<Rightarrow> [] | Some f \<Rightarrow> [CloseFd f]) @ [RemoveFile (pty_symlink ch)]"
  have "io_log io' = io_log io @ ?cs" "pty_txbuf ch' = []"
    using assms by (auto simp: pty_close_pty_def pty_remove_symlink_def io_defs call_def Let_def split: option.splits)
  then show ?thesis by (intro writes_dropped [of _ _ ?cs]) (auto split: option.split)
qed

lemma pty_drain_writes:
  assumes "pty_drain E ch io = Some (ch', io')" "env_ok E"
    and "pty_txbuf ch = pty_txbuf ch0 @ p" "pty_master_fd ch = pty_master_fd ch0"
  shows "pty_writes E p ch0 io ch' io'"
  by (rule drain_writes [where tx = pty_txbuf and upd = pty_update_interest and put = "\<lambda>bs ch. ch\<lparr>pty_txbuf := bs\<rparr>",
        OF assms(1) [unfolded pty_drain_def] assms(2)])
     (use assms(3,4) pty_update_interest_keeps in \<open>auto simp: pty_session_def\<close>)

lemma pty_open_pty_writes:
  assumes "pty_open_pty E ch io = Some (ch', io')" "pty_ok ch"
  shows "pty_writes E [] ch io ch' io'"
proof (cases "pty_master_fd ch")
  case (Some f)
  then show ?thesis using assms(1) by (auto simp: pty_open_pty_def intro: writes_same)
next
  case None
  let ?P = "\<lambda>c. wrote c = []"
  obtain r io1 where o: "open_pty_raw E (pty_baud ch) io = (r, io1)" by fastforce
  have e: "emits ?P io io1" by (rule emits_open_pty [OF o]) simp
  have upd: "emits ?P io io' \<and> pty_txbuf ch' = pty_txbuf ch"
    if "pty_update_interest (ch\<lparr>pty_master_fd := Some m, pty_slave_fd := Some s, pty_master_in_sel := False\<rparr>) io2 = Some (ch', io')"
      "emits ?P io io2" for m s io2
    using emits_trans [OF that(2) emits_mono [OF pty_update_interest_keeps(1) [OF that(1)] reg_call_wrote]]
      pty_update_interest_keeps(2) [OF that(1)] by simp
  have "emits ?P io io' \<and> pty_txbuf ch' = pty_txbuf ch"
    using assms(1) None o e
    by (auto simp: pty_open_pty_def pty_remove_symlink_def pty_slave_name_def Let_def close_raw_def
        split: sum.splits option.splits intro!: emits_call emits_next dest!: upd)
  then show ?thesis by (intro writes_quiet [of ?P]) (use None in \<open>simp_all add: pty_session_def\<close>)
qed

lemma pty_handle_event_writes:
  assumes E: "env_ok E" and ok: "pty_ok ch" and q: "txq_inv (io_txq io)"
    and s: "pty_handle_event E tk r w ch io = Some (ch', io')"
  shows "pty_writes E [] ch io ch' io'"
proof (cases "r \<and> pty_master_fd ch = None")
  case True
  then show ?thesis using s by (auto simp: pty_handle_event_def intro: writes_same)
next
  case False
  obtain ch1 io1 where read: "pty_writes E [] ch io ch1 io1" and d: "(if w then pty_drain E ch1 io1 else Some (ch1, io1)) = Some (ch', io')"
  proof (cases r)
    case True
    then obtain f where f: "pty_master_fd ch = Some f" using False by auto
    obtain x where x: "read_nonblock E f 4096 io = (x, next_call io)" using read_nonblock_next [OF E] by blast
    have send: "pty_writes E [] ch io ch (send bs (next_call io))" for bs
      by (rule writes_quiet [OF emits_send, of "\<lambda>c. wrote c = []"]) simp_all
    obtain ch2 io2 where c: "pty_close_pty ch (next_call io) = (ch2, io2)" by fastforce
    have close: "pty_writes E [] ch io ch2 io2" using pty_close_pty_writes [OF c, of E "[]"] by simp
    have same: "pty_writes E [] ch io ch (next_call io)" by (simp add: writes_same)
    show thesis using s False True f x c q that [OF same] that [OF close] that [OF send]
      by (auto simp: pty_handle_event_def split: if_splits sum.splits option.splits)
  next
    case False
    then show thesis using s that [of ch io] by (simp add: pty_handle_event_def writes_same)
  qed
  have "pty_writes E [] ch1 io1 ch' io'"
    using d pty_drain_writes [of E ch1 io1 ch' io' ch1 "[]"] E by (auto split: if_splits intro: writes_same)
  from writes_trans [OF read this] show ?thesis by simp
qed

lemma pty_step_writes:
  assumes E: "env_ok E" and ok: "pty_ok ch" and q: "txq_inv (io_txq io)"
    and s: "chan_step pty_vtable E x ch io = Some (ch', io')"
  shows "pty_writes E (fed x) ch io ch' io'"
proof -
  have upd: "pty_writes E [] ch io ch' io'" if "pty_update_interest (ch\<lparr>pty_bp_paused := b\<rparr>) io = Some (ch', io')" for b
    by (rule pty_update_interest_writes [OF that]) simp_all
  have same: "pty_writes E [] ch io ch io" by (simp add: writes_same)
  show ?thesis
  proof (cases x)
    case (OnFrame t bs)
    have d: "pty_writes E bs ch io ch' io'" if "pty_drain E (ch\<lparr>pty_txbuf := pty_txbuf ch @ bs\<rparr>) io = Some (ch', io')"
      by (rule pty_drain_writes [OF that E]) simp_all
    have n: "pty_writes E bs ch io ch io" if "pty_master_fd ch = None"
      by (rule writesI [of _ _ "[]"]) (use that in \<open>simp_all add: pty_session_def prefix_imp_subseq\<close>)
    show ?thesis using s OnFrame pty_close_pty_writes [of ch io ch' io' E "[]"] pty_open_pty_writes [OF _ ok] d n same
      by (auto simp: pty_vtable_def pty_on_frame_def frame_types split: if_splits)
  next
    case (Event tk r w)
    then show ?thesis using s pty_handle_event_writes [OF E ok q] by (auto simp: pty_vtable_def)
  qed (use s pty_close_pty_writes [of ch io ch' io' E "[]"] upd same in \<open>auto simp: pty_vtable_def pty_on_link_connect_def
      pty_on_link_disconnect_def pty_tick_def pty_close_def pty_pause_source_reads_def pty_resume_source_reads_def
      split: if_splits\<close>)
qed

interpretation pty_writing: writing_channel pty_vtable pty_ok pty_view pty_session pty_ends pty_txbuf "\<lambda>x. True"
  by unfold_locales (simp add: pty_step_writes)

text \<open>C8: what Klipper reads from the PTY.  In any run of a PTY channel the bytes written to the PTY, followed by
  those still in its buffer, are in order a part of the buffer before and the payloads of the \<open>F_DATA\<close>
  frames received: nothing is invented, duplicated or reordered.  While the PTY stays open and no
  write fails for good, nothing is lost either.\<close>

theorem pty_delivers:
  assumes "env_ok E" "pty_ok ch" "txq_inv (io_txq io)" "list_all (op_allowed (pty_view ch)) xs"
  shows "\<exists>ch' io' cs. chan_run pty_vtable E xs ch io = Some (ch', io') \<and> io_log io' = io_log io @ cs
     \<and> subseq (written cs @ pty_txbuf ch') (pty_txbuf ch @ concat (map fed xs))
     \<and> (steady E \<and> pty_master_fd ch \<noteq> None \<and> list_all (\<lambda>c. \<not> pty_ends c) cs \<longrightarrow>
          written cs @ pty_txbuf ch' = pty_txbuf ch @ concat (map fed xs))"
  using pty_writing.run_writes [OF assms] unfolding writes_def pty_session_def by (simp add: list.pred_True) blast

theorem pty_delivers_witness:
  "\<exists>ch' io' cs. chan_run pty_vtable example_env [OnFrame F_DATA [1, 2], Event 2 True False, OnFrame F_DATA [3]]
       (example_pty\<lparr>pty_master_fd := Some 7, pty_slave_fd := Some 8, pty_master_in_sel := True, pty_txbuf := [0]\<rparr>) io_new
       = Some (ch', io')
     \<and> io_log io' = cs \<and> written cs @ pty_txbuf ch' = [0, 1, 2, 3]"
proof -
  let ?ch = "example_pty\<lparr>pty_master_fd := Some 7, pty_slave_fd := Some 8, pty_master_in_sel := True, pty_txbuf := [0]\<rparr>"
  let ?xs = "[OnFrame F_DATA [1, 2], Event 2 True False, OnFrame F_DATA [3]]"
  have ok: "pty_ok ?ch" using example_pty_ok by (simp add: pty_inv_defs example_pty_def)
  have st: "steady example_env" by (simp add: steady_def example_env_def)
  have lasts: "list_all (\<lambda>c. \<not> pty_ends c) (io_log io')" if "chan_run pty_vtable example_env ?xs ?ch io_new = Some (ch', io')" for ch' io'
    using that
    by (auto simp: pty_vtable_def pty_on_frame_def pty_handle_event_def pty_drain_def pty_update_interest_def sync_interest_def
        write_nonblock_def read_nonblock_def drain_front_def example_pty_def example_env_def wanted_interest_def io_defs
        call_def next_call_def frame_types split: bind_splits option.splits if_splits)
  show ?thesis
    using pty_delivers [OF example_env_ok ok, of io_new ?xs] st lasts
    by (auto simp: pty_view_def example_pty_def)
qed

end
