(* ===== verification/Tcp_Conn.thy ===== *)
theory Tcp_Conn
  imports Channel_Spec
begin

text \<open>
  The TCP connection table that \<open>TcpSourceChannel\<close> and \<open>TcpDestChannel\<close> of
  \<^verbatim>\<open>channel.rs\<close> have in common: the connection-id codec, the slots, the interest update,
  the chunking of reads into \<open>F_TDATA\<close> frames, the read and write halves of an event, and the
  handling of \<open>F_TDATA\<close> and \<open>F_TCLOSE\<close>.

  The two channels repeat this code with three differences, which are arguments here: whether
  a closed slot is announced (\<open>notify\<close>; the source side only while the link is up), when reads
  are skipped (\<open>stop\<close>; the destination side also while connecting), and the interest update
  (\<open>upd\<close>).
\<close>


section \<open>Connection ids\<close>

definition pack_cid :: "u16 \<Rightarrow> bytes" where
  "pack_cid cid = to_le_bytes16 cid"

definition unpack_cid :: "bytes \<Rightarrow> (u16 \<times> bytes) option option" where
  "unpack_cid payload =
     (if length payload < 2 then Some None
      else do {
        a \<leftarrow> idx payload 0;
        b \<leftarrow> idx payload 1;
        rest \<leftarrow> slice payload 2 (length payload);
        Some (Some (from_le_bytes16 a b, rest))
      })"

lemma unpack_cid_eq:
  "unpack_cid p = Some (if length p < 2 then None else Some (from_le_bytes16 (p ! 0) (p ! 1), drop 2 p))"
  by (simp add: unpack_cid_def idx_def slice_def)


section \<open>Connections\<close>

definition CONN_HIGH_WATER :: nat where "CONN_HIGH_WATER = 256 * 1024"

lemma conn_consts [mux_consts]: "CONN_HIGH_WATER = 262144"
  by (simp add: CONN_HIGH_WATER_def)

record tcp_conn =
  stream :: fd
  txbuf :: bytes
  connecting :: bool
  in_sel :: bool
  close_pending :: bool

type_synonym conns = "tcp_conn option list"

definition no_conns :: conns where
  "no_conns = replicate MAX_TCP_CONNS None"

text \<open>The registry call of the two \<open>conn_update_interest\<close> functions.\<close>

definition set_conn_interest :: "token \<Rightarrow> bool \<Rightarrow> bool \<Rightarrow> tcp_conn \<Rightarrow> io \<Rightarrow> tcp_conn \<times> io" where
  "set_conn_interest token want_read want_write conn io =
     (let interest =
        (case (want_read, want_write) of
           (True, True) \<Rightarrow> Some (interest_or READABLE WRITABLE)
         | (True, False) \<Rightarrow> Some READABLE
         | (False, True) \<Rightarrow> Some WRITABLE
         | (False, False) \<Rightarrow> None)
      in case interest of
           Some i \<Rightarrow>
             if in_sel conn then (conn, call (Reregister (stream conn) token i) io)
             else (conn\<lparr>in_sel := True\<rparr>, call (Register (stream conn) token i) io)
         | None \<Rightarrow>
             if in_sel conn then (conn\<lparr>in_sel := False\<rparr>, call (Deregister (stream conn)) io)
             else (conn, io))"

definition src_conn_update_interest :: "u8 \<Rightarrow> bool \<Rightarrow> nat \<Rightarrow> tcp_conn \<Rightarrow> io \<Rightarrow> tcp_conn \<times> io" where
  "src_conn_update_interest ch_id bp_paused slot conn io =
     (let want_read = (\<not> (bp_paused \<or> close_pending conn));
          want_write = (txbuf conn \<noteq> [])
      in set_conn_interest (tcp_slot_token ch_id slot) want_read want_write conn io)"

definition dst_conn_update_interest :: "u8 \<Rightarrow> bool \<Rightarrow> nat \<Rightarrow> tcp_conn \<Rightarrow> io \<Rightarrow> tcp_conn \<times> io" where
  "dst_conn_update_interest ch_id bp_paused slot conn io =
     (let want_write = (txbuf conn \<noteq> [] \<or> connecting conn);
          want_read = (\<not> (bp_paused \<or> close_pending conn))
      in set_conn_interest (tcp_slot_token ch_id slot) want_read want_write conn io)"

definition update_slot ::
  "(nat \<Rightarrow> tcp_conn \<Rightarrow> io \<Rightarrow> tcp_conn \<times> io) \<Rightarrow> nat \<Rightarrow> conns \<Rightarrow> io \<Rightarrow> (conns \<times> io) option" where
  "update_slot upd slot conns io = do {
     c \<leftarrow> idx conns slot;
     (case c of
        None \<Rightarrow> Some (conns, io)
      | Some conn \<Rightarrow> let (conn, io) = upd slot conn io in Some (conns[slot := Some conn], io))
   }"

text \<open>\<open>close_slot\<close>: the stream is deregistered, the far side is told when \<open>notify\<close> says so, and the
  connection, its descriptor with it, is dropped.\<close>

definition close_conn :: "env \<Rightarrow> u8 \<Rightarrow> bool \<Rightarrow> nat \<Rightarrow> conns \<Rightarrow> io \<Rightarrow> (conns \<times> io) option" where
  "close_conn E ch_id notify slot conns io = do {
     c \<leftarrow> idx conns slot;
     (case c of
        None \<Rightarrow> Some (conns, io)
      | Some conn \<Rightarrow> do {
          let io = call (Deregister (stream conn)) io;
          io \<leftarrow> (if notify
                 then txq_enqueue (build_frame (env_crc E) F_TCLOSE ch_id (pack_cid (of_nat slot))) io
                 else Some io);
          Some (conns[slot := None], call (CloseFd (stream conn)) io)
        })
   }"

text \<open>A loop over all the slots.\<close>

fun for_slots :: "(nat \<Rightarrow> conns \<Rightarrow> io \<Rightarrow> (conns \<times> io) option) \<Rightarrow> nat list \<Rightarrow> conns \<Rightarrow> io \<Rightarrow> (conns \<times> io) option" where
  "for_slots f [] conns io = Some (conns, io)"
| "for_slots f (s # ss) conns io = do { (conns, io) \<leftarrow> f s conns io; for_slots f ss conns io }"

abbreviation all_slots :: "nat list" where
  "all_slots \<equiv> [0..<MAX_TCP_CONNS]"


section \<open>Reading\<close>

text \<open>The chunks of one read, each with the connection id in front.\<close>

function send_chunks :: "env \<Rightarrow> u8 \<Rightarrow> nat \<Rightarrow> bytes \<Rightarrow> nat \<Rightarrow> io \<Rightarrow> io option" where
  "send_chunks E ch_id slot buf off io =
     (if off < length buf
      then do {
        let stop_at = min (off + MAX_PAYLOAD - 2) (length buf);
        seg \<leftarrow> slice buf off stop_at;
        io \<leftarrow> txq_enqueue (build_frame (env_crc E) F_TDATA ch_id (pack_cid (of_nat slot) @ seg)) io;
        send_chunks E ch_id slot buf stop_at io
      }
      else Some io)"
  by pat_completeness auto
termination
  by (relation "measure (\<lambda>(E, ch_id, slot, buf, off, io). length buf - off)") (auto simp: mux_consts)

declare send_chunks.simps [simp del]

text \<open>The read loop over the results up to \<open>WouldBlock\<close>.  The flag of the result says that the
  handler has returned.\<close>

fun read_loop ::
  "env \<Rightarrow> u8 \<Rightarrow> bool \<Rightarrow> (tcp_conn \<Rightarrow> bool) \<Rightarrow> nat \<Rightarrow> tcp_read list \<Rightarrow> conns \<Rightarrow> io
   \<Rightarrow> (bool \<times> conns \<times> io) option" where
  "read_loop E ch_id notify stop slot rs conns io = do {
     c \<leftarrow> idx conns slot;
     (case c of
        None \<Rightarrow> Some (True, conns, io)
      | Some conn \<Rightarrow>
          if stop conn then Some (False, conns, io)
          else (case rs of
              [] \<Rightarrow> Some (False, conns, io)
            | TcpReadErr e # rs \<Rightarrow>
                if e = EAGAIN \<or> e = EWOULDBLOCK then Some (False, conns, io)
                else do { (conns, io) \<leftarrow> close_conn E ch_id notify slot conns io; Some (True, conns, io) }
            | TcpData d # rs \<Rightarrow>
                if d = []
                then do { (conns, io) \<leftarrow> close_conn E ch_id notify slot conns io; Some (True, conns, io) }
                else do {
                  io \<leftarrow> send_chunks E ch_id slot d 0 io;
                  read_loop E ch_id notify stop slot rs conns io
                }))
   }"

definition conn_read ::
  "env \<Rightarrow> u8 \<Rightarrow> bool \<Rightarrow> (tcp_conn \<Rightarrow> bool) \<Rightarrow> nat \<Rightarrow> conns \<Rightarrow> io \<Rightarrow> (bool \<times> conns \<times> io) option" where
  "conn_read E ch_id notify stop slot conns io = do {
     c \<leftarrow> idx conns slot;
     (case c of
        None \<Rightarrow> Some (True, conns, io)
      | Some conn \<Rightarrow>
          read_loop E ch_id notify stop slot (env_tcp_read E (io_n io) (stream conn) 65536) conns (next_call io))
   }"


section \<open>Writing\<close>

definition conn_write ::
  "env \<Rightarrow> u8 \<Rightarrow> bool \<Rightarrow> (tcp_conn \<Rightarrow> bool) \<Rightarrow> nat \<Rightarrow> conns \<Rightarrow> io \<Rightarrow> (bool \<times> conns \<times> io) option" where
  "conn_write E ch_id notify hold slot conns io = do {
     c \<leftarrow> idx conns slot;
     (case c of
        None \<Rightarrow> Some (True, conns, io)
      | Some conn \<Rightarrow> do {
          (write_err, conn, io) \<leftarrow>
            (if \<not> hold conn \<and> txbuf conn \<noteq> []
             then (case env_write E (io_n io) (stream conn) (txbuf conn) of
                 Written n \<Rightarrow> do {
                   rest \<leftarrow> drain_front n (txbuf conn);
                   Some (False, conn\<lparr>txbuf := rest\<rparr>,
                     call (Wrote (stream conn) (take n (txbuf conn))) (next_call io))
                 }
               | WriteErr e \<Rightarrow> Some (\<not> (e = EAGAIN \<or> e = EWOULDBLOCK), conn, next_call io))
             else Some (False, conn, io));
          let conns = conns[slot := Some conn];
          (if write_err
           then do { (conns, io) \<leftarrow> close_conn E ch_id notify slot conns io; Some (True, conns, io) }
           else if txbuf conn = [] \<and> close_pending conn
           then do { (conns, io) \<leftarrow> close_conn E ch_id False slot conns io; Some (True, conns, io) }
           else Some (False, conns, io))
        })
   }"


section \<open>Frames for a connection\<close>

datatype tdata_action = TClose | TUpdate | TSkip

definition conn_tdata ::
  "env \<Rightarrow> u8 \<Rightarrow> bool \<Rightarrow> (nat \<Rightarrow> tcp_conn \<Rightarrow> io \<Rightarrow> tcp_conn \<times> io) \<Rightarrow> nat \<Rightarrow> bytes \<Rightarrow> conns \<Rightarrow> io
   \<Rightarrow> (conns \<times> io) option" where
  "conn_tdata E ch_id notify upd slot data conns io =
     (if data = [] then Some (conns, io)
      else do {
        c \<leftarrow> idx conns slot;
        let (action, conns) =
          (case c of
             Some conn \<Rightarrow>
               let avail = (CONN_HIGH_WATER + MAX_PAYLOAD) - length (txbuf conn)
               in if length (txbuf conn) > CONN_HIGH_WATER \<or> length data > avail then (TClose, conns)
                  else (TUpdate, conns[slot := Some (conn\<lparr>txbuf := txbuf conn @ data\<rparr>)])
           | None \<Rightarrow> (TSkip, conns));
        (case action of
           TClose \<Rightarrow> close_conn E ch_id notify slot conns io
         | TUpdate \<Rightarrow> update_slot upd slot conns io
         | TSkip \<Rightarrow> Some (conns, io))
      })"

definition conn_tclose ::
  "env \<Rightarrow> u8 \<Rightarrow> (nat \<Rightarrow> tcp_conn \<Rightarrow> io \<Rightarrow> tcp_conn \<times> io) \<Rightarrow> nat \<Rightarrow> conns \<Rightarrow> io \<Rightarrow> (conns \<times> io) option" where
  "conn_tclose E ch_id upd slot conns io = do {
     c \<leftarrow> idx conns slot;
     (case c of
        None \<Rightarrow> Some (conns, io)
      | Some conn \<Rightarrow>
          if txbuf conn = [] then close_conn E ch_id False slot conns io
          else update_slot upd slot (conns[slot := Some (conn\<lparr>close_pending := True\<rparr>)]) io)
   }"



section \<open>Chunking is lossless\<close>

definition tdata_frame :: "hash_fn \<Rightarrow> u8 \<Rightarrow> nat \<Rightarrow> bytes \<Rightarrow> bytes" where
  "tdata_frame crc ch_id slot seg = build_frame crc F_TDATA ch_id (pack_cid (of_nat slot) @ seg)"

lemma fold_send_inv: "txq_inv (io_txq io) \<Longrightarrow> txq_inv (io_txq (fold send fs io))"
  by (induction fs arbitrary: io) auto

lemma fold_send_log: "io_log (fold send fs io) = io_log io @ map Enqueue fs"
  by (induction fs arbitrary: io) auto

lemma emits_fold_send: "(\<And>f. f \<in> set fs \<Longrightarrow> P (Enqueue f)) \<Longrightarrow> emits P a b \<Longrightarrow> emits P a (fold send fs b)"
  by (induction fs arbitrary: b) (auto intro: emits_send)

lemma send_chunks_eq:
  "txq_inv (io_txq io) \<Longrightarrow> off \<le> length buf \<Longrightarrow>
   send_chunks E c slot buf off io
     = Some (fold send (map (tdata_frame (env_crc E) c slot) (chunks_of (MAX_PAYLOAD - 2) (drop off buf))) io)"
proof (induction E c slot buf off io rule: send_chunks.induct)
  case (1 E c slot buf off io)
  show ?case
  proof (cases "off < length buf")
    case True
    let ?e = "min (off + MAX_PAYLOAD - 2) (length buf)"
    have e: "off \<le> ?e" "?e \<le> length buf" using True by (auto simp: mux_consts)
    have seg: "slice buf off ?e = Some (take (MAX_PAYLOAD - 2) (drop off buf))"
      using True by (auto simp: slice_def mux_consts min_def)
    have rest: "drop ?e buf = drop (MAX_PAYLOAD - 2) (drop off buf)"
      using True by (auto simp: mux_consts min_def add.commute)
    let ?io = "send (tdata_frame (env_crc E) c slot (take (MAX_PAYLOAD - 2) (drop off buf))) io"
    have ih: "send_chunks E c slot buf ?e ?io
        = Some (fold send (map (tdata_frame (env_crc E) c slot) (chunks_of (MAX_PAYLOAD - 2) (drop ?e buf))) ?io)"
      by (rule "1.IH" [OF True refl seg]) (use "1.prems" e in \<open>auto simp: tdata_frame_def\<close>)
    have "send_chunks E c slot buf off io = send_chunks E c slot buf ?e ?io"
      using True seg "1.prems" by (subst send_chunks.simps) (simp add: tdata_frame_def Let_def)
    also have "\<dots> = Some (fold send (map (tdata_frame (env_crc E) c slot)
        (chunks_of (MAX_PAYLOAD - 2) (drop off buf))) io)"
      using True unfolding ih rest
      by (subst (2) chunks_of.simps) (simp add: mux_consts)
    finally show ?thesis .
  next
    case False
    then show ?thesis by (simp add: send_chunks.simps)
  qed
qed

lemma own_tdata:
  "length seg \<le> MAX_PAYLOAD - 2 \<Longrightarrow> own_frame crc c (tdata_frame crc c slot seg)"
  unfolding tdata_frame_def by (rule own_frameI) (auto simp: pack_cid_def mux_consts)

lemma send_chunks_ok:
  assumes "txq_inv (io_txq io)"
  shows "\<exists>io'. send_chunks E c slot buf 0 io = Some io' \<and> emits (own_call (env_crc E) c) io io'"
  using send_chunks_eq [OF assms, of 0 buf E c slot] chunks_bound [of _ "MAX_PAYLOAD - 2" buf]
  by (auto intro!: emits_fold_send own_tdata)


section \<open>The invariant of the table\<close>

text \<open>The bound on what a slow peer can make the daemon hold, no connection waits to be closed with
  nothing left to write, and a connection that has something to wait for is registered.\<close>

definition wants :: "bool \<Rightarrow> tcp_conn \<Rightarrow> bool" where
  "wants bp conn \<longleftrightarrow> \<not> (bp \<or> close_pending conn) \<or> txbuf conn \<noteq> [] \<or> connecting conn"

definition conn_base :: "tcp_conn \<Rightarrow> bool" where
  "conn_base conn \<longleftrightarrow> length (txbuf conn) \<le> CONN_HIGH_WATER + MAX_PAYLOAD
     \<and> (close_pending conn \<longrightarrow> txbuf conn \<noteq> [])"

definition conn_ok :: "bool \<Rightarrow> tcp_conn \<Rightarrow> bool" where
  "conn_ok bp conn \<longleftrightarrow> conn_base conn \<and> (wants bp conn \<longrightarrow> in_sel conn)"

definition conns_ok :: "(tcp_conn \<Rightarrow> bool) \<Rightarrow> conns \<Rightarrow> bool" where
  "conns_ok P conns \<longleftrightarrow> length conns = MAX_TCP_CONNS \<and> list_all (pred_option P) conns"

lemma conns_ok_idx:
  assumes "conns_ok P conns" "s < MAX_TCP_CONNS"
  obtains c where "idx conns s = Some c" "pred_option P c" "conns ! s = c"
  using assms by (auto simp: conns_ok_def idx_def list_all_length)

lemma conns_ok_update [intro]:
  "conns_ok P conns \<Longrightarrow> pred_option P c \<Longrightarrow> conns_ok P (conns[s := c])"
  by (auto simp: conns_ok_def list_all_iff dest: subsetD [OF set_update_subset_insert])

lemma no_conns_ok [simp]: "conns_ok P no_conns"
  by (simp add: conns_ok_def no_conns_def list_all_iff)

lemma conns_ok_mono: "conns_ok P conns \<Longrightarrow> (\<And>c. P c \<Longrightarrow> Q c) \<Longrightarrow> conns_ok Q conns"
  by (auto simp: conns_ok_def list_all_iff pred_option_def)

text \<open>The outcome of an operation on the table.\<close>

definition table ::
  "(call \<Rightarrow> bool) \<Rightarrow> (tcp_conn \<Rightarrow> bool) \<Rightarrow> io \<Rightarrow> (conns \<times> io) option \<Rightarrow> bool" where
  "table C P io r \<longleftrightarrow> (\<exists>conns' io'. r = Some (conns', io') \<and> conns_ok P conns' \<and> emits C io io')"

definition table_ret ::
  "(call \<Rightarrow> bool) \<Rightarrow> (tcp_conn \<Rightarrow> bool) \<Rightarrow> io \<Rightarrow> (bool \<times> conns \<times> io) option \<Rightarrow> bool" where
  "table_ret C P io r \<longleftrightarrow> (\<exists>b conns' io'. r = Some (b, conns', io') \<and> conns_ok P conns' \<and> emits C io io')"

lemma table_Some [simp]: "table C P io (Some (conns, io')) \<longleftrightarrow> conns_ok P conns \<and> emits C io io'"
  by (simp add: table_def)

lemma table_ret_Some [simp]: "table_ret C P io (Some (b, conns, io')) \<longleftrightarrow> conns_ok P conns \<and> emits C io io'"
  by (simp add: table_ret_def)

lemma table_from: "table C P io r \<Longrightarrow> emits C io0 io \<Longrightarrow> table C P io0 r"
  unfolding table_def using emits_trans by blast

lemma table_mono: "table C P io r \<Longrightarrow> (\<And>x. C x \<Longrightarrow> D x) \<Longrightarrow> table D P io r"
  unfolding table_def using emits_mono by blast

lemma table_to_ret: "table C P io r \<Longrightarrow> table_ret C P io (r \<bind> (\<lambda>(conns, io). Some (b, conns, io)))"
  unfolding table_def table_ret_def by auto

lemma close_conn_eq:
  assumes "conns_ok P conns" "slot < MAX_TCP_CONNS" "notify \<longrightarrow> txq_inv (io_txq io)"
  shows "close_conn E c notify slot conns io = Some (conns[slot := None],
    (case conns ! slot of None \<Rightarrow> io
     | Some conn \<Rightarrow> call (CloseFd (stream conn))
         ((if notify then send (build_frame (env_crc E) F_TCLOSE c (pack_cid (of_nat slot))) else id)
            (call (Deregister (stream conn)) io))))"
proof -
  obtain x where x: "idx conns slot = Some x" "conns ! slot = x" "slot < length conns"
    using assms by (metis conns_ok_def conns_ok_idx)
  then have "conns[slot := None] = conns" if "x = None" using that list_update_id by metis
  with x assms(3) show ?thesis by (cases x) (auto simp: close_conn_def)
qed

lemma close_conn_ok:
  assumes "conns_ok P conns" "slot < MAX_TCP_CONNS" "txq_inv (io_txq io)"
  shows "table (own_call (env_crc E) c) P io (close_conn E c notify slot conns io)"
  using assms close_conn_eq [OF assms(1,2), of notify io E c] by (cases "conns ! slot") (auto intro!: emits_call emits_send own_frameI simp: pack_cid_def mux_consts)

lemma close_conn_quiet:
  assumes "conns_ok P conns" "slot < MAX_TCP_CONNS"
  shows "table (quiet_call c) P io (close_conn E c False slot conns io)"
  using assms close_conn_eq [OF assms, of False io E c] by (cases "conns ! slot") (auto intro!: emits_call simp: quiet_call_def)

text \<open>What the interest update has to do: make a connection that is \<open>B\<close> a connection that is \<open>P\<close>.\<close>

definition upd_ok ::
  "u8 \<Rightarrow> (tcp_conn \<Rightarrow> bool) \<Rightarrow> (tcp_conn \<Rightarrow> bool) \<Rightarrow> (nat \<Rightarrow> tcp_conn \<Rightarrow> io \<Rightarrow> tcp_conn \<times> io) \<Rightarrow> bool" where
  "upd_ok c B P upd \<longleftrightarrow> (\<forall>slot conn io. slot < MAX_TCP_CONNS \<longrightarrow> B conn \<longrightarrow>
     P (fst (upd slot conn io)) \<and> emits (quiet_call c) io (snd (upd slot conn io)))"

lemma set_conn_interest_ok:
  assumes "id_ok c" "slot < MAX_TCP_CONNS"
  shows "fst (set_conn_interest (tcp_slot_token c slot) r w conn io) = conn\<lparr>in_sel := r \<or> w\<rparr>"
    and "emits (quiet_call c) io (snd (set_conn_interest (tcp_slot_token c slot) r w conn io))"
  using tcp_slot_token_routes(1) [OF assms]
  by (cases r; cases w; simp add: set_conn_interest_def Let_def emits_call quiet_call_def)+

lemma src_upd_ok:
  assumes "id_ok c"
  shows "upd_ok c (\<lambda>x. conn_base x \<and> \<not> connecting x) (\<lambda>x. conn_ok bp x \<and> \<not> connecting x)
    (src_conn_update_interest c bp)"
  unfolding upd_ok_def
  by (auto simp: src_conn_update_interest_def Let_def set_conn_interest_ok [OF assms]
      conn_ok_def conn_base_def wants_def)

lemma dst_upd_ok:
  assumes "id_ok c"
  shows "upd_ok c conn_base (conn_ok bp) (dst_conn_update_interest c bp)"
  unfolding upd_ok_def
  by (auto simp: dst_conn_update_interest_def Let_def set_conn_interest_ok [OF assms]
      conn_ok_def conn_base_def wants_def)

lemma upd_okD:
  "upd_ok c B P upd \<Longrightarrow> slot < MAX_TCP_CONNS \<Longrightarrow> B conn \<Longrightarrow> P (fst (upd slot conn io))"
  "upd_ok c B P upd \<Longrightarrow> slot < MAX_TCP_CONNS \<Longrightarrow> B conn \<Longrightarrow> emits (quiet_call c) io (snd (upd slot conn io))"
  by (simp_all add: upd_ok_def)

lemma update_slot_eq:
  "slot < length conns \<Longrightarrow> update_slot upd slot conns io =
     (case conns ! slot of
        None \<Rightarrow> Some (conns, io)
      | Some conn \<Rightarrow> Some (conns[slot := Some (fst (upd slot conn io))], snd (upd slot conn io)))"
  by (auto simp: update_slot_def idx_def split: option.split prod.split)

lemma update_slot_ok:
  assumes "upd_ok c B P upd" "conns_ok P conns" "slot < MAX_TCP_CONNS" "B conn"
  shows "table (quiet_call c) P io (update_slot upd slot (conns[slot := Some conn]) io)"
proof -
  have "slot < length conns" using assms(2,3) by (simp add: conns_ok_def)
  then show ?thesis using upd_okD [OF assms(1,3,4), of io] conns_ok_update [OF assms(2)]
    by (simp add: update_slot_eq)
qed

lemma update_all_ok:
  assumes u: "upd_ok c B P upd" and b: "conns_ok B conns"
  shows "table (quiet_call c) P io (for_slots (update_slot upd) all_slots conns io)"
proof -
  have "table (quiet_call c) P io0 (for_slots (update_slot upd) [k..<MAX_TCP_CONNS] conns io)"
    if "k \<le> MAX_TCP_CONNS" "length conns = MAX_TCP_CONNS" "\<forall>i<k. pred_option P (conns ! i)"
      "\<forall>i. k \<le> i \<and> i < MAX_TCP_CONNS \<longrightarrow> pred_option B (conns ! i)" "emits (quiet_call c) io0 io"
    for k conns io io0
    using that
  proof (induction "MAX_TCP_CONNS - k" arbitrary: k conns io)
    case 0
    then show ?case by (auto simp: conns_ok_def list_all_length)
  next
    case (Suc n)
    have k: "k < MAX_TCP_CONNS" using Suc.hyps(2) by simp
    then have range: "[k..<MAX_TCP_CONNS] = k # [Suc k..<MAX_TCP_CONNS]" by (rule upt_conv_Cons)
    obtain conns1 io1 where s: "update_slot upd k conns io = Some (conns1, io1)"
      and p: "length conns1 = MAX_TCP_CONNS" "pred_option P (conns1 ! k)"
        "\<forall>i. i \<noteq> k \<longrightarrow> conns1 ! i = conns ! i" "emits (quiet_call c) io io1"
    proof (cases "conns ! k")
      case None
      then show ?thesis using that [of conns io] Suc.prems(2) k by (simp add: update_slot_eq)
    next
      case (Some x)
      have "pred_option B (conns ! k)" using Suc.prems(4) k by blast
      then have "B x" using Some by simp
      note upd_okD [OF u k this, of io]
      moreover have "update_slot upd k conns io = Some (conns[k := Some (fst (upd k x io))], snd (upd k x io))"
        using Some Suc.prems(2) k by (simp add: update_slot_eq)
      ultimately show ?thesis using Suc.prems(2) k
        by (intro that [of "conns[k := Some (fst (upd k x io))]" "snd (upd k x io)"]) auto
    qed
    have "table (quiet_call c) P io0 (for_slots (update_slot upd) [Suc k..<MAX_TCP_CONNS] conns1 io1)"
    proof (rule Suc.hyps(1))
      show "\<forall>i<Suc k. pred_option P (conns1 ! i)" using p Suc.prems(3) by (metis less_Suc_eq)
      show "\<forall>i. Suc k \<le> i \<and> i < MAX_TCP_CONNS \<longrightarrow> pred_option B (conns1 ! i)"
        using p Suc.prems(4) by (metis Suc_leD not_less_eq_eq)
      show "emits (quiet_call c) io0 io1" using Suc.prems(5) p(4) by (rule emits_trans)
    qed (use Suc.hyps(2) k p in auto)
    then show ?case unfolding range using s by simp
  qed
  from this [of 0 conns io io] b show ?thesis by (simp add: conns_ok_def list_all_length)
qed

lemma close_all_eq:
  assumes "length conns = MAX_TCP_CONNS"
  shows "\<exists>io'. for_slots (close_conn E c False) all_slots conns io = Some (no_conns, io')
    \<and> emits (quiet_call c) io io' \<and> io_txq io' = io_txq io"
proof -
  have "\<exists>io'. for_slots (close_conn E c False) [k..<MAX_TCP_CONNS] conns io = Some (no_conns, io')
    \<and> emits (quiet_call c) io0 io' \<and> io_txq io' = io_txq io"
    if "k \<le> MAX_TCP_CONNS" "length conns = MAX_TCP_CONNS" "\<forall>i<k. conns ! i = None"
      "emits (quiet_call c) io0 io" for k conns io io0
    using that
  proof (induction "MAX_TCP_CONNS - k" arbitrary: k conns io)
    case 0
    then show ?case by (auto simp: no_conns_def intro!: nth_equalityI)
  next
    case (Suc n)
    have k: "k < MAX_TCP_CONNS" using Suc.hyps(2) by simp
    then have range: "[k..<MAX_TCP_CONNS] = k # [Suc k..<MAX_TCP_CONNS]" by (rule upt_conv_Cons)
    have ok: "conns_ok (\<lambda>_. True) conns"
      using Suc.prems(2) by (auto simp: conns_ok_def list_all_iff pred_option_def)
    obtain io1 where s: "close_conn E c False k conns io = Some (conns[k := None], io1)"
      "emits (quiet_call c) io io1" "io_txq io1 = io_txq io"
      using close_conn_eq [OF ok k, of False io E c] close_conn_quiet [OF ok k, of c io E]
      by (cases "conns ! k") auto
    have "\<exists>io'. for_slots (close_conn E c False) [Suc k..<MAX_TCP_CONNS] (conns[k := None]) io1
        = Some (no_conns, io') \<and> emits (quiet_call c) io0 io' \<and> io_txq io' = io_txq io1"
    proof (rule Suc.hyps(1))
      show "\<forall>i<Suc k. conns[k := None] ! i = None" using Suc.prems(2,3) k by (auto simp: nth_list_update less_Suc_eq)
      show "emits (quiet_call c) io0 io1" using Suc.prems(4) s(2) by (rule emits_trans)
    qed (use Suc.hyps(2) Suc.prems(2) k in auto)
    then show ?case unfolding range using s by auto
  qed
  from this [of 0 conns io io] assms show ?thesis by simp
qed


section \<open>Events and frames keep the table\<close>

text \<open>The read loop leaves the table alone, unless it closes the slot.\<close>

lemma read_loop_conns:
  assumes "length conns = MAX_TCP_CONNS" "slot < MAX_TCP_CONNS" "txq_inv (io_txq io)"
  shows "\<exists>b conns' io'. read_loop E c notify stop slot rs conns io = Some (b, conns', io')
    \<and> emits (own_call (env_crc E) c) io io' \<and> (if b then conns' = conns[slot := None] else conns' = conns)"
  using assms(3)
proof (induction rs arbitrary: io)
  case Nil
  then show ?case using assms list_update_id [of conns slot] by (cases "conns ! slot") (auto simp: idx_def)
next
  case (Cons r rs)
  have ok: "conns_ok (\<lambda>_. True) conns" using assms(1) by (auto simp: conns_ok_def list_all_iff pred_option_def)
  have close: "\<exists>io'. close_conn E c notify slot conns io = Some (conns[slot := None], io')
      \<and> emits (own_call (env_crc E) c) io io'"
    using close_conn_eq [OF ok assms(2), of notify io E c] close_conn_ok [OF ok assms(2) Cons.prems, of E c notify]
      Cons.prems by auto
  have data: "\<exists>b conns' io'. send_chunks E c slot d 0 io \<bind> read_loop E c notify stop slot rs conns = Some (b, conns', io')
    \<and> emits (own_call (env_crc E) c) io io' \<and> (if b then conns' = conns[slot := None] else conns' = conns)" for d
  proof -
    obtain io1 where s: "send_chunks E c slot d 0 io = Some io1" "emits (own_call (env_crc E) c) io io1"
      using send_chunks_ok [OF Cons.prems] by blast
    obtain b conns' io' where "read_loop E c notify stop slot rs conns io1 = Some (b, conns', io')"
      "emits (own_call (env_crc E) c) io1 io'" "if b then conns' = conns[slot := None] else conns' = conns"
      using Cons.IH [OF emits_inv [OF s(2) Cons.prems]] by blast
    with s show ?thesis using emits_trans [OF s(2)] by auto
  qed
  show ?case
    using close data assms list_update_id [of conns slot]
    by (cases "conns ! slot"; cases r) (auto simp: idx_def)
qed

lemma conn_read_conns:
  assumes "length conns = MAX_TCP_CONNS" "slot < MAX_TCP_CONNS" "txq_inv (io_txq io)"
  shows "\<exists>b conns' io'. conn_read E c notify stop slot conns io = Some (b, conns', io')
    \<and> emits (own_call (env_crc E) c) io io' \<and> (if b then conns' = conns[slot := None] else conns' = conns)"
proof (cases "conns ! slot")
  case None
  then show ?thesis using assms list_update_id [of conns slot] by (auto simp: conn_read_def idx_def)
next
  case (Some conn)
  have e: "emits (own_call (env_crc E) c) io (next_call io)" by simp
  obtain b conns' io' where "read_loop E c notify stop slot (env_tcp_read E (io_n io) (stream conn) 65536) conns
      (next_call io) = Some (b, conns', io')" "emits (own_call (env_crc E) c) (next_call io) io'"
    "if b then conns' = conns[slot := None] else conns' = conns"
    using read_loop_conns [OF assms(1,2), of "next_call io"] assms(3) by (metis io_fields(2))
  then show ?thesis using Some assms emits_trans [OF e]
    by (intro exI [of _ b] exI [of _ conns'] exI [of _ io'])
       (simp add: conn_read_def idx_def del: read_loop.simps)
qed

lemma conn_tdata_ok:
  assumes "upd_ok c B P upd" "conns_ok P conns" "slot < MAX_TCP_CONNS" "txq_inv (io_txq io)"
    and "\<And>conn bs. P conn \<Longrightarrow> length bs \<le> CONN_HIGH_WATER + MAX_PAYLOAD \<Longrightarrow> bs \<noteq> [] \<Longrightarrow> B (conn\<lparr>txbuf := bs\<rparr>)"
  shows "table (own_call (env_crc E) c) P io (conn_tdata E c notify upd slot data conns io)"
proof (cases "data = []")
  case True
  then show ?thesis using assms by (simp add: conn_tdata_def)
next
  case False
  obtain x where x: "idx conns slot = Some x" "pred_option P x" using assms conns_ok_idx by metis
  show ?thesis
  proof (cases x)
    case None
    then show ?thesis using x assms by (simp add: conn_tdata_def)
  next
    case (Some conn)
    have upd: "table (own_call (env_crc E) c) P io
        (update_slot upd slot (conns[slot := Some (conn\<lparr>txbuf := txbuf conn @ data\<rparr>)]) io)"
      if "length (txbuf conn) + length data \<le> CONN_HIGH_WATER + MAX_PAYLOAD"
    proof (rule table_mono [OF update_slot_ok [OF assms(1-3)] quiet_own])
      show "B (conn\<lparr>txbuf := txbuf conn @ data\<rparr>)" using x Some that False by (intro assms(5)) auto
    qed
    show ?thesis using x Some False upd close_conn_ok [OF assms(2-4), of E c notify]
      by (auto simp: conn_tdata_def Let_def)
  qed
qed

lemma conn_tclose_ok:
  assumes "upd_ok c B P upd" "conns_ok P conns" "slot < MAX_TCP_CONNS"
    and "\<And>conn. P conn \<Longrightarrow> txbuf conn \<noteq> [] \<Longrightarrow> B (conn\<lparr>close_pending := True\<rparr>)"
  shows "table (quiet_call c) P io (conn_tclose E c upd slot conns io)"
proof -
  obtain x where x: "idx conns slot = Some x" "pred_option P x" using assms conns_ok_idx by metis
  then show ?thesis
    using close_conn_quiet [OF assms(2,3), of c io E] update_slot_ok [OF assms(1-3)] assms(2,4)
    by (cases x) (auto simp: conn_tclose_def)
qed

lemma close_conn_at:
  assumes "length conns = MAX_TCP_CONNS" "slot < MAX_TCP_CONNS" "txq_inv (io_txq io)"
    "emits (own_call (env_crc E) c) io io1"
  shows "\<exists>io'. close_conn E c nt slot (conns[slot := Some conn]) io1 = Some (conns[slot := None], io')
     \<and> emits (own_call (env_crc E) c) io io'"
proof -
  have ok: "conns_ok (\<lambda>_. True) (conns[slot := Some conn])"
    using assms(1) by (auto simp: conns_ok_def list_all_iff pred_option_def)
  have "txq_inv (io_txq io1)" using emits_inv [OF assms(4,3)] .
  note close_conn_ok [OF ok assms(2) this, of E c nt] close_conn_eq [OF ok assms(2), of nt io1 E c]
  then show ?thesis using \<open>txq_inv (io_txq io1)\<close> emits_trans [OF assms(4)]
    by (auto simp: table_def)
qed

text \<open>The write half either closes the slot, or leaves a connection that may still need its interest
  updated.\<close>

lemma conn_write_conns:
  assumes E: "env_ok E" and l: "length conns = MAX_TCP_CONNS" and s: "slot < MAX_TCP_CONNS"
    and q: "txq_inv (io_txq io)"
    and B: "\<And>conn. conns ! slot = Some conn \<Longrightarrow> conn_base conn \<and> K conn"
    and K: "\<And>conn bs. K conn \<Longrightarrow> K (conn\<lparr>txbuf := bs\<rparr>)"
  shows "\<exists>b conns' io'. conn_write E c notify hold slot conns io = Some (b, conns', io')
    \<and> emits (own_call (env_crc E) c) io io'
    \<and> (if b then conns' = conns[slot := None]
       else \<exists>conn. conns' = conns[slot := Some conn] \<and> conn_base conn \<and> K conn)"
proof (cases "conns ! slot")
  case None
  then show ?thesis using l s list_update_id [of conns slot] by (auto simp: conn_write_def idx_def)
next
  case (Some conn)
  have i: "idx conns slot = Some (Some conn)" using Some l s by (simp add: idx_def)
  note cl = close_conn_at [OF l s q] and b = B [OF Some]
  show ?thesis
  proof (cases "hold conn \<or> txbuf conn = []")
    case True
    then show ?thesis using i b cl [OF emits_refl, of E c False conn]
      by (auto simp: conn_write_def Let_def)
  next
    case False
    show ?thesis
    proof (cases "env_write E (io_n io) (stream conn) (txbuf conn)")
      case (WriteErr e)
      then show ?thesis using i b False cl [of E c "next_call io" notify conn]
        by (auto simp: conn_write_def Let_def)
    next
      case (Written n)
      let ?io = "call (Wrote (stream conn) (take n (txbuf conn))) (next_call io)"
      let ?conn = "conn\<lparr>txbuf := drop n (txbuf conn)\<rparr>"
      have n: "n \<le> length (txbuf conn)" using env_ok_write [OF E Written] .
      have e: "emits (own_call (env_crc E) c) io ?io" by (intro emits_call) auto
      have "conn_base ?conn \<or> (txbuf ?conn = [] \<and> close_pending conn)" using b by (auto simp: conn_base_def)
      then show ?thesis using i False Written n e cl [OF e, of False ?conn] b K [of conn "drop n (txbuf conn)"]
        by (auto simp: conn_write_def Let_def panic_free)
    qed
  qed
qed

text \<open>An empty table has nothing to do.\<close>

lemma no_conns_idx [simp]: "slot < MAX_TCP_CONNS \<Longrightarrow> idx no_conns slot = Some None"
  by (simp add: no_conns_def idx_def)

lemma for_slots_no_conns:
  "\<forall>s \<in> set ss. s < MAX_TCP_CONNS \<Longrightarrow> for_slots (update_slot upd) ss no_conns io = Some (no_conns, io)"
  "\<forall>s \<in> set ss. s < MAX_TCP_CONNS \<Longrightarrow> for_slots (close_conn E c nt) ss no_conns io = Some (no_conns, io)"
  by (induction ss) (auto simp: update_slot_def close_conn_def)

end
