(* ===== verification/Tcp_Source.thy ===== *)
theory Tcp_Source
  imports Tcp_Conn
begin

text \<open>
  The exporter-side TCP channel (\<^verbatim>\<open>channel.rs\<close>, \<open>TcpSourceChannel\<close>): accepts local
  connections, gives each a slot by round-robin, and announces it to the host.
\<close>

record tcp_source =
  src_ch_id :: u8
  src_listener :: fd
  src_conns :: conns
  src_next_slot :: nat
  src_link_up :: bool
  src_bp_paused :: bool

definition src_new ::
  "env \<Rightarrow> u8 \<Rightarrow> string \<Rightarrow> u16 \<Rightarrow> io \<Rightarrow> ((io_error + tcp_source) \<times> io) option" where
  "src_new E ch_id bind_addr bind_port io =
     (case env_parse_addr E bind_addr (unat bind_port) of
        None \<Rightarrow> Some (Inl InvalidInput, io)
      | Some addr \<Rightarrow>
          (case env_bind E (io_n io) addr of
             Inl e \<Rightarrow> Some (Inl (Os e), next_call io)
           | Inr l \<Rightarrow> do {
               let io = call (OpenFd l) (next_call io);
               token \<leftarrow> primary_token ch_id;
               (case env_register E (io_n io) l token of
                  None \<Rightarrow> Some (Inr \<lparr>src_ch_id = ch_id, src_listener = l, src_conns = no_conns, src_next_slot = 0,
                       src_link_up = False, src_bp_paused = False\<rparr>,
                     call (Register l token READABLE) (next_call io))
                | Some e \<Rightarrow> Some (Inl (Os e), call (CloseFd l) (next_call io)))
             }))"


section \<open>Slots\<close>

text \<open>\<open>n\<close> is the number of rounds left of the loop.  The counter \<open>next_slot\<close> only grows, by at most \<open>MAX_TCP_CONNS\<close> for each
  connection; it is a \<open>usize\<close> in the source and a \<open>nat\<close> here, so an overflow after as many increments as a \<open>usize\<close> counts is not modelled.\<close>

fun src_alloc_slot :: "nat \<Rightarrow> tcp_source \<Rightarrow> (nat option \<times> tcp_source) option" where
  "src_alloc_slot 0 ch = Some (None, ch)"
| "src_alloc_slot (Suc n) ch = do {
     let s = src_next_slot ch mod MAX_TCP_CONNS;
     let ch = ch\<lparr>src_next_slot := src_next_slot ch + 1\<rparr>;
     c \<leftarrow> idx (src_conns ch) s;
     (if c = None then Some (Some s, ch) else src_alloc_slot n ch)
   }"

abbreviation alloc_slot :: "tcp_source \<Rightarrow> (nat option \<times> tcp_source) option" where
  "alloc_slot \<equiv> src_alloc_slot MAX_TCP_CONNS"

fun src_accept_loop :: "env \<Rightarrow> accept_result list \<Rightarrow> tcp_source \<Rightarrow> io \<Rightarrow> (tcp_source \<times> io) option" where
  "src_accept_loop E [] ch io = Some (ch, io)"
| "src_accept_loop E (AcceptErr e # rs) ch io = Some (ch, io)"
| "src_accept_loop E (Accepted f # rs) ch io =
     (let io = call (OpenFd f) io in
      if \<not> src_link_up ch then src_accept_loop E rs ch (call (CloseFd f) io)
      else do {
        (slot, ch) \<leftarrow> alloc_slot ch;
        (case slot of
           None \<Rightarrow> src_accept_loop E rs ch (call (CloseFd f) io)
         | Some slot \<Rightarrow>
             let token = tcp_slot_token (src_ch_id ch) slot in
             if env_register E (io_n io) f token \<noteq> None
             then src_accept_loop E rs ch (call (CloseFd f) (next_call io))
             else do {
               let io = call (Register f token (interest_or READABLE WRITABLE)) (next_call io);
               conns \<leftarrow> set_idx (src_conns ch) slot
                 (Some \<lparr>stream = f, txbuf = [], connecting = False, in_sel = True, close_pending = False\<rparr>);
               let ch = ch\<lparr>src_conns := conns\<rparr>;
               io \<leftarrow> txq_enqueue (build_frame (env_crc E) F_TCONN (src_ch_id ch) (pack_cid (of_nat slot))) io;
               src_accept_loop E rs ch io
             })
      })"

definition src_accept :: "env \<Rightarrow> tcp_source \<Rightarrow> io \<Rightarrow> (tcp_source \<times> io) option" where
  "src_accept E ch io =
     src_accept_loop E (env_accept E (io_n io) (src_listener ch)) ch (next_call io)"

definition src_update_conn_interest :: "nat \<Rightarrow> tcp_source \<Rightarrow> io \<Rightarrow> (tcp_source \<times> io) option" where
  "src_update_conn_interest slot ch io = do {
     (conns, io) \<leftarrow> update_slot (src_conn_update_interest (src_ch_id ch) (src_bp_paused ch)) slot (src_conns ch) io;
     Some (ch\<lparr>src_conns := conns\<rparr>, io)
   }"

definition src_tcp_event ::
  "env \<Rightarrow> token \<Rightarrow> bool \<Rightarrow> bool \<Rightarrow> tcp_source \<Rightarrow> io \<Rightarrow> (tcp_source \<times> io) option" where
  "src_tcp_event E token readable writable ch io = do {
     t \<leftarrow> usub token TCP_BASE;
     let slot = t mod MAX_TCP_CONNS;
     (ret, conns, io) \<leftarrow>
       (if readable then conn_read E (src_ch_id ch) (src_link_up ch) close_pending slot (src_conns ch) io
        else Some (False, src_conns ch, io));
     (if ret \<or> \<not> writable then Some (ch\<lparr>src_conns := conns\<rparr>, io)
      else do {
        (ret, conns, io) \<leftarrow> conn_write E (src_ch_id ch) (src_link_up ch) (\<lambda>_. False) slot conns io;
        (if ret then Some (ch\<lparr>src_conns := conns\<rparr>, io)
         else src_update_conn_interest slot (ch\<lparr>src_conns := conns\<rparr>) io)
      })
   }"

text \<open>\<open>close_all\<close> gets a throw-away queue from its two callers.\<close>

definition src_close_all :: "env \<Rightarrow> tcp_source \<Rightarrow> io \<Rightarrow> (tcp_source \<times> io) option" where
  "src_close_all E ch io = do {
     (conns, io') \<leftarrow> for_slots (close_conn E (src_ch_id ch) False) all_slots (src_conns ch)
                       (io\<lparr>io_txq := txq_new\<rparr>);
     Some (ch\<lparr>src_conns := conns\<rparr>, io'\<lparr>io_txq := io_txq io\<rparr>)
   }"


section \<open>The channel interface\<close>

definition src_on_frame ::
  "env \<Rightarrow> u8 \<Rightarrow> bytes \<Rightarrow> tcp_source \<Rightarrow> io \<Rightarrow> (tcp_source \<times> io) option" where
  "src_on_frame E ftype payload ch io = do {
     u \<leftarrow> unpack_cid payload;
     (case u of
        None \<Rightarrow> Some (ch, io)
      | Some (cid, data) \<Rightarrow>
          let slot = unat cid in
          if slot \<ge> MAX_TCP_CONNS then Some (ch, io)
          else if ftype = F_TDATA then do {
            (conns, io) \<leftarrow> conn_tdata E (src_ch_id ch) (src_link_up ch)
              (src_conn_update_interest (src_ch_id ch) (src_bp_paused ch)) slot data (src_conns ch) io;
            Some (ch\<lparr>src_conns := conns\<rparr>, io)
          }
          else if ftype = F_TCLOSE then do {
            (conns, io) \<leftarrow> conn_tclose E (src_ch_id ch)
              (src_conn_update_interest (src_ch_id ch) (src_bp_paused ch)) slot (src_conns ch) io;
            Some (ch\<lparr>src_conns := conns\<rparr>, io)
          }
          else Some (ch, io))
   }"

definition src_on_link_connect :: "env \<Rightarrow> tcp_source \<Rightarrow> io \<Rightarrow> (tcp_source \<times> io) option" where
  "src_on_link_connect E ch io = Some (ch\<lparr>src_link_up := True\<rparr>, io)"

definition src_on_link_disconnect :: "env \<Rightarrow> tcp_source \<Rightarrow> io \<Rightarrow> (tcp_source \<times> io) option" where
  "src_on_link_disconnect E ch io = src_close_all E (ch\<lparr>src_link_up := False\<rparr>) io"

definition src_tick :: "env \<Rightarrow> instant \<Rightarrow> tcp_source \<Rightarrow> io \<Rightarrow> (tcp_source \<times> io) option" where
  "src_tick E t ch io = Some (ch, io)"

definition src_next_deadline :: "tcp_source \<Rightarrow> instant option" where
  "src_next_deadline ch = None"

definition src_handle_event ::
  "env \<Rightarrow> token \<Rightarrow> bool \<Rightarrow> bool \<Rightarrow> tcp_source \<Rightarrow> io \<Rightarrow> (tcp_source \<times> io) option" where
  "src_handle_event E token readable writable ch io = do {
     p \<leftarrow> primary_token (src_ch_id ch);
     (if token = p
      then if readable then src_accept E ch io else Some (ch, io)
      else src_tcp_event E token readable writable ch io)
   }"

definition src_close :: "env \<Rightarrow> tcp_source \<Rightarrow> io \<Rightarrow> (tcp_source \<times> io) option" where
  "src_close E ch io = do {
     (ch, io) \<leftarrow> src_close_all E ch io;
     Some (ch, call (Deregister (src_listener ch)) io)
   }"

definition src_update_all :: "tcp_source \<Rightarrow> io \<Rightarrow> (tcp_source \<times> io) option" where
  "src_update_all ch io = do {
     (conns, io) \<leftarrow> for_slots (update_slot (src_conn_update_interest (src_ch_id ch) (src_bp_paused ch)))
       all_slots (src_conns ch) io;
     Some (ch\<lparr>src_conns := conns\<rparr>, io)
   }"

definition src_pause_source_reads :: "tcp_source \<Rightarrow> io \<Rightarrow> (tcp_source \<times> io) option" where
  "src_pause_source_reads ch io =
     (if src_bp_paused ch then Some (ch, io) else src_update_all (ch\<lparr>src_bp_paused := True\<rparr>) io)"

definition src_resume_source_reads :: "tcp_source \<Rightarrow> io \<Rightarrow> (tcp_source \<times> io) option" where
  "src_resume_source_reads ch io =
     (if \<not> src_bp_paused ch then Some (ch, io) else src_update_all (ch\<lparr>src_bp_paused := False\<rparr>) io)"

definition src_vtable :: "tcp_source vtable" where
  "src_vtable = \<lparr>
     vt_channel_id = src_ch_id, vt_on_frame = src_on_frame, vt_on_link_connect = src_on_link_connect,
     vt_on_link_disconnect = src_on_link_disconnect, vt_tick = src_tick,
     vt_next_deadline = src_next_deadline, vt_handle_event = src_handle_event, vt_close = src_close,
     vt_pause_source_reads = src_pause_source_reads,
     vt_resume_source_reads = src_resume_source_reads\<rparr>"



section \<open>The invariant of the channel\<close>

abbreviation src_conn_ok :: "bool \<Rightarrow> tcp_conn \<Rightarrow> bool" where
  "src_conn_ok bp x \<equiv> conn_ok bp x \<and> \<not> connecting x"

definition src_ok :: "tcp_source \<Rightarrow> bool" where
  "src_ok ch \<longleftrightarrow> id_ok (src_ch_id ch) \<and> conns_ok (src_conn_ok (src_bp_paused ch)) (src_conns ch)"

definition src_view :: "tcp_source \<Rightarrow> chan_view" where
  "src_view ch = \<lparr>cv_id = src_ch_id ch, cv_paused = src_bp_paused ch, cv_linked = Some (src_link_up ch),
     cv_tokens = insert (unat (src_ch_id ch) + 1)
       ((\<lambda>slot. tcp_slot_token (src_ch_id ch) slot) ` {..<MAX_TCP_CONNS})\<rparr>"

lemma src_table_handles:
  assumes "src_ok ch" "table C (src_conn_ok (src_bp_paused ch)) io r"
  shows "handles C src_ok src_view (src_view ch) io
    (r \<bind> (\<lambda>(conns, io). Some (ch\<lparr>src_conns := conns\<rparr>, io)))"
  using assms by (auto simp: table_def src_ok_def src_view_def)

text \<open>Round-robin allocation: it finds a free slot whenever there is one.\<close>

lemma src_alloc_slot_spec:
  assumes "length (src_conns ch) = MAX_TCP_CONNS"
  shows "\<exists>r k. src_alloc_slot n ch = Some (r, ch\<lparr>src_next_slot := src_next_slot ch + k\<rparr>) \<and> k \<le> n
    \<and> (case r of
         Some s \<Rightarrow> 0 < k \<and> s = (src_next_slot ch + k - 1) mod MAX_TCP_CONNS \<and> src_conns ch ! s = None
           \<and> (\<forall>j<k - 1. src_conns ch ! ((src_next_slot ch + j) mod MAX_TCP_CONNS) \<noteq> None)
       | None \<Rightarrow> k = n \<and> (\<forall>j<n. src_conns ch ! ((src_next_slot ch + j) mod MAX_TCP_CONNS) \<noteq> None))"
  using assms
proof (induction n arbitrary: ch)
  case 0
  then show ?case by auto
next
  case (Suc n)
  let ?s = "src_next_slot ch mod MAX_TCP_CONNS" and ?ch = "ch\<lparr>src_next_slot := src_next_slot ch + 1\<rparr>"
  have i: "idx (src_conns ch) ?s = Some (src_conns ch ! ?s)"
    using Suc.prems by (simp add: idx_def mux_consts)
  show ?case
  proof (cases "src_conns ch ! ?s = None")
    case True
    then show ?thesis using i by (intro exI [of _ "Some ?s"] exI [of _ 1]) auto
  next
    case False
    obtain r k where r: "src_alloc_slot n ?ch = Some (r, ?ch\<lparr>src_next_slot := src_next_slot ?ch + k\<rparr>)" "k \<le> n"
      and c: "case r of
         Some s \<Rightarrow> 0 < k \<and> s = (src_next_slot ?ch + k - 1) mod MAX_TCP_CONNS \<and> src_conns ?ch ! s = None
           \<and> (\<forall>j<k - 1. src_conns ?ch ! ((src_next_slot ?ch + j) mod MAX_TCP_CONNS) \<noteq> None)
       | None \<Rightarrow> k = n \<and> (\<forall>j<n. src_conns ?ch ! ((src_next_slot ?ch + j) mod MAX_TCP_CONNS) \<noteq> None)"
      using Suc.IH [of ?ch] Suc.prems by auto
    have shift: "(\<forall>j<Suc m. Q j) \<longleftrightarrow> Q 0 \<and> (\<forall>j<m. Q (Suc j))" for Q :: "nat \<Rightarrow> bool" and m
      by (auto simp: less_Suc_eq_0_disj)
    have "src_alloc_slot (Suc n) ch = Some (r, ch\<lparr>src_next_slot := src_next_slot ch + Suc k\<rparr>)"
      using False i r by (auto simp: Let_def)
    moreover have "case r of
         Some s \<Rightarrow> 0 < Suc k \<and> s = (src_next_slot ch + Suc k - 1) mod MAX_TCP_CONNS \<and> src_conns ch ! s = None
           \<and> (\<forall>j<Suc k - 1. src_conns ch ! ((src_next_slot ch + j) mod MAX_TCP_CONNS) \<noteq> None)
       | None \<Rightarrow> Suc k = Suc n \<and> (\<forall>j<Suc n. src_conns ch ! ((src_next_slot ch + j) mod MAX_TCP_CONNS) \<noteq> None)"
    proof (cases r)
      case None
      with c False show ?thesis by (simp add: shift)
    next
      case (Some s)
      then obtain k' where "k = Suc k'" using c by (cases k) auto
      with c False Some show ?thesis by (auto simp: shift)
    qed
    ultimately show ?thesis using r(2) by (intro exI [of _ r] exI [of _ "Suc k"]) auto
  qed
qed

lemma alloc_slot_ok:
  assumes "src_ok ch"
  shows "\<exists>r k. alloc_slot ch = Some (r, ch\<lparr>src_next_slot := k\<rparr>)
    \<and> (\<forall>s. r = Some s \<longrightarrow> s < MAX_TCP_CONNS \<and> src_conns ch ! s = None)"
proof -
  have l: "length (src_conns ch) = MAX_TCP_CONNS" using assms by (simp add: src_ok_def conns_ok_def)
  have pos: "0 < MAX_TCP_CONNS" by (simp add: mux_consts)
  obtain r k where r: "alloc_slot ch = Some (r, ch\<lparr>src_next_slot := src_next_slot ch + k\<rparr>)"
    "case r of Some s \<Rightarrow> 0 < k \<and> s = (src_next_slot ch + k - 1) mod MAX_TCP_CONNS \<and> src_conns ch ! s = None
           \<and> (\<forall>j<k - 1. src_conns ch ! ((src_next_slot ch + j) mod MAX_TCP_CONNS) \<noteq> None)
       | None \<Rightarrow> k = MAX_TCP_CONNS
           \<and> (\<forall>j<MAX_TCP_CONNS. src_conns ch ! ((src_next_slot ch + j) mod MAX_TCP_CONNS) \<noteq> None)"
    using src_alloc_slot_spec [OF l, of MAX_TCP_CONNS] by blast
  have "s < MAX_TCP_CONNS \<and> src_conns ch ! s = None" if "r = Some s" for s
    using r(2) that pos by auto
  with r(1) show ?thesis by blast
qed

lemma src_accept_loop_ok:
  assumes "src_ok ch" "txq_inv (io_txq io)"
  shows "handles (own E (src_view ch)) src_ok src_view (src_view ch) io (src_accept_loop E rs ch io)"
  using assms
proof (induction rs arbitrary: ch io)
  case Nil
  then show ?case by simp
next
  case (Cons r rs)
  show ?case
  proof (cases r)
    case (AcceptErr e)
    then show ?thesis using Cons.prems by simp
  next
    case (Accepted f)
    let ?io = "call (OpenFd f) io"
    have e: "emits (own E (src_view ch)) io ?io" by (intro emits_call) auto
    have drop_it: "emits (own E (src_view ch)) io (call (CloseFd f) ?io)" using e by (intro emits_call) auto
    have go: "handles (own E (src_view ch)) src_ok src_view (src_view ch) io (src_accept_loop E rs ch' io')"
      if "src_ok ch'" "src_view ch' = src_view ch" "emits (own E (src_view ch)) io io'" for ch' io'
      using handles_from [OF Cons.IH [OF that(1) emits_inv [OF that(3) Cons.prems(2)]]] that by simp
    show ?thesis
    proof (cases "src_link_up ch")
      case False
      then show ?thesis using Accepted go [OF Cons.prems(1) refl drop_it] by (simp add: Let_def)
    next
      case True
      obtain a k where a: "alloc_slot ch = Some (a, ch\<lparr>src_next_slot := k\<rparr>)"
        "\<forall>s. a = Some s \<longrightarrow> s < MAX_TCP_CONNS \<and> src_conns ch ! s = None"
        using alloc_slot_ok [OF Cons.prems(1)] by blast
      let ?ch = "ch\<lparr>src_next_slot := k\<rparr>"
      have ok: "src_ok ?ch" "src_view ?ch = src_view ch" using Cons.prems by (auto simp: src_ok_def src_view_def)
      show ?thesis
      proof (cases a)
        case None
        then show ?thesis using Accepted True a(1) go [OF ok drop_it] by (simp add: Let_def)
      next
        case (Some s)
        have s: "s < MAX_TCP_CONNS" using a Some by auto
        let ?conn = "\<lparr>stream = f, txbuf = [], connecting = False, in_sel = True, close_pending = False\<rparr>"
        let ?ch' = "?ch\<lparr>src_conns := (src_conns ch)[s := Some ?conn]\<rparr>"
        have set: "set_idx (src_conns ch) s (Some ?conn) = Some ((src_conns ch)[s := Some ?conn])"
          using Cons.prems(1) s by (simp add: src_ok_def conns_ok_def set_idx_def)
        have "src_conn_ok (src_bp_paused ch) ?conn" by (simp add: conn_ok_def conn_base_def)
        then have ok': "src_ok ?ch'" "src_view ?ch' = src_view ch"
          using Cons.prems by (auto simp: src_ok_def src_view_def)
        have v: "cv_id (src_view ch) = src_ch_id ch" by (simp add: src_view_def)
        have id: "id_ok (src_ch_id ch)" using Cons.prems by (simp add: src_ok_def)
        have cid: "own_frame (env_crc E) (src_ch_id ch)
            (build_frame (env_crc E) F_TCONN (src_ch_id ch) (pack_cid (of_nat s)))"
          by (rule own_frameI) (auto simp: pack_cid_def mux_consts)
        let ?tok = "tcp_slot_token (src_ch_id ch) s"
        let ?reg = "call (Register f ?tok READABLE_WRITABLE) (next_call ?io)"
        have "emits (own E (src_view ch)) io (call (CloseFd f) (next_call ?io))"
          using e by (intro emits_call emits_next) auto
        note fail = go [OF ok this]
        have "emits (own E (src_view ch)) io
            (send (build_frame (env_crc E) F_TCONN (src_ch_id ch) (pack_cid (of_nat s))) ?reg)"
          using e cid tcp_slot_token_routes(1) [OF id s] v
          by (intro emits_send emits_call emits_next) simp_all
        note succ = go [OF ok' this]
        show ?thesis
        proof (cases "env_register E (io_n io) f ?tok")
          case None
          then show ?thesis using Accepted True a(1) Some set Cons.prems(2) succ by (simp add: Let_def)
        next
          case (Some x)
          then show ?thesis using Accepted True a(1) \<open>a = Some s\<close> fail by (simp add: Let_def)
        qed
      qed
    qed
  qed
qed

lemma src_update_one_ok:
  assumes "src_ok ch" "slot < MAX_TCP_CONNS" "conn_base conn" "\<not> connecting conn"
    "emits (own E (src_view ch)) io io1"
  shows "handles (own E (src_view ch)) src_ok src_view (src_view ch) io
    (src_update_conn_interest slot (ch\<lparr>src_conns := (src_conns ch)[slot := Some conn]\<rparr>) io1)"
proof -
  have "table (quiet_call (src_ch_id ch)) (src_conn_ok (src_bp_paused ch)) io1
      (update_slot (src_conn_update_interest (src_ch_id ch) (src_bp_paused ch)) slot
         ((src_conns ch)[slot := Some conn]) io1)"
    using assms update_slot_ok [OF src_upd_ok] by (simp add: src_ok_def)
  from table_from [OF table_mono [OF this quiet_own]] assms(5)
  have "table (own E (src_view ch)) (src_conn_ok (src_bp_paused ch)) io
      (update_slot (src_conn_update_interest (src_ch_id ch) (src_bp_paused ch)) slot
         ((src_conns ch)[slot := Some conn]) io1)"
    by (simp add: src_view_def)
  from src_table_handles [OF assms(1) this] show ?thesis by (simp add: src_update_conn_interest_def)
qed

lemma src_tcp_event_ok:
  assumes E: "env_ok E" and ok: "src_ok ch" and q: "txq_inv (io_txq io)" and s: "slot < MAX_TCP_CONNS"
  shows "handles (own E (src_view ch)) src_ok src_view (src_view ch) io
    (src_tcp_event E (tcp_slot_token (src_ch_id ch) slot) r w ch io)"
proof -
  let ?P = "src_conn_ok (src_bp_paused ch)" and ?C = "own E (src_view ch)"
  have id: "id_ok (src_ch_id ch)" and co: "conns_ok ?P (src_conns ch)" using ok by (auto simp: src_ok_def)
  have v: "cv_id (src_view ch) = src_ch_id ch" by (simp add: src_view_def)
  have tok: "usub (tcp_slot_token (src_ch_id ch) slot) TCP_BASE = Some (tcp_slot_token (src_ch_id ch) slot - TCP_BASE)"
    by (simp add: usub_def tcp_slot_token_def)
  have l: "length (src_conns ch) = MAX_TCP_CONNS" using co by (simp add: conns_ok_def)
  have none: "src_ok (ch\<lparr>src_conns := (src_conns ch)[slot := None]\<rparr>)"
    "src_view (ch\<lparr>src_conns := (src_conns ch)[slot := None]\<rparr>) = src_view ch"
    using ok by (auto simp: src_ok_def src_view_def)
  have base: "conn_base x \<and> \<not> connecting x" if "src_conns ch ! slot = Some x" for x
    using co s that by (auto simp: conns_ok_def list_all_length conn_ok_def dest!: spec [of _ slot])
  obtain b conns1 io1 where rd:
    "(if r then conn_read E (src_ch_id ch) (src_link_up ch) close_pending slot (src_conns ch) io
      else Some (False, src_conns ch, io)) = Some (b, conns1, io1)" "emits ?C io io1"
    "if b then conns1 = (src_conns ch)[slot := None] else conns1 = src_conns ch"
    using conn_read_conns [OF l s q, of E "src_ch_id ch" "src_link_up ch" close_pending] v
    by (cases r) auto
  show ?thesis
  proof (cases "b \<or> \<not> w")
    case True
    then show ?thesis using tok rd none ok tcp_slot_token_routes(2) [OF id s]
      by (auto simp: src_tcp_event_def src_ok_def src_view_def split: if_splits)
  next
    case False
    then have c1: "conns1 = src_conns ch" using rd(3) by simp
    obtain b2 conns2 io2 where wr:
      "conn_write E (src_ch_id ch) (src_link_up ch) (\<lambda>_. False) slot (src_conns ch) io1 = Some (b2, conns2, io2)"
      "emits ?C io1 io2" "if b2 then conns2 = (src_conns ch)[slot := None]
       else \<exists>conn. conns2 = (src_conns ch)[slot := Some conn] \<and> conn_base conn \<and> \<not> connecting conn"
      using conn_write_conns [OF E l s emits_inv [OF rd(2) q] base, of "src_ch_id ch" "src_link_up ch" "\<lambda>_. False"] v
      by auto
    have e: "emits ?C io io2" using rd(2) wr(2) by (rule emits_trans)
    show ?thesis
    proof (cases b2)
      case True
      then show ?thesis using tok rd wr False e none tcp_slot_token_routes(2) [OF id s]
        by (simp add: src_tcp_event_def c1)
    next
      case nr: False
      then obtain conn where conn: "conns2 = (src_conns ch)[slot := Some conn]" "conn_base conn" "\<not> connecting conn"
        using wr(3) by auto
      have "handles ?C src_ok src_view (src_view ch) io
        (src_update_conn_interest slot (ch\<lparr>src_conns := conns2\<rparr>) io2)"
        using src_update_one_ok [OF ok s conn(2,3) e] conn(1) by simp
      then show ?thesis using tok rd wr False nr tcp_slot_token_routes(2) [OF id s]
        by (simp add: src_tcp_event_def c1)
    qed
  qed
qed

lemma src_close_all_ok:
  assumes "src_ok ch"
  shows "\<exists>io'. src_close_all E ch io = Some (ch\<lparr>src_conns := no_conns\<rparr>, io')
    \<and> emits (quiet (src_view ch)) io io' \<and> io_txq io' = io_txq io"
proof -
  have l: "length (src_conns ch) = MAX_TCP_CONNS" using assms by (simp add: src_ok_def conns_ok_def)
  obtain io' where c: "for_slots (close_conn E (src_ch_id ch) False) all_slots (src_conns ch)
      (io\<lparr>io_txq := txq_new\<rparr>) = Some (no_conns, io')"
    "emits (quiet_call (src_ch_id ch)) (io\<lparr>io_txq := txq_new\<rparr>) io'" "io_txq io' = txq_new"
    using close_all_eq [OF l, of E "src_ch_id ch" "io\<lparr>io_txq := txq_new\<rparr>"] by auto
  have "emits (quiet_call (src_ch_id ch)) io (io'\<lparr>io_txq := io_txq io\<rparr>)"
    using emits_quiet_swap [OF c(2), of "io_txq io"] by (simp add: quiet_call_def)
  then show ?thesis using c by (simp add: src_close_all_def src_view_def)
qed

lemma src_update_all_ok:
  assumes "id_ok (src_ch_id ch)" "conns_ok (src_conn_ok bp) (src_conns ch)"
  shows "handles (quiet (src_view ch)) src_ok src_view (src_view ch) io (src_update_all ch io)"
proof -
  have "conns_ok (\<lambda>x. conn_base x \<and> \<not> connecting x) (src_conns ch)"
    by (rule conns_ok_mono [OF assms(2)]) (simp add: conn_ok_def)
  from update_all_ok [OF src_upd_ok [OF assms(1), of "src_bp_paused ch"] this, of io] assms(1)
  show ?thesis by (auto simp: src_update_all_def table_def src_ok_def src_view_def)
qed

lemma src_on_frame_ok:
  assumes ok: "src_ok ch" and q: "txq_inv (io_txq io)"
  shows "handles (own E (src_view ch)) src_ok src_view (src_view ch) io (src_on_frame E t p ch io)"
proof -
  let ?P = "src_conn_ok (src_bp_paused ch)" and ?upd = "src_conn_update_interest (src_ch_id ch) (src_bp_paused ch)"
  have id: "id_ok (src_ch_id ch)" and co: "conns_ok ?P (src_conns ch)" using ok by (auto simp: src_ok_def)
  note u = src_upd_ok [OF id, of "src_bp_paused ch"]
  have td: "table (own E (src_view ch)) ?P io
      (conn_tdata E (src_ch_id ch) (src_link_up ch) ?upd slot d (src_conns ch) io)"
    if "slot < MAX_TCP_CONNS" for slot d
    using conn_tdata_ok [OF u co that q] by (simp add: src_view_def conn_ok_def conn_base_def)
  have tc: "table (own E (src_view ch)) ?P io (conn_tclose E (src_ch_id ch) ?upd slot (src_conns ch) io)"
    if "slot < MAX_TCP_CONNS" for slot
    using table_mono [OF conn_tclose_ok [OF u co that] quiet_own]
    by (simp add: src_view_def conn_ok_def conn_base_def)
  show ?thesis
    using ok src_table_handles [OF ok td] src_table_handles [OF ok tc]
    by (auto simp: src_on_frame_def unpack_cid_eq Let_def not_le)
qed

interpretation src: channel src_vtable src_ok src_view
proof unfold_locales
  fix E ch io t p n tk r w
  show "vt_channel_id src_vtable ch = cv_id (src_view ch)" by (simp add: src_vtable_def src_view_def)
  show "src_ok ch \<Longrightarrow> id_ok (cv_id (src_view ch))" by (simp add: src_ok_def src_view_def)
  assume ok: "src_ok ch"
  have id: "id_ok (src_ch_id ch)" and co: "conns_ok (src_conn_ok (src_bp_paused ch)) (src_conns ch)"
    using ok by (auto simp: src_ok_def)
  show "handles (quiet (src_view ch)) src_ok src_view (src_view ch) io (vt_close src_vtable E ch io)"
    using src_close_all_ok [OF ok, of E io] id
    by (auto simp: src_vtable_def src_close_def src_ok_def src_view_def quiet_call_def intro!: emits_call)
  have ok': "src_ok (ch\<lparr>src_link_up := False\<rparr>)" using ok by (simp add: src_ok_def)
  show "handles (quiet (src_view ch)) src_ok src_view (view_step LinkDisconnect (src_view ch)) io
      (vt_on_link_disconnect src_vtable E ch io)"
    using src_close_all_ok [OF ok', of E io] id
    by (auto simp: src_vtable_def src_on_link_disconnect_def src_ok_def src_view_def)
  show "handles (quiet (src_view ch)) src_ok src_view (view_step Pause (src_view ch)) io
      (vt_pause_source_reads src_vtable ch io)"
    using src_update_all_ok [of "ch\<lparr>src_bp_paused := True\<rparr>"] id co ok
    by (auto simp: src_vtable_def src_pause_source_reads_def src_view_def)
  show "handles (quiet (src_view ch)) src_ok src_view (view_step Resume (src_view ch)) io
      (vt_resume_source_reads src_vtable ch io)"
    using src_update_all_ok [of "ch\<lparr>src_bp_paused := False\<rparr>"] id co ok
    by (auto simp: src_vtable_def src_resume_source_reads_def src_view_def)
  assume E: "env_ok E" and q: "txq_inv (io_txq io)"
  show "handles (own E (src_view ch)) src_ok src_view (view_step LinkConnect (src_view ch)) io
      (vt_on_link_connect src_vtable E ch io)"
    using ok by (simp add: src_vtable_def src_on_link_connect_def src_ok_def src_view_def)
  show "handles (own E (src_view ch)) src_ok src_view (src_view ch) io (vt_on_frame src_vtable E t p ch io)"
    using src_on_frame_ok [OF ok q] by (simp add: src_vtable_def)
  show "handles (own E (src_view ch)) src_ok src_view (src_view ch) io (vt_tick src_vtable E n ch io)"
    using ok by (simp add: src_vtable_def src_tick_def)
  assume tk: "tk \<in> cv_tokens (src_view ch)"
  show "handles (own E (src_view ch)) src_ok src_view (src_view ch) io
      (vt_handle_event src_vtable E tk r w ch io)"
  proof (cases "tk = unat (src_ch_id ch) + 1")
    case True
    have "handles (own E (src_view ch)) src_ok src_view (src_view ch) io (src_accept E ch io)"
      unfolding src_accept_def
      by (rule handles_from [OF src_accept_loop_ok]) (use ok q in auto)
    then show ?thesis using True ok id
      by (simp add: src_vtable_def src_handle_event_def primary_token_ok)
  next
    case False
    then obtain slot where "tk = tcp_slot_token (src_ch_id ch) slot" "slot < MAX_TCP_CONNS"
      using tk by (auto simp: src_view_def)
    then show ?thesis using False src_tcp_event_ok [OF E ok q] id
      by (simp add: src_vtable_def src_handle_event_def primary_token_ok)
  qed
qed



section \<open>Idle while the link is down\<close>

definition src_idle :: "tcp_source \<Rightarrow> bool" where
  "src_idle ch \<longleftrightarrow> \<not> src_link_up ch \<and> src_conns ch = no_conns"

lemma src_accept_loop_idle:
  "\<not> src_link_up ch \<Longrightarrow> src_accept_loop E rs ch io = Some (ch', io') \<Longrightarrow> ch' = ch \<and> io_txq io' = io_txq io"
  by (induction E rs ch io rule: src_accept_loop.induct) (auto simp: Let_def)

lemma src_tcp_event_idle:
  assumes "src_idle ch" "src_tcp_event E tk r w ch io = Some (ch', io')"
  shows "src_idle ch' \<and> io_txq io' = io_txq io"
proof -
  have "x mod MAX_TCP_CONNS < MAX_TCP_CONNS" for x by (simp add: mux_consts)
  then have i: "idx no_conns (x mod MAX_TCP_CONNS) = Some None" for x by (rule no_conns_idx)
  have c: "src_conns ch = no_conns" "ch\<lparr>src_conns := no_conns\<rparr> = ch" using assms(1) by (auto simp: src_idle_def)
  show ?thesis using assms
    by (cases r; cases w; cases "usub tk TCP_BASE")
       (simp_all add: src_tcp_event_def Let_def conn_read_def conn_write_def i c)
qed

interpretation src_idling: idle_channel src_vtable src_ok src_view src_idle
proof unfold_locales
  fix E ch io ch' io' and x :: chan_op
  have close: "src_idle ch' \<and> io_txq io' = io_txq io"
    if "src_ok c" "\<not> src_link_up c" "src_close_all E c io = Some (ch', io')" for c
    using src_close_all_ok [OF that(1), of E io] that(2,3) by (auto simp: src_idle_def)
  have ok': "src_ok (ch\<lparr>src_link_up := False\<rparr>) = src_ok ch" by (simp add: src_ok_def)
  show "src_ok ch \<Longrightarrow> chan_step src_vtable E LinkDisconnect ch io = Some (ch', io') \<Longrightarrow> src_idle ch'"
    using close [of "ch\<lparr>src_link_up := False\<rparr>"] ok' by (auto simp: src_vtable_def src_on_link_disconnect_def)
  assume ok: "src_ok ch" and i: "src_idle ch" and x: "spontaneous x"
    and s: "chan_step src_vtable E x ch io = Some (ch', io')"
  have upd: "src_update_all c io = Some (c, io)" if "src_conns c = no_conns" for c
    using that for_slots_no_conns(1) [of all_slots] by (simp add: src_update_all_def)
  show "src_idle ch' \<and> io_txq io' = io_txq io"
  proof (cases x)
    case (Event tk r w)
    then show ?thesis using s i src_accept_loop_idle [of ch E _ "next_call io" ch' io'] src_tcp_event_idle [OF i]
      by (auto simp: src_vtable_def src_handle_event_def src_accept_def src_idle_def split: bind_splits if_splits)
  next
    case LinkDisconnect
    then show ?thesis using s close [of "ch\<lparr>src_link_up := False\<rparr>"] ok ok'
      by (auto simp: src_vtable_def src_on_link_disconnect_def)
  next
    case Close
    then obtain io1 where "src_close_all E ch io = Some (ch', io1)" "io' = call (Deregister (src_listener ch')) io1"
      using s by (auto simp: src_vtable_def src_close_def split: bind_splits)
    then show ?thesis using src_close_all_ok [OF ok, of E io] i by (auto simp: src_idle_def)
  qed (use s i x upd in \<open>auto simp: src_vtable_def src_tick_def src_pause_source_reads_def
      src_resume_source_reads_def src_idle_def split: if_splits\<close>)
qed

end
