(* ===== verification/Tcp_Dest.thy ===== *)
theory Tcp_Dest
  imports Tcp_Conn
begin

text \<open>
  The host-side TCP channel (\<^verbatim>\<open>channel.rs\<close>, \<open>TcpDestChannel\<close>): opens a connection to the
  configured service for every \<open>F_TCONN\<close> and relays both directions.
\<close>

record tcp_dest =
  dst_ch_id :: u8
  dst_dest_addr :: string
  dst_dest_port :: u16
  dst_conns :: conns
  dst_bp_paused :: bool

definition dst_new :: "u8 \<Rightarrow> string \<Rightarrow> u16 \<Rightarrow> tcp_dest" where
  "dst_new ch_id dest_addr dest_port =
     \<lparr>dst_ch_id = ch_id, dst_dest_addr = dest_addr, dst_dest_port = dest_port, dst_conns = no_conns,
      dst_bp_paused = False\<rparr>"

definition dst_open_conn :: "env \<Rightarrow> nat \<Rightarrow> tcp_dest \<Rightarrow> io \<Rightarrow> (tcp_dest \<times> io) option" where
  "dst_open_conn E slot ch io =
     (let refuse = (\<lambda>io. do {
            io \<leftarrow> txq_enqueue (build_frame (env_crc E) F_TCLOSE (dst_ch_id ch) (pack_cid (of_nat slot))) io;
            Some (ch, io) })
      in case env_parse_addr E (dst_dest_addr ch) (unat (dst_dest_port ch)) of
        None \<Rightarrow> refuse io
      | Some addr \<Rightarrow>
          (case env_connect E (io_n io) addr of
             Inl e \<Rightarrow> refuse (next_call io)
           | Inr f \<Rightarrow>
               let io = call (OpenFd f) (next_call io);
                   token = tcp_slot_token (dst_ch_id ch) slot
               in if env_register E (io_n io) f token \<noteq> None
                  then do {
                    (ch, io) \<leftarrow> refuse (next_call io);
                    Some (ch, call (CloseFd f) io)
                  }
                  else do {
                    let io = call (Register f token (interest_or READABLE WRITABLE)) (next_call io);
                    conns \<leftarrow> set_idx (dst_conns ch) slot
                      (Some \<lparr>stream = f, txbuf = [], connecting = True, in_sel = True, close_pending = False\<rparr>);
                    Some (ch\<lparr>dst_conns := conns\<rparr>, io)
                  }))"

definition dst_close_slot ::
  "env \<Rightarrow> nat \<Rightarrow> bool \<Rightarrow> tcp_dest \<Rightarrow> io \<Rightarrow> (tcp_dest \<times> io) option" where
  "dst_close_slot E slot notify ch io = do {
     (conns, io) \<leftarrow> close_conn E (dst_ch_id ch) notify slot (dst_conns ch) io;
     Some (ch\<lparr>dst_conns := conns\<rparr>, io)
   }"

definition dst_update_conn_interest :: "nat \<Rightarrow> tcp_dest \<Rightarrow> io \<Rightarrow> (tcp_dest \<times> io) option" where
  "dst_update_conn_interest slot ch io = do {
     (conns, io) \<leftarrow> update_slot (dst_conn_update_interest (dst_ch_id ch) (dst_bp_paused ch)) slot (dst_conns ch) io;
     Some (ch\<lparr>dst_conns := conns\<rparr>, io)
   }"

definition dst_update_conn_interest_all :: "tcp_dest \<Rightarrow> io \<Rightarrow> (tcp_dest \<times> io) option" where
  "dst_update_conn_interest_all ch io = do {
     (conns, io) \<leftarrow> for_slots (update_slot (dst_conn_update_interest (dst_ch_id ch) (dst_bp_paused ch)))
       all_slots (dst_conns ch) io;
     Some (ch\<lparr>dst_conns := conns\<rparr>, io)
   }"

text \<open>The end of an asynchronous connect; the first flag says that it failed.\<close>

definition dst_finish_connect :: "env \<Rightarrow> bool \<Rightarrow> tcp_conn \<Rightarrow> io \<Rightarrow> bool \<times> tcp_conn \<times> io" where
  "dst_finish_connect E writable conn io =
     (if connecting conn \<and> writable
      then if env_peer_addr E (io_n io) (stream conn)
           then (False, conn\<lparr>connecting := False\<rparr>, next_call io)
           else (True, conn, next_call io)
      else (False, conn, io))"

definition dst_tcp_event ::
  "env \<Rightarrow> token \<Rightarrow> bool \<Rightarrow> bool \<Rightarrow> tcp_dest \<Rightarrow> io \<Rightarrow> (tcp_dest \<times> io) option" where
  "dst_tcp_event E token readable writable ch io = do {
     t \<leftarrow> usub token TCP_BASE;
     let slot = t mod MAX_TCP_CONNS;
     c \<leftarrow> idx (dst_conns ch) slot;
     (case c of
        None \<Rightarrow> Some (ch, io)
      | Some conn \<Rightarrow> do {
          let (connect_failed, conn, io) = dst_finish_connect E writable conn io;
          let conns = (dst_conns ch)[slot := Some conn];
          (if connect_failed
           then dst_close_slot E slot True (ch\<lparr>dst_conns := conns\<rparr>) io
           else do {
             (ret, conns, io) \<leftarrow>
               (if writable then conn_write E (dst_ch_id ch) True connecting slot conns io
                else Some (False, conns, io));
             (if ret then Some (ch\<lparr>dst_conns := conns\<rparr>, io)
              else do {
                (ret, conns, io) \<leftarrow>
                  (if readable
                   then conn_read E (dst_ch_id ch) True (\<lambda>conn. connecting conn \<or> close_pending conn) slot conns io
                   else Some (False, conns, io));
                (if ret then Some (ch\<lparr>dst_conns := conns\<rparr>, io)
                 else dst_update_conn_interest slot (ch\<lparr>dst_conns := conns\<rparr>) io)
              })
           })
        })
   }"

text \<open>The loop of \<open>close_slot(slot, false, &mut dummy, reg)\<close> over all slots.\<close>

definition dst_close_all :: "env \<Rightarrow> tcp_dest \<Rightarrow> io \<Rightarrow> (tcp_dest \<times> io) option" where
  "dst_close_all E ch io = do {
     (conns, io') \<leftarrow> for_slots (close_conn E (dst_ch_id ch) False) all_slots (dst_conns ch)
                       (io\<lparr>io_txq := txq_new\<rparr>);
     Some (ch\<lparr>dst_conns := conns\<rparr>, io'\<lparr>io_txq := io_txq io\<rparr>)
   }"


section \<open>The channel interface\<close>

definition dst_on_frame ::
  "env \<Rightarrow> u8 \<Rightarrow> bytes \<Rightarrow> tcp_dest \<Rightarrow> io \<Rightarrow> (tcp_dest \<times> io) option" where
  "dst_on_frame E ftype payload ch io = do {
     u \<leftarrow> unpack_cid payload;
     (case u of
        None \<Rightarrow> Some (ch, io)
      | Some (cid, data) \<Rightarrow>
          let slot = unat cid in
          if slot \<ge> MAX_TCP_CONNS then Some (ch, io)
          else if ftype = F_TCONN then do {
            c \<leftarrow> idx (dst_conns ch) slot;
            (if c = None then dst_open_conn E slot ch io else Some (ch, io))
          }
          else if ftype = F_TDATA then do {
            (conns, io) \<leftarrow> conn_tdata E (dst_ch_id ch) True
              (dst_conn_update_interest (dst_ch_id ch) (dst_bp_paused ch)) slot data (dst_conns ch) io;
            Some (ch\<lparr>dst_conns := conns\<rparr>, io)
          }
          else if ftype = F_TCLOSE then do {
            (conns, io) \<leftarrow> conn_tclose E (dst_ch_id ch)
              (dst_conn_update_interest (dst_ch_id ch) (dst_bp_paused ch)) slot (dst_conns ch) io;
            Some (ch\<lparr>dst_conns := conns\<rparr>, io)
          }
          else Some (ch, io))
   }"

definition dst_on_link_connect :: "env \<Rightarrow> tcp_dest \<Rightarrow> io \<Rightarrow> (tcp_dest \<times> io) option" where
  "dst_on_link_connect E ch io = dst_close_all E ch io"

definition dst_on_link_disconnect :: "env \<Rightarrow> tcp_dest \<Rightarrow> io \<Rightarrow> (tcp_dest \<times> io) option" where
  "dst_on_link_disconnect E ch io = dst_close_all E ch io"

definition dst_tick :: "env \<Rightarrow> instant \<Rightarrow> tcp_dest \<Rightarrow> io \<Rightarrow> (tcp_dest \<times> io) option" where
  "dst_tick E t ch io = Some (ch, io)"

definition dst_next_deadline :: "tcp_dest \<Rightarrow> instant option" where
  "dst_next_deadline ch = None"

definition dst_handle_event ::
  "env \<Rightarrow> token \<Rightarrow> bool \<Rightarrow> bool \<Rightarrow> tcp_dest \<Rightarrow> io \<Rightarrow> (tcp_dest \<times> io) option" where
  "dst_handle_event E token readable writable ch io = dst_tcp_event E token readable writable ch io"

definition dst_close :: "env \<Rightarrow> tcp_dest \<Rightarrow> io \<Rightarrow> (tcp_dest \<times> io) option" where
  "dst_close E ch io = dst_close_all E ch io"

definition dst_pause_source_reads :: "tcp_dest \<Rightarrow> io \<Rightarrow> (tcp_dest \<times> io) option" where
  "dst_pause_source_reads ch io =
     (if dst_bp_paused ch then Some (ch, io)
      else dst_update_conn_interest_all (ch\<lparr>dst_bp_paused := True\<rparr>) io)"

definition dst_resume_source_reads :: "tcp_dest \<Rightarrow> io \<Rightarrow> (tcp_dest \<times> io) option" where
  "dst_resume_source_reads ch io =
     (if \<not> dst_bp_paused ch then Some (ch, io)
      else dst_update_conn_interest_all (ch\<lparr>dst_bp_paused := False\<rparr>) io)"

definition dst_vtable :: "tcp_dest vtable" where
  "dst_vtable = \<lparr>
     vt_channel_id = dst_ch_id, vt_on_frame = dst_on_frame, vt_on_link_connect = dst_on_link_connect,
     vt_on_link_disconnect = dst_on_link_disconnect, vt_tick = dst_tick,
     vt_next_deadline = dst_next_deadline, vt_handle_event = dst_handle_event, vt_close = dst_close,
     vt_pause_source_reads = dst_pause_source_reads,
     vt_resume_source_reads = dst_resume_source_reads\<rparr>"


section \<open>The invariant of the channel\<close>

definition dst_ok :: "tcp_dest \<Rightarrow> bool" where
  "dst_ok ch \<longleftrightarrow> id_ok (dst_ch_id ch) \<and> conns_ok (conn_ok (dst_bp_paused ch)) (dst_conns ch)"

definition dst_view :: "tcp_dest \<Rightarrow> chan_view" where
  "dst_view ch = \<lparr>cv_id = dst_ch_id ch, cv_paused = dst_bp_paused ch, cv_linked = None,
     cv_tokens = (\<lambda>slot. tcp_slot_token (dst_ch_id ch) slot) ` {..<MAX_TCP_CONNS}\<rparr>"

lemma dst_view_conns [simp]:
  "dst_view (ch\<lparr>dst_conns := conns\<rparr>) = dst_view ch" "cv_id (dst_view ch) = dst_ch_id ch"
  by (simp_all add: dst_view_def)

lemma dst_table_handles:
  assumes "dst_ok ch" "table C (conn_ok (dst_bp_paused ch)) io r"
  shows "handles C dst_ok dst_view (dst_view ch) io
    (r \<bind> (\<lambda>(conns, io). Some (ch\<lparr>dst_conns := conns\<rparr>, io)))"
  using assms by (auto simp: table_def dst_ok_def)

lemma dst_close_all_ok:
  assumes "dst_ok ch"
  shows "\<exists>io'. dst_close_all E ch io = Some (ch\<lparr>dst_conns := no_conns\<rparr>, io')
    \<and> emits (quiet (dst_view ch)) io io' \<and> io_txq io' = io_txq io"
proof -
  have l: "length (dst_conns ch) = MAX_TCP_CONNS" using assms by (simp add: dst_ok_def conns_ok_def)
  obtain io' where c: "for_slots (close_conn E (dst_ch_id ch) False) all_slots (dst_conns ch)
      (io\<lparr>io_txq := txq_new\<rparr>) = Some (no_conns, io')"
    "emits (quiet_call (dst_ch_id ch)) (io\<lparr>io_txq := txq_new\<rparr>) io'" "io_txq io' = txq_new"
    using close_all_eq [OF l, of E "dst_ch_id ch" "io\<lparr>io_txq := txq_new\<rparr>"] by auto
  have "emits (quiet_call (dst_ch_id ch)) io (io'\<lparr>io_txq := io_txq io\<rparr>)"
    using emits_quiet_swap [OF c(2), of "io_txq io"] by (simp add: quiet_call_def)
  then show ?thesis using c by (simp add: dst_close_all_def)
qed

lemma dst_close_all_handles:
  "dst_ok ch \<Longrightarrow> handles (quiet (dst_view ch)) dst_ok dst_view (dst_view ch) io (dst_close_all E ch io)"
  using dst_close_all_ok [of ch E io] by (auto simp: dst_ok_def)

lemma dst_update_all_ok:
  assumes "id_ok (dst_ch_id ch)" "conns_ok (conn_ok bp) (dst_conns ch)"
  shows "handles (quiet (dst_view ch)) dst_ok dst_view (dst_view ch) io (dst_update_conn_interest_all ch io)"
proof -
  have "conns_ok conn_base (dst_conns ch)"
    by (rule conns_ok_mono [OF assms(2)]) (simp add: conn_ok_def)
  from update_all_ok [OF dst_upd_ok [OF assms(1), of "dst_bp_paused ch"] this, of io] assms(1)
  show ?thesis by (auto simp: dst_update_conn_interest_all_def table_def dst_ok_def)
qed

lemma dst_open_conn_ok:
  assumes ok: "dst_ok ch" and q: "txq_inv (io_txq io)" and s: "slot < MAX_TCP_CONNS"
  shows "handles (own E (dst_view ch)) dst_ok dst_view (dst_view ch) io (dst_open_conn E slot ch io)"
proof -
  let ?C = "own E (dst_view ch)"
  let ?conn = "\<lambda>f. \<lparr>stream = f, txbuf = [], connecting = True, in_sel = True, close_pending = False\<rparr>"
  have id: "id_ok (dst_ch_id ch)" and l: "slot < length (dst_conns ch)"
    using ok s by (auto simp: dst_ok_def conns_ok_def)
  have c: "conn_ok bp (?conn f)" for bp f by (simp add: conn_ok_def conn_base_def)
  have fr: "own_frame (env_crc E) (dst_ch_id ch)
      (build_frame (env_crc E) F_TCLOSE (dst_ch_id ch) (pack_cid (of_nat slot)))"
    by (rule own_frameI) (auto simp: pack_cid_def mux_consts)
  have new: "dst_ok (ch\<lparr>dst_conns := (dst_conns ch)[slot := Some (?conn f)]\<rparr>)" for f
    using ok c by (auto simp: dst_ok_def)
  show ?thesis using ok q l tcp_slot_token_routes(1) [OF id s]
    by (auto simp: dst_open_conn_def Let_def set_idx_def new fr
        intro!: emits_call emits_send emits_next split: option.split sum.split)
qed

lemma dst_on_frame_ok:
  assumes ok: "dst_ok ch" and q: "txq_inv (io_txq io)"
  shows "handles (own E (dst_view ch)) dst_ok dst_view (dst_view ch) io (dst_on_frame E t p ch io)"
proof -
  let ?P = "conn_ok (dst_bp_paused ch)" and ?upd = "dst_conn_update_interest (dst_ch_id ch) (dst_bp_paused ch)"
  have id: "id_ok (dst_ch_id ch)" and co: "conns_ok ?P (dst_conns ch)" using ok by (auto simp: dst_ok_def)
  note u = dst_upd_ok [OF id, of "dst_bp_paused ch"]
  have td: "table (own E (dst_view ch)) ?P io
      (conn_tdata E (dst_ch_id ch) True ?upd slot d (dst_conns ch) io)"
    if "slot < MAX_TCP_CONNS" for slot d
    using conn_tdata_ok [OF u co that q] by (simp add: conn_ok_def conn_base_def)
  have tc: "table (own E (dst_view ch)) ?P io (conn_tclose E (dst_ch_id ch) ?upd slot (dst_conns ch) io)"
    if "slot < MAX_TCP_CONNS" for slot
    using table_mono [OF conn_tclose_ok [OF u co that] quiet_own]
    by (simp add: conn_ok_def conn_base_def)
  have l: "idx (dst_conns ch) slot = Some (dst_conns ch ! slot)" if "slot < MAX_TCP_CONNS" for slot
    using co that by (simp add: idx_def conns_ok_def)
  show ?thesis
    using ok q dst_table_handles [OF ok td] dst_table_handles [OF ok tc] dst_open_conn_ok [OF ok q]
    by (auto simp: dst_on_frame_def unpack_cid_eq Let_def not_le l)
qed

text \<open>The part of \<open>dst_tcp_event\<close> after the connection has been completed.\<close>

lemma dst_update_one_ok:
  assumes "dst_ok ch" "slot < MAX_TCP_CONNS" "conn_base conn" "emits (own E (dst_view ch)) io io1"
  shows "handles (own E (dst_view ch)) dst_ok dst_view (dst_view ch) io
    (dst_update_conn_interest slot (ch\<lparr>dst_conns := (dst_conns ch)[slot := Some conn]\<rparr>) io1)"
proof -
  have "table (quiet_call (dst_ch_id ch)) (conn_ok (dst_bp_paused ch)) io1
      (update_slot (dst_conn_update_interest (dst_ch_id ch) (dst_bp_paused ch)) slot
         ((dst_conns ch)[slot := Some conn]) io1)"
    using assms update_slot_ok [OF dst_upd_ok] by (simp add: dst_ok_def)
  from table_from [OF table_mono [OF this quiet_own]] assms(4)
  have "table (own E (dst_view ch)) (conn_ok (dst_bp_paused ch)) io
      (update_slot (dst_conn_update_interest (dst_ch_id ch) (dst_bp_paused ch)) slot
         ((dst_conns ch)[slot := Some conn]) io1)"
    by simp
  from dst_table_handles [OF assms(1) this] show ?thesis by (simp add: dst_update_conn_interest_def)
qed

lemma dst_rw_ok:
  assumes E: "env_ok E" and ok: "dst_ok ch" and q: "txq_inv (io_txq io)" and s: "slot < MAX_TCP_CONNS"
    and conn: "conn_base conn" and e: "emits (own E (dst_view ch)) io io1"
  shows "handles (own E (dst_view ch)) dst_ok dst_view (dst_view ch) io
    (do {
       (ret, conns, io) \<leftarrow>
         (if w then conn_write E (dst_ch_id ch) True connecting slot ((dst_conns ch)[slot := Some conn]) io1
          else Some (False, (dst_conns ch)[slot := Some conn], io1));
       (if ret then Some (ch\<lparr>dst_conns := conns\<rparr>, io)
        else do {
          (ret, conns, io) \<leftarrow>
            (if r
             then conn_read E (dst_ch_id ch) True (\<lambda>conn. connecting conn \<or> close_pending conn) slot conns io
             else Some (False, conns, io));
          (if ret then Some (ch\<lparr>dst_conns := conns\<rparr>, io)
           else dst_update_conn_interest slot (ch\<lparr>dst_conns := conns\<rparr>) io)
        })
     })"
proof -
  let ?C = "own E (dst_view ch)" and ?conns = "(dst_conns ch)[slot := Some conn]"
  have l: "length ?conns = MAX_TCP_CONNS" "slot < length (dst_conns ch)"
    using ok s by (auto simp: dst_ok_def conns_ok_def)
  have none: "dst_ok (ch\<lparr>dst_conns := (dst_conns ch)[slot := None]\<rparr>)" using ok by (auto simp: dst_ok_def)
  have q1: "txq_inv (io_txq io1)" using e q by (rule emits_inv)
  have "\<exists>b conns2 io2. (if w then conn_write E (dst_ch_id ch) True connecting slot ?conns io1
       else Some (False, ?conns, io1)) = Some (b, conns2, io2) \<and> emits ?C io io2
     \<and> (if b then conns2 = (dst_conns ch)[slot := None]
        else \<exists>conn. conns2 = (dst_conns ch)[slot := Some conn] \<and> conn_base conn)"
  proof (cases w)
    case True
    obtain b conns2 io2 where "conn_write E (dst_ch_id ch) True connecting slot ?conns io1 = Some (b, conns2, io2)"
      "emits ?C io1 io2" "if b then conns2 = ?conns[slot := None]
         else \<exists>conn. conns2 = ?conns[slot := Some conn] \<and> conn_base conn \<and> True"
      using conn_write_conns [OF E l(1) s q1, of "\<lambda>_. True" "dst_ch_id ch" True connecting] conn l(2) by auto
    then show ?thesis using True emits_trans [OF e]
      by (intro exI [of _ b] exI [of _ conns2] exI [of _ io2]) (simp split: if_splits)
  next
    case False
    then show ?thesis using conn e by auto
  qed
  then obtain b conns2 io2 where wr:
    "(if w then conn_write E (dst_ch_id ch) True connecting slot ?conns io1 else Some (False, ?conns, io1))
       = Some (b, conns2, io2)" "emits ?C io io2" "if b then conns2 = (dst_conns ch)[slot := None]
       else \<exists>conn. conns2 = (dst_conns ch)[slot := Some conn] \<and> conn_base conn"
    by blast
  show ?thesis
  proof (cases b)
    case True
    then show ?thesis unfolding wr(1) using wr none by simp
  next
    case False
    then obtain conn2 where c2: "conns2 = (dst_conns ch)[slot := Some conn2]" "conn_base conn2" using wr(3) by auto
    have l2: "length conns2 = MAX_TCP_CONNS" using c2 l by simp
    obtain b3 conns3 io3 where rd:
      "(if r then conn_read E (dst_ch_id ch) True (\<lambda>conn. connecting conn \<or> close_pending conn) slot conns2 io2
        else Some (False, conns2, io2)) = Some (b3, conns3, io3)" "emits ?C io io3"
      "if b3 then conns3 = (dst_conns ch)[slot := None] else conns3 = conns2"
      using conn_read_conns [OF l2 s emits_inv [OF wr(2) q], of E "dst_ch_id ch" True
          "\<lambda>conn. connecting conn \<or> close_pending conn"] emits_trans [OF wr(2)] wr(2) c2(1)
      by (cases r) (auto split: if_splits)
    show ?thesis
    proof (cases b3)
      case True
      then show ?thesis unfolding wr(1) using False rd none by simp
    next
      case nr: False
      then show ?thesis unfolding wr(1)
        using False rd c2 dst_update_one_ok [OF ok s c2(2) rd(2)] by (auto split: if_splits)
    qed
  qed
qed

lemma dst_tcp_event_ok:
  assumes E: "env_ok E" and ok: "dst_ok ch" and q: "txq_inv (io_txq io)" and s: "slot < MAX_TCP_CONNS"
  shows "handles (own E (dst_view ch)) dst_ok dst_view (dst_view ch) io
    (dst_tcp_event E (tcp_slot_token (dst_ch_id ch) slot) r w ch io)"
proof -
  let ?C = "own E (dst_view ch)" and ?t = "tcp_slot_token (dst_ch_id ch) slot"
  have id: "id_ok (dst_ch_id ch)" and co: "conns_ok (conn_ok (dst_bp_paused ch)) (dst_conns ch)"
    and l: "length (dst_conns ch) = MAX_TCP_CONNS"
    using ok by (auto simp: dst_ok_def conns_ok_def)
  have tok: "usub ?t TCP_BASE = Some (?t - TCP_BASE)" "(?t - TCP_BASE) mod MAX_TCP_CONNS = slot"
    using tcp_slot_token_routes(2) [OF id s] by (simp_all add: usub_def tcp_slot_token_def)
  have none: "dst_ok (ch\<lparr>dst_conns := (dst_conns ch)[slot := None]\<rparr>)" using ok by (auto simp: dst_ok_def)
  show ?thesis
  proof (cases "dst_conns ch ! slot")
    case None
    then show ?thesis using tok l s ok by (simp add: dst_tcp_event_def idx_def)
  next
    case (Some conn)
    have base: "conn_base conn"
      using co s Some by (auto simp: conns_ok_def list_all_length conn_ok_def dest!: spec [of _ slot])
    obtain failed conn1 io1 where f: "dst_finish_connect E w conn io = (failed, conn1, io1)"
      by (metis prod_cases3)
    have f1: "conn_base conn1" "emits ?C io io1"
      using f base by (auto simp: dst_finish_connect_def conn_base_def split: if_splits)
    show ?thesis
    proof (cases failed)
      case True
      then show ?thesis using tok l s Some f none close_conn_at [OF l s q, of E "dst_ch_id ch" io1 True conn1] f1
        by (auto simp: dst_tcp_event_def idx_def dst_close_slot_def)
    next
      case False
      then show ?thesis using tok l s Some f dst_rw_ok [OF E ok q s f1, of w r]
        by (simp add: dst_tcp_event_def idx_def Let_def cong: if_cong)
    qed
  qed
qed

interpretation dst: channel dst_vtable dst_ok dst_view
proof unfold_locales
  fix E ch io t p n tk r w
  show "vt_channel_id dst_vtable ch = cv_id (dst_view ch)" by (simp add: dst_vtable_def)
  show "dst_ok ch \<Longrightarrow> id_ok (cv_id (dst_view ch))" by (simp add: dst_ok_def)
  assume ok: "dst_ok ch"
  have id: "id_ok (dst_ch_id ch)" and co: "conns_ok (conn_ok (dst_bp_paused ch)) (dst_conns ch)"
    using ok by (auto simp: dst_ok_def)
  have linked: "view_step LinkConnect (dst_view ch) = dst_view ch"
    "view_step LinkDisconnect (dst_view ch) = dst_view ch" by (simp_all add: dst_view_def)
  note close = dst_close_all_handles [OF ok, of io E]
  show "handles (quiet (dst_view ch)) dst_ok dst_view (dst_view ch) io (vt_close dst_vtable E ch io)"
    using close by (simp add: dst_vtable_def dst_close_def)
  show "handles (quiet (dst_view ch)) dst_ok dst_view (view_step LinkDisconnect (dst_view ch)) io
      (vt_on_link_disconnect dst_vtable E ch io)"
    unfolding linked using close by (simp add: dst_vtable_def dst_on_link_disconnect_def)
  show "handles (quiet (dst_view ch)) dst_ok dst_view (view_step Pause (dst_view ch)) io
      (vt_pause_source_reads dst_vtable ch io)"
    using dst_update_all_ok [of "ch\<lparr>dst_bp_paused := True\<rparr>"] id co ok
    by (auto simp: dst_vtable_def dst_pause_source_reads_def dst_view_def)
  show "handles (quiet (dst_view ch)) dst_ok dst_view (view_step Resume (dst_view ch)) io
      (vt_resume_source_reads dst_vtable ch io)"
    using dst_update_all_ok [of "ch\<lparr>dst_bp_paused := False\<rparr>"] id co ok
    by (auto simp: dst_vtable_def dst_resume_source_reads_def dst_view_def)
  assume E: "env_ok E" and q: "txq_inv (io_txq io)"
  show "handles (own E (dst_view ch)) dst_ok dst_view (view_step LinkConnect (dst_view ch)) io
      (vt_on_link_connect dst_vtable E ch io)"
    unfolding linked using handles_mono [OF close quiet_own] by (simp add: dst_vtable_def dst_on_link_connect_def)
  show "handles (own E (dst_view ch)) dst_ok dst_view (dst_view ch) io (vt_on_frame dst_vtable E t p ch io)"
    using dst_on_frame_ok [OF ok q] by (simp add: dst_vtable_def)
  show "handles (own E (dst_view ch)) dst_ok dst_view (dst_view ch) io (vt_tick dst_vtable E n ch io)"
    using ok by (simp add: dst_vtable_def dst_tick_def)
  assume "tk \<in> cv_tokens (dst_view ch)"
  then obtain slot where "tk = tcp_slot_token (dst_ch_id ch) slot" "slot < MAX_TCP_CONNS"
    by (auto simp: dst_view_def)
  then show "handles (own E (dst_view ch)) dst_ok dst_view (dst_view ch) io
      (vt_handle_event dst_vtable E tk r w ch io)"
    using dst_tcp_event_ok [OF E ok q] by (simp add: dst_vtable_def dst_handle_event_def)
qed



section \<open>Idle while the link is down\<close>

definition dst_idle :: "tcp_dest \<Rightarrow> bool" where
  "dst_idle ch \<longleftrightarrow> dst_conns ch = no_conns"

lemma dst_tcp_event_idle:
  assumes "dst_idle ch" "dst_tcp_event E tk r w ch io = Some (ch', io')"
  shows "ch' = ch \<and> io' = io"
proof -
  have "x mod MAX_TCP_CONNS < MAX_TCP_CONNS" for x by (simp add: mux_consts)
  then have i: "idx no_conns (x mod MAX_TCP_CONNS) = Some None" for x by (rule no_conns_idx)
  show ?thesis using assms
    by (cases "usub tk TCP_BASE") (simp_all add: dst_tcp_event_def dst_idle_def Let_def i)
qed

interpretation dst_idling: idle_channel dst_vtable dst_ok dst_view dst_idle
proof unfold_locales
  fix E ch io ch' io' and x :: chan_op
  have close: "dst_idle ch' \<and> io_txq io' = io_txq io" if "dst_ok ch" "dst_close_all E ch io = Some (ch', io')"
    using dst_close_all_ok [OF that(1), of E io] that(2) by (auto simp: dst_idle_def)
  show "dst_ok ch \<Longrightarrow> chan_step dst_vtable E LinkDisconnect ch io = Some (ch', io') \<Longrightarrow> dst_idle ch'"
    using close by (auto simp: dst_vtable_def dst_on_link_disconnect_def)
  assume ok: "dst_ok ch" and i: "dst_idle ch" and x: "spontaneous x"
    and s: "chan_step dst_vtable E x ch io = Some (ch', io')"
  have upd: "dst_update_conn_interest_all c io = Some (c, io)" if "dst_conns c = no_conns" for c
    using that for_slots_no_conns(1) [of all_slots] by (simp add: dst_update_conn_interest_all_def)
  show "dst_idle ch' \<and> io_txq io' = io_txq io"
  proof (cases x)
    case (Event tk r w)
    then show ?thesis using s i dst_tcp_event_idle [OF i, of E tk r w io ch' io']
      by (simp add: dst_vtable_def dst_handle_event_def)
  qed (use s i x ok close upd in \<open>auto simp: dst_vtable_def dst_on_link_disconnect_def dst_tick_def
        dst_close_def dst_pause_source_reads_def dst_resume_source_reads_def dst_idle_def split: if_splits\<close>)
qed

end
