(* ===== verification/Tcp_Props.thy ===== *)
theory Tcp_Props
  imports Tcp_Source Tcp_Dest
begin

text \<open>
  The TCP tunnel: what one side reads from a connection is what the other side writes to its
  connection, within the bounds of the two buffers; the connection table, its slots and
  tokens; half-close.
\<close>


section \<open>Connection ids and tokens\<close>

lemma unpack_pack_cid: "unpack_cid (pack_cid cid @ data) = Some (Some (cid, data))"
proof -
  obtain a b where ab: "to_le_bytes16 cid = [a, b]" by (simp add: to_le_bytes16_def)
  then show ?thesis using from_to_le_bytes16 [OF ab] by (simp add: unpack_cid_eq pack_cid_def)
qed

lemma slot_cid: "slot < MAX_TCP_CONNS \<Longrightarrow> unat (of_nat slot :: u16) = slot"
  by (simp add: mux_consts unat_of_nat)

text \<open>The connection id in front of a payload is recovered with the rest of the payload, for
  every id and payload, and no slot of the table is changed by its 16-bit encoding.\<close>

lemma cid_roundtrip:
  "unpack_cid (pack_cid cid @ data) = Some (Some (cid, data))
   \<and> (\<forall>slot < MAX_TCP_CONNS. unat (of_nat slot :: u16) = slot)"
  by (simp add: unpack_pack_cid slot_cid)

text \<open>Tokens route to their owner.  The primary token of a channel and the tokens of its slots
  lead the event loop back to that channel and, for a slot, to that slot; no two of them are
  equal, for whatever channels and slots, and none is the token of the link.\<close>

lemma tokens_route:
  assumes "id_ok c" "id_ok c'" "slot < MAX_TCP_CONNS" "slot' < MAX_TCP_CONNS"
  shows "channel_id_for_token (unat c + 1) = Some c \<and> primary_token c = Some (unat c + 1)
    \<and> channel_id_for_token (tcp_slot_token c slot) = Some c
    \<and> (tcp_slot_token c slot - TCP_BASE) mod MAX_TCP_CONNS = slot
    \<and> (tcp_slot_token c slot = tcp_slot_token c' slot' \<longleftrightarrow> c = c' \<and> slot = slot')
    \<and> tcp_slot_token c slot \<noteq> unat c' + 1
    \<and> channel_id_for_token TOKEN_LINK = None"
proof -
  have "c = c' \<and> slot = slot'" if "tcp_slot_token c slot = tcp_slot_token c' slot'"
    using tcp_slot_token_routes [OF assms(1,3)] tcp_slot_token_routes [OF assms(2,4)] that by simp
  moreover have "tcp_slot_token c slot \<noteq> unat c' + 1"
    using assms(2) by (simp add: tcp_slot_token_def id_ok_unat mux_consts)
  moreover have "channel_id_for_token TOKEN_LINK = None" by (simp add: channel_id_for_token_def mux_consts)
  ultimately show ?thesis
    using tcp_slot_token_routes [OF assms(1,3)] primary_token_routes primary_token_ok [OF assms(1)] by auto
qed


section \<open>Slots\<close>

text \<open>A new connection gets a free slot whenever there is one: the round-robin search fails
  exactly when the table is full, and otherwise returns a slot that is free; it changes only
  the position of the next search.\<close>

lemma alloc_slot_complete:
  assumes "length (src_conns ch) = MAX_TCP_CONNS"
  shows "\<exists>r k. src_alloc_slot MAX_TCP_CONNS ch = Some (r, ch\<lparr>src_next_slot := src_next_slot ch + k\<rparr>)
    \<and> (r = None \<longleftrightarrow> None \<notin> set (src_conns ch))
    \<and> (\<forall>s. r = Some s \<longrightarrow> s < MAX_TCP_CONNS \<and> src_conns ch ! s = None)"
proof -
  obtain r k where r: "src_alloc_slot MAX_TCP_CONNS ch = Some (r, ch\<lparr>src_next_slot := src_next_slot ch + k\<rparr>)"
    and c: "case r of
       Some s \<Rightarrow> 0 < k \<and> s = (src_next_slot ch + k - 1) mod MAX_TCP_CONNS \<and> src_conns ch ! s = None
         \<and> (\<forall>j<k - 1. src_conns ch ! ((src_next_slot ch + j) mod MAX_TCP_CONNS) \<noteq> None)
     | None \<Rightarrow> k = MAX_TCP_CONNS \<and> (\<forall>j<MAX_TCP_CONNS. src_conns ch ! ((src_next_slot ch + j) mod MAX_TCP_CONNS) \<noteq> None)"
    using src_alloc_slot_spec [OF assms, of MAX_TCP_CONNS] by blast
  have pos: "0 < MAX_TCP_CONNS" by (simp add: MAX_TCP_CONNS_def)
  have round: "\<exists>j < MAX_TCP_CONNS. (src_next_slot ch + j) mod MAX_TCP_CONNS = s" if "s < MAX_TCP_CONNS" for s
  proof -
    let ?j = "(s + (MAX_TCP_CONNS - src_next_slot ch mod MAX_TCP_CONNS)) mod MAX_TCP_CONNS"
    have le: "src_next_slot ch mod MAX_TCP_CONNS \<le> MAX_TCP_CONNS" using pos by (simp add: less_imp_le)
    have "(src_next_slot ch + ?j) mod MAX_TCP_CONNS
        = (src_next_slot ch mod MAX_TCP_CONNS + (s + (MAX_TCP_CONNS - src_next_slot ch mod MAX_TCP_CONNS))) mod MAX_TCP_CONNS"
      by (simp add: mod_simps)
    also have "src_next_slot ch mod MAX_TCP_CONNS + (s + (MAX_TCP_CONNS - src_next_slot ch mod MAX_TCP_CONNS))
        = s + MAX_TCP_CONNS" using le by arith
    also have "(s + MAX_TCP_CONNS) mod MAX_TCP_CONNS = s" using that by simp
    finally show ?thesis using pos by (intro exI [of _ ?j]) simp
  qed
  have "None \<notin> set (src_conns ch)" if "r = None"
    using c that round assms by (fastforce simp: in_set_conv_nth)
  moreover have "s < MAX_TCP_CONNS \<and> src_conns ch ! s = None" if "r = Some s" for s
    using c that pos by auto
  moreover from this have "None \<in> set (src_conns ch)" if "r = Some s" for s
    using that assms by (metis nth_mem)
  ultimately have "(r = None \<longleftrightarrow> None \<notin> set (src_conns ch))
      \<and> (\<forall>s. r = Some s \<longrightarrow> s < MAX_TCP_CONNS \<and> src_conns ch ! s = None)"
    by (cases r) auto
  with r show ?thesis by blast
qed

definition example_source :: tcp_source where
  "example_source = \<lparr>src_ch_id = 3, src_listener = 6,
     src_conns = no_conns[0 := Some \<lparr>stream = 9, txbuf = [], connecting = False, in_sel = True, close_pending = False\<rparr>],
     src_next_slot = 0, src_link_up = True, src_bp_paused = False\<rparr>"


section \<open>From a TCP connection to the link\<close>

text \<open>The frames for a sequence of reads from one connection.\<close>

definition read_frames :: "hash_fn \<Rightarrow> u8 \<Rightarrow> nat \<Rightarrow> bytes list \<Rightarrow> bytes list" where
  "read_frames crc c slot ds = concat (map (\<lambda>d. map (tdata_frame crc c slot) (chunks_of (MAX_PAYLOAD - 2) d)) ds)"

lemma read_loop_relays:
  assumes "idx conns slot = Some (Some conn)" "\<not> stop conn" "[] \<notin> set ds" "txq_inv (io_txq io)"
  shows "read_loop E c notify stop slot (map TcpData ds) conns io
     = Some (False, conns, fold send (read_frames (env_crc E) c slot ds) io)"
  using assms(3,4)
proof (induction ds arbitrary: io)
  case Nil
  then show ?case using assms(1,2) by (simp add: read_frames_def)
next
  case (Cons d ds)
  let ?io = "fold send (map (tdata_frame (env_crc E) c slot) (chunks_of (MAX_PAYLOAD - 2) d)) io"
  have s: "send_chunks E c slot d 0 io = Some ?io" using send_chunks_eq [OF Cons.prems(2), of 0 d] by simp
  have "txq_inv (io_txq ?io)" using Cons.prems(2) by (rule fold_send_inv)
  moreover have "d \<noteq> []" using Cons.prems(1) by auto
  ultimately show ?case using Cons.IH Cons.prems(1) s assms(1,2)
    by (subst read_loop.simps) (simp add: read_frames_def del: read_loop.simps)
qed

lemma fold_send_queued:
  "txq_inv (io_txq io) \<Longrightarrow> length (queued (io_txq io)) + length (concat fs) < LINK_TXBUF_SIZE \<Longrightarrow>
   queued (io_txq (fold send fs io)) = queued (io_txq io) @ concat fs"
  by (induction fs arbitrary: io) (auto simp: queued_enq fits_def)

lemma src_relays:
  assumes "id_ok (src_ch_id ch)" "slot < MAX_TCP_CONNS" "length (src_conns ch) = MAX_TCP_CONNS"
    and "src_conns ch ! slot = Some conn" "\<not> close_pending conn" "txq_inv (io_txq io)"
    and "env_tcp_read E (io_n io) (stream conn) 65536 = map TcpData ds" "[] \<notin> set ds"
  shows "src_handle_event E (tcp_slot_token (src_ch_id ch) slot) True False ch io
     = Some (ch, fold send (read_frames (env_crc E) (src_ch_id ch) slot ds) (next_call io))"
proof -
  have i: "idx (src_conns ch) slot = Some (Some conn)" using assms(2-4) by (simp add: idx_def)
  have t: "usub (tcp_slot_token (src_ch_id ch) slot) TCP_BASE = Some (tcp_slot_token (src_ch_id ch) slot - TCP_BASE)"
    by (simp add: usub_def tcp_slot_token_def)
  have p: "tcp_slot_token (src_ch_id ch) slot \<noteq> unat (src_ch_id ch) + 1"
    using assms(1) by (simp add: tcp_slot_token_def id_ok_unat mux_consts)
  have r: "conn_read E (src_ch_id ch) (src_link_up ch) close_pending slot (src_conns ch) io
      = Some (False, src_conns ch, fold send (read_frames (env_crc E) (src_ch_id ch) slot ds) (next_call io))"
    using read_loop_relays [OF i, of close_pending ds "next_call io" E] assms i
    by (simp add: conn_read_def del: read_loop.simps)
  show ?thesis
    using assms(1) p t r tcp_slot_token_routes(2) [OF assms(1,2)]
    by (simp add: src_handle_event_def src_tcp_event_def primary_token_ok Let_def)
qed

text \<open>C20: reads of a TCP connection are relayed completely and in order, as long as the transmit queue
  has room: every byte of every read goes into \<open>F_TDATA\<close> frames of that connection, none
  larger than a frame may be, and all of them are queued.\<close>

theorem tcp_read_relayed:
  assumes "id_ok (src_ch_id ch)" "slot < MAX_TCP_CONNS" "length (src_conns ch) = MAX_TCP_CONNS"
    and "src_conns ch ! slot = Some conn" "\<not> close_pending conn" "txq_inv (io_txq io)"
    and "env_tcp_read E (io_n io) (stream conn) 65536 = map TcpData ds" "[] \<notin> set ds"
    and "length (queued (io_txq io)) + length (concat (read_frames (env_crc E) (src_ch_id ch) slot ds)) < LINK_TXBUF_SIZE"
  shows "\<exists>io' segs. src_handle_event E (tcp_slot_token (src_ch_id ch) slot) True False ch io = Some (ch, io')
    \<and> queued (io_txq io') = queued (io_txq io)
         @ concat (map (\<lambda>seg. build_frame (env_crc E) F_TDATA (src_ch_id ch) (pack_cid (of_nat slot) @ seg)) segs)
    \<and> concat segs = concat ds \<and> (\<forall>seg \<in> set segs. seg \<noteq> [] \<and> length seg + 2 \<le> MAX_PAYLOAD)"
proof -
  let ?segs = "concat (map (chunks_of (MAX_PAYLOAD - 2)) ds)"
  have segs: "concat ?segs = concat ds"
    by (induction ds) (simp_all add: concat_chunks mux_consts)
  have frames: "read_frames (env_crc E) (src_ch_id ch) slot ds = map (tdata_frame (env_crc E) (src_ch_id ch) slot) ?segs"
    by (simp add: read_frames_def map_concat comp_def)
  have b: "seg \<noteq> [] \<and> length seg + 2 \<le> MAX_PAYLOAD" if "seg \<in> set ?segs" for seg
    using that chunks_bound [of seg "MAX_PAYLOAD - 2"] by (fastforce simp: mux_consts)
  have q: "queued (io_txq (fold send (read_frames (env_crc E) (src_ch_id ch) slot ds) (next_call io)))
      = queued (io_txq io) @ concat (read_frames (env_crc E) (src_ch_id ch) slot ds)"
    using fold_send_queued [of "next_call io"] assms(6,9) by simp
  show ?thesis
    using src_relays [OF assms(1-8)] q segs b unfolding frames tdata_frame_def by blast
qed


lemma example_source_sel:
  "src_ch_id example_source = 3" "length (src_conns example_source) = MAX_TCP_CONNS"
  "src_conns example_source ! 0
     = Some \<lparr>stream = 9, txbuf = [], connecting = False, in_sel = True, close_pending = False\<rparr>"
  by (simp_all add: example_source_def no_conns_def mux_consts)

definition example_burst :: "bytes list \<Rightarrow> env" where
  "example_burst ds = example_env\<lparr>env_tcp_read := \<lambda>n f cap. map TcpData ds\<rparr>"

lemma example_burst_sel [simp]:
  "env_tcp_read (example_burst ds) n f cap = map TcpData ds" "env_crc (example_burst ds) = crc32_buf"
  by (simp_all add: example_burst_def example_env_def)

theorem tcp_read_relayed_witness:
  "\<exists>io' segs. src_handle_event (example_burst [[0x47, 0x45, 0x54]]) (tcp_slot_token 3 0) True False example_source io_new
       = Some (example_source, io') \<and> concat segs = ([0x47, 0x45, 0x54] :: bytes)"
proof -
  have "length (concat (read_frames crc32_buf 3 0 [[0x47, 0x45, 0x54]])) < LINK_TXBUF_SIZE"
    by (simp add: read_frames_def chunks_of.simps tdata_frame_def build_frame_def pack_cid_def to_le_bytes16_def
        to_le_bytes32_def mux_consts)
  then show ?thesis
    using tcp_read_relayed [of example_source 0, OF _ _ example_source_sel(2,3), of io_new
        "example_burst [[0x47, 0x45, 0x54]]" "[[0x47, 0x45, 0x54]]"]
    by (auto simp: example_source_sel id_ok_unat MAX_TCP_CONNS_def)
qed

lemma read_frames_length: "length (concat ds) \<le> length (concat (read_frames crc c slot ds))"
proof (induction ds)
  case (Cons d ds)
  have seg: "\<forall>s \<in> set segs. length s \<le> MAX_PAYLOAD - 2 \<Longrightarrow>
      length (concat segs) \<le> length (concat (map (tdata_frame crc c slot) segs))" for segs
    by (induction segs) (auto simp: tdata_frame_def build_frame_def pack_cid_def mux_consts)
  have "\<forall>s \<in> set (chunks_of (MAX_PAYLOAD - 2) d). length s \<le> MAX_PAYLOAD - 2" using chunks_bound by blast
  from seg [OF this] have "length d \<le> length (concat (map (tdata_frame crc c slot) (chunks_of (MAX_PAYLOAD - 2) d)))"
    by (simp add: concat_chunks mux_consts)
  with Cons show ?case by (simp add: read_frames_def)
qed (simp add: read_frames_def)

text \<open>C22: without room the relay loses data.  The read loop does not stop until the connection would
  block, and looks neither at the fill level of the transmit queue nor at the backpressure
  flag: a client that has more ready than the ring holds gets its connection kept open while
  frames from the middle of its stream are missing in the queue.\<close>

theorem tcp_burst_loses_data:
  assumes "id_ok (src_ch_id ch)" "slot < MAX_TCP_CONNS" "length (src_conns ch) = MAX_TCP_CONNS"
    and "src_conns ch ! slot = Some conn" "\<not> close_pending conn" "txq_inv (io_txq io)"
    and "env_tcp_read E (io_n io) (stream conn) 65536 = map TcpData ds" "[] \<notin> set ds"
    and "LINK_TXBUF_SIZE \<le> length (concat ds)"
  shows "\<exists>io' frames. src_handle_event E (tcp_slot_token (src_ch_id ch) slot) True False ch io = Some (ch, io')
    \<and> io_log io' = io_log io @ map Enqueue frames
    \<and> (\<exists>taken. queued (io_txq io') = queued (io_txq io) @ concat taken \<and> subseq taken frames \<and> taken \<noteq> frames)"
proof -
  let ?fs = "read_frames (env_crc E) (src_ch_id ch) slot ds"
  let ?io = "fold send ?fs (next_call io)"
  have inv: "txq_inv (io_txq ?io)" by (rule fold_send_inv) (simp add: assms(6))
  have txq: "io_txq (fold send fs io) = fold enq fs (io_txq io)" for fs io
    by (induction fs arbitrary: io) simp_all
  obtain taken where t: "queued (io_txq ?io) = queued (io_txq io) @ concat taken" "subseq taken ?fs"
    using fold_enq_taken [OF assms(6), of ?fs] by (auto simp: txq)
  have "length (concat taken) < LINK_TXBUF_SIZE" using queued_bound [OF inv] t(1) by simp
  then have "taken \<noteq> ?fs" using read_frames_length [of ds "env_crc E" "src_ch_id ch" slot] assms(9) by auto
  then show ?thesis
    using src_relays [OF assms(1-8)] t by (intro exI [of _ ?io] exI [of _ ?fs]) (auto simp: fold_send_log)
qed

theorem tcp_burst_loses_data_witness:
  "\<exists>io' frames. src_handle_event (example_burst (replicate 9 (replicate 65536 0))) (tcp_slot_token 3 0) True False
       example_source io_new = Some (example_source, io')
    \<and> io_log io' = map Enqueue frames
    \<and> (\<exists>taken. queued (io_txq io') = concat taken \<and> subseq taken frames \<and> taken \<noteq> frames)"
proof -
  let ?ds = "replicate 9 (replicate 65536 0) :: bytes list"
  have b: "LINK_TXBUF_SIZE \<le> length (concat ?ds)"
    by (simp add: length_concat sum_list_replicate mux_consts)
  have n: "[] \<notin> set ?ds" by simp
  show ?thesis
    using tcp_burst_loses_data [of example_source 0, OF _ _ example_source_sel(2,3), of io_new
        "example_burst ?ds" ?ds, OF _ _ _ _ _ n b]
    by (simp add: example_source_sel id_ok_unat MAX_TCP_CONNS_def del: replicate.simps)
qed


section \<open>From the link to a TCP connection\<close>




















end
