(* ===== verification/Channel.thy ===== *)
theory Channel
  imports Mcu Pty Tcp_Source Tcp_Dest
begin

text \<open>
  \<open>Box<dyn Channel>\<close>: a value of any of the four channel types, with dynamic dispatch.  The
  interface laws hold for it because they hold for each type.
\<close>

datatype chan =
    DMcu mcu_channel
  | DPty pty_channel
  | DSrc tcp_source
  | DDst tcp_dest

definition lift :: "('c \<Rightarrow> chan) \<Rightarrow> ('c \<times> io) option \<Rightarrow> (chan \<times> io) option" where
  "lift K r = map_option (map_prod K id) r"

fun dyn_channel_id :: "chan \<Rightarrow> u8" where
  "dyn_channel_id (DMcu c) = vt_channel_id mcu_vtable c"
| "dyn_channel_id (DPty c) = vt_channel_id pty_vtable c"
| "dyn_channel_id (DSrc c) = vt_channel_id src_vtable c"
| "dyn_channel_id (DDst c) = vt_channel_id dst_vtable c"

fun dyn_on_frame :: "env \<Rightarrow> u8 \<Rightarrow> bytes \<Rightarrow> chan \<Rightarrow> io \<Rightarrow> (chan \<times> io) option" where
  "dyn_on_frame E t p (DMcu c) io = lift DMcu (vt_on_frame mcu_vtable E t p c io)"
| "dyn_on_frame E t p (DPty c) io = lift DPty (vt_on_frame pty_vtable E t p c io)"
| "dyn_on_frame E t p (DSrc c) io = lift DSrc (vt_on_frame src_vtable E t p c io)"
| "dyn_on_frame E t p (DDst c) io = lift DDst (vt_on_frame dst_vtable E t p c io)"

fun dyn_on_link_connect :: "env \<Rightarrow> chan \<Rightarrow> io \<Rightarrow> (chan \<times> io) option" where
  "dyn_on_link_connect E (DMcu c) io = lift DMcu (vt_on_link_connect mcu_vtable E c io)"
| "dyn_on_link_connect E (DPty c) io = lift DPty (vt_on_link_connect pty_vtable E c io)"
| "dyn_on_link_connect E (DSrc c) io = lift DSrc (vt_on_link_connect src_vtable E c io)"
| "dyn_on_link_connect E (DDst c) io = lift DDst (vt_on_link_connect dst_vtable E c io)"

fun dyn_on_link_disconnect :: "env \<Rightarrow> chan \<Rightarrow> io \<Rightarrow> (chan \<times> io) option" where
  "dyn_on_link_disconnect E (DMcu c) io = lift DMcu (vt_on_link_disconnect mcu_vtable E c io)"
| "dyn_on_link_disconnect E (DPty c) io = lift DPty (vt_on_link_disconnect pty_vtable E c io)"
| "dyn_on_link_disconnect E (DSrc c) io = lift DSrc (vt_on_link_disconnect src_vtable E c io)"
| "dyn_on_link_disconnect E (DDst c) io = lift DDst (vt_on_link_disconnect dst_vtable E c io)"

fun dyn_tick :: "env \<Rightarrow> instant \<Rightarrow> chan \<Rightarrow> io \<Rightarrow> (chan \<times> io) option" where
  "dyn_tick E t (DMcu c) io = lift DMcu (vt_tick mcu_vtable E t c io)"
| "dyn_tick E t (DPty c) io = lift DPty (vt_tick pty_vtable E t c io)"
| "dyn_tick E t (DSrc c) io = lift DSrc (vt_tick src_vtable E t c io)"
| "dyn_tick E t (DDst c) io = lift DDst (vt_tick dst_vtable E t c io)"

fun dyn_next_deadline :: "chan \<Rightarrow> instant option" where
  "dyn_next_deadline (DMcu c) = vt_next_deadline mcu_vtable c"
| "dyn_next_deadline (DPty c) = vt_next_deadline pty_vtable c"
| "dyn_next_deadline (DSrc c) = vt_next_deadline src_vtable c"
| "dyn_next_deadline (DDst c) = vt_next_deadline dst_vtable c"

fun dyn_handle_event :: "env \<Rightarrow> token \<Rightarrow> bool \<Rightarrow> bool \<Rightarrow> chan \<Rightarrow> io \<Rightarrow> (chan \<times> io) option" where
  "dyn_handle_event E t r w (DMcu c) io = lift DMcu (vt_handle_event mcu_vtable E t r w c io)"
| "dyn_handle_event E t r w (DPty c) io = lift DPty (vt_handle_event pty_vtable E t r w c io)"
| "dyn_handle_event E t r w (DSrc c) io = lift DSrc (vt_handle_event src_vtable E t r w c io)"
| "dyn_handle_event E t r w (DDst c) io = lift DDst (vt_handle_event dst_vtable E t r w c io)"

fun dyn_close :: "env \<Rightarrow> chan \<Rightarrow> io \<Rightarrow> (chan \<times> io) option" where
  "dyn_close E (DMcu c) io = lift DMcu (vt_close mcu_vtable E c io)"
| "dyn_close E (DPty c) io = lift DPty (vt_close pty_vtable E c io)"
| "dyn_close E (DSrc c) io = lift DSrc (vt_close src_vtable E c io)"
| "dyn_close E (DDst c) io = lift DDst (vt_close dst_vtable E c io)"

fun dyn_pause_source_reads :: "chan \<Rightarrow> io \<Rightarrow> (chan \<times> io) option" where
  "dyn_pause_source_reads (DMcu c) io = lift DMcu (vt_pause_source_reads mcu_vtable c io)"
| "dyn_pause_source_reads (DPty c) io = lift DPty (vt_pause_source_reads pty_vtable c io)"
| "dyn_pause_source_reads (DSrc c) io = lift DSrc (vt_pause_source_reads src_vtable c io)"
| "dyn_pause_source_reads (DDst c) io = lift DDst (vt_pause_source_reads dst_vtable c io)"

fun dyn_resume_source_reads :: "chan \<Rightarrow> io \<Rightarrow> (chan \<times> io) option" where
  "dyn_resume_source_reads (DMcu c) io = lift DMcu (vt_resume_source_reads mcu_vtable c io)"
| "dyn_resume_source_reads (DPty c) io = lift DPty (vt_resume_source_reads pty_vtable c io)"
| "dyn_resume_source_reads (DSrc c) io = lift DSrc (vt_resume_source_reads src_vtable c io)"
| "dyn_resume_source_reads (DDst c) io = lift DDst (vt_resume_source_reads dst_vtable c io)"

definition dyn_vtable :: "chan vtable" where
  "dyn_vtable = \<lparr>
     vt_channel_id = dyn_channel_id, vt_on_frame = dyn_on_frame, vt_on_link_connect = dyn_on_link_connect,
     vt_on_link_disconnect = dyn_on_link_disconnect, vt_tick = dyn_tick,
     vt_next_deadline = dyn_next_deadline, vt_handle_event = dyn_handle_event, vt_close = dyn_close,
     vt_pause_source_reads = dyn_pause_source_reads,
     vt_resume_source_reads = dyn_resume_source_reads\<rparr>"


section \<open>The laws of the interface\<close>

fun dyn_ok :: "chan \<Rightarrow> bool" where
  "dyn_ok (DMcu c) = mcu_ok c"
| "dyn_ok (DPty c) = pty_ok c"
| "dyn_ok (DSrc c) = src_ok c"
| "dyn_ok (DDst c) = dst_ok c"

fun dyn_view :: "chan \<Rightarrow> chan_view" where
  "dyn_view (DMcu c) = mcu_view c"
| "dyn_view (DPty c) = pty_view c"
| "dyn_view (DSrc c) = src_view c"
| "dyn_view (DDst c) = dst_view c"

declare dst_view_conns [simp del]

lemma handles_lift:
  "handles C ok view v io r \<Longrightarrow> (\<And>c. dyn_ok (K c) = ok c) \<Longrightarrow> (\<And>c. dyn_view (K c) = view c) \<Longrightarrow>
   handles C dyn_ok dyn_view v io (lift K r)"
  unfolding handles_def lift_def by auto

interpretation dyn: channel dyn_vtable dyn_ok dyn_view
proof unfold_locales
  fix E ch io t p n tk r w
  show "vt_channel_id dyn_vtable ch = cv_id (dyn_view ch)"
    by (cases ch) (simp_all add: dyn_vtable_def mcu.id_view pty.id_view src.id_view dst.id_view)
  show "dyn_ok ch \<Longrightarrow> id_ok (cv_id (dyn_view ch))"
    by (cases ch) (simp_all add: mcu.id_valid pty.id_valid src.id_valid dst.id_valid)
  assume ok: "dyn_ok ch"
  show "handles (quiet (dyn_view ch)) dyn_ok dyn_view (dyn_view ch) io (vt_close dyn_vtable E ch io)"
    using ok by (cases ch) (auto simp: dyn_vtable_def intro!: handles_lift mcu.close pty.close src.close dst.close)
  show "handles (quiet (dyn_view ch)) dyn_ok dyn_view (view_step LinkDisconnect (dyn_view ch)) io
      (vt_on_link_disconnect dyn_vtable E ch io)"
    using ok by (cases ch) (auto simp: dyn_vtable_def simp del: view_step.simps
      intro!: handles_lift mcu.on_link_disconnect pty.on_link_disconnect src.on_link_disconnect
        dst.on_link_disconnect)
  show "handles (quiet (dyn_view ch)) dyn_ok dyn_view (view_step Pause (dyn_view ch)) io
      (vt_pause_source_reads dyn_vtable ch io)"
    using ok by (cases ch) (auto simp: dyn_vtable_def simp del: view_step.simps
      intro!: handles_lift mcu.pause pty.pause src.pause dst.pause)
  show "handles (quiet (dyn_view ch)) dyn_ok dyn_view (view_step Resume (dyn_view ch)) io
      (vt_resume_source_reads dyn_vtable ch io)"
    using ok by (cases ch) (auto simp: dyn_vtable_def simp del: view_step.simps
      intro!: handles_lift mcu.resume pty.resume src.resume dst.resume)
  assume E: "env_ok E" and q: "txq_inv (io_txq io)"
  show "handles (own E (dyn_view ch)) dyn_ok dyn_view (view_step LinkConnect (dyn_view ch)) io
      (vt_on_link_connect dyn_vtable E ch io)"
    using ok E q by (cases ch) (auto simp: dyn_vtable_def simp del: view_step.simps
      intro!: handles_lift mcu.on_link_connect pty.on_link_connect src.on_link_connect dst.on_link_connect)
  show "handles (own E (dyn_view ch)) dyn_ok dyn_view (dyn_view ch) io (vt_on_frame dyn_vtable E t p ch io)"
    using ok E q by (cases ch) (auto simp: dyn_vtable_def
      intro!: handles_lift mcu.on_frame pty.on_frame src.on_frame dst.on_frame)
  show "handles (own E (dyn_view ch)) dyn_ok dyn_view (dyn_view ch) io (vt_tick dyn_vtable E n ch io)"
    using ok E q by (cases ch) (auto simp: dyn_vtable_def
      intro!: handles_lift mcu.tick pty.tick src.tick dst.tick)
  assume "tk \<in> cv_tokens (dyn_view ch)"
  then show "handles (own E (dyn_view ch)) dyn_ok dyn_view (dyn_view ch) io
      (vt_handle_event dyn_vtable E tk r w ch io)"
    using ok E q by (cases ch) (auto simp: dyn_vtable_def
      intro!: handles_lift mcu.handle_event pty.handle_event src.handle_event dst.handle_event)
qed

fun dyn_idle :: "chan \<Rightarrow> bool" where
  "dyn_idle (DMcu c) = mcu_idle c"
| "dyn_idle (DPty c) = pty_idle c"
| "dyn_idle (DSrc c) = src_idle c"
| "dyn_idle (DDst c) = dst_idle c"

text \<open>Dispatch, one call at a time.\<close>

lemma dyn_step:
  "chan_step dyn_vtable E x (DMcu m) io = lift DMcu (chan_step mcu_vtable E x m io)"
  "chan_step dyn_vtable E x (DPty p) io = lift DPty (chan_step pty_vtable E x p io)"
  "chan_step dyn_vtable E x (DSrc s) io = lift DSrc (chan_step src_vtable E x s io)"
  "chan_step dyn_vtable E x (DDst d) io = lift DDst (chan_step dst_vtable E x d io)"
  by (cases x; simp add: dyn_vtable_def)+

interpretation dyn_idling: idle_channel dyn_vtable dyn_ok dyn_view dyn_idle
proof unfold_locales
  fix E ch io ch' io' and x :: chan_op
  assume ok: "dyn_ok ch"
  show "chan_step dyn_vtable E LinkDisconnect ch io = Some (ch', io') \<Longrightarrow> dyn_idle ch'"
    using ok by (cases ch)
      (auto simp: dyn_step lift_def simp del: chan_step.simps
        dest: mcu_idling.disconnect_idle pty_idling.disconnect_idle src_idling.disconnect_idle
          dst_idling.disconnect_idle)
  assume "env_ok E" "dyn_idle ch" "txq_inv (io_txq io)" "spontaneous x" "op_allowed (dyn_view ch) x"
    "chan_step dyn_vtable E x ch io = Some (ch', io')"
  then show "dyn_idle ch' \<and> io_txq io' = io_txq io"
    using ok by (cases ch)
      (auto simp: dyn_step lift_def simp del: chan_step.simps
        dest: mcu_idling.idle_step pty_idling.idle_step src_idling.idle_step dst_idling.idle_step)
qed


section \<open>Freshly built channels\<close>

text \<open>The state in which the constructors leave a channel.\<close>

definition fresh :: "chan \<Rightarrow> bool" where
  "fresh c \<longleftrightarrow> dyn_ok c \<and> dyn_idle c \<and> \<not> cv_paused (dyn_view c) \<and> cv_linked (dyn_view c) \<in> {None, Some False}"

lemma mcu_new_fresh:
  assumes "id_ok c" "mcu_new E c dev baud io = Some (ch, io')"
  shows "fresh (DMcu ch)"
proof -
  let ?ch = "\<lparr>mcu_ch_id = c, mcu_device = dev, mcu_baud = baud, mcu_state = Init, mcu_fd = None,
     mcu_fd_in_sel = False, mcu_txbuf = [], mcu_last_rx = None, mcu_reopen_at = None,
     mcu_bp_paused = False, mcu_link_up = False\<rparr>"
  have "mcu_base ?ch" "mcu_fd ?ch = None" using assms(1) by (auto simp: mcu_base_def)
  from mcu_open_uart_ok [OF this, of E io] assms(2) have "mcu_ok ch" "mcu_view ch = mcu_view ?ch"
    by (auto simp: mcu_new_def)
  then show ?thesis by (auto simp: fresh_def mcu_view_def mcu_idle_def)
qed

lemma pty_new_fresh: "id_ok c \<Longrightarrow> pty_new c link baud io = (ch, io') \<Longrightarrow> fresh (DPty ch)"
  by (auto simp: fresh_def pty_new_def pty_inv_defs pty_idle_def Let_def)

lemma src_new_fresh: "id_ok c \<Longrightarrow> src_new E c addr port io = Some (Inr ch, io') \<Longrightarrow> fresh (DSrc ch)"
  by (auto simp: fresh_def src_new_def src_ok_def src_view_def src_idle_def Let_def
      split: option.splits sum.splits bind_splits)

lemma dst_new_fresh: "id_ok c \<Longrightarrow> fresh (DDst (dst_new c addr port))"
  by (auto simp: fresh_def dst_new_def dst_ok_def dst_view_def dst_idle_def)

end
