(* ===== verification/Channel_Props.thy ===== *)
theory Channel_Props
  imports Channel
begin

text \<open>
  What holds of every channel, of whatever kind, in every run: the contract of the trait written
  out for the four kinds.
\<close>

text \<open>What the record of a channel satisfies between two calls.  A UART that is not active has
  nothing to write; a PTY is open on both ends or on none; a TCP connection holds a bounded
  amount for a slow client and is kept half-closed only while there is something to write.  A
  descriptor that waits for something is registered.\<close>

definition conn_wf :: "bool \<Rightarrow> tcp_conn \<Rightarrow> bool" where
  "conn_wf paused conn \<longleftrightarrow> length (txbuf conn) \<le> CONN_HIGH_WATER + MAX_PAYLOAD
     \<and> (close_pending conn \<longrightarrow> txbuf conn \<noteq> [])
     \<and> (\<not> paused \<and> \<not> close_pending conn \<or> txbuf conn \<noteq> [] \<or> connecting conn \<longrightarrow> in_sel conn)"

fun chan_wf :: "chan \<Rightarrow> bool" where
  "chan_wf (DMcu ch) \<longleftrightarrow> (mcu_state ch \<noteq> Active \<longrightarrow> mcu_txbuf ch = [])
     \<and> (mcu_fd ch = None \<longrightarrow> \<not> mcu_fd_in_sel ch)
     \<and> (mcu_fd ch \<noteq> None \<and> \<not> mcu_bp_paused ch \<longrightarrow> mcu_fd_in_sel ch)"
| "chan_wf (DPty ch) \<longleftrightarrow> (pty_master_fd ch = None \<longleftrightarrow> pty_slave_fd ch = None)
     \<and> (if pty_master_fd ch = None then pty_txbuf ch = [] \<and> \<not> pty_master_in_sel ch
        else pty_master_in_sel ch \<longleftrightarrow> \<not> pty_bp_paused ch \<or> pty_txbuf ch \<noteq> [])"
| "chan_wf (DSrc ch) \<longleftrightarrow> length (src_conns ch) = MAX_TCP_CONNS
     \<and> (\<forall>conn. Some conn \<in> set (src_conns ch) \<longrightarrow> conn_wf (src_bp_paused ch) conn \<and> \<not> connecting conn)"
| "chan_wf (DDst ch) \<longleftrightarrow> length (dst_conns ch) = MAX_TCP_CONNS
     \<and> (\<forall>conn. Some conn \<in> set (dst_conns ch) \<longrightarrow> conn_wf (dst_bp_paused ch) conn)"

lemma conns_ok_mem: "conns_ok P conns \<Longrightarrow> Some conn \<in> set conns \<Longrightarrow> P conn"
  by (auto simp: conns_ok_def list_all_iff dest: bspec)

lemma conn_ok_wf: "conn_ok bp conn \<Longrightarrow> conn_wf bp conn"
  by (auto simp: conn_ok_def conn_base_def conn_wf_def wants_def)

lemma dyn_ok_wf: "dyn_ok c \<Longrightarrow> chan_wf c"
proof (cases c)
  case (DSrc ch)
  assume "dyn_ok c"
  then have "conns_ok (src_conn_ok (src_bp_paused ch)) (src_conns ch)" using DSrc by (simp add: src_ok_def)
  moreover from this have "length (src_conns ch) = MAX_TCP_CONNS" by (simp add: conns_ok_def)
  ultimately show ?thesis using DSrc conns_ok_mem conn_ok_wf by fastforce
next
  case (DDst ch)
  assume "dyn_ok c"
  then have "conns_ok (conn_ok (dst_bp_paused ch)) (dst_conns ch)" using DDst by (simp add: dst_ok_def)
  moreover from this have "length (dst_conns ch) = MAX_TCP_CONNS" by (simp add: conns_ok_def)
  ultimately show ?thesis using DDst conns_ok_mem conn_ok_wf by fastforce
qed (auto simp: mcu_ok_def mcu_base_def pty_ok_def pty_base_def)

text \<open>What a channel may ask of the rest of the program.\<close>

fun call_within :: "hash_fn \<Rightarrow> u8 \<Rightarrow> call \<Rightarrow> bool" where
  "call_within crc c (Enqueue f) \<longleftrightarrow> (\<exists>t p. f = build_frame crc t c p \<and> length p \<le> MAX_PAYLOAD
     \<and> t \<in> {F_DATA, F_FLUSH, F_READY, F_TCONN, F_TDATA, F_TCLOSE})"
| "call_within crc c (Register f t i) \<longleftrightarrow> channel_id_for_token t = Some c"
| "call_within crc c (Reregister f t i) \<longleftrightarrow> channel_id_for_token t = Some c"
| "call_within crc c TxReset \<longleftrightarrow> False"
| "call_within crc c (LinkWrote f bs) \<longleftrightarrow> False"
| "call_within crc c _ \<longleftrightarrow> True"

lemma own_within: "own_call crc c x \<Longrightarrow> call_within crc c x"
  by (cases x) (auto simp: own_frame_def channel_types_def)

text \<open>C19: any sequence of frames, link changes, timer ticks, readiness events, pauses and resumes, in
  any order and with any data, leaves every kind of channel well formed.  No handler panics.
  A channel sends only frames of its own id, of the types that belong to channels, with a
  payload that fits a frame; it registers only tokens that route back to it; and it never
  resets the queue of the link or writes to the link itself.\<close>

theorem channel_run_safe:
  assumes "env_ok E" "fresh c" "txq_inv (io_txq io)" "list_all (op_allowed (dyn_view c)) xs"
  shows "\<exists>c' io' calls. chan_run dyn_vtable E xs c io = Some (c', io')
    \<and> chan_wf c' \<and> dyn_channel_id c' = dyn_channel_id c
    \<and> io_log io' = io_log io @ calls \<and> list_all (call_within (env_crc E) (dyn_channel_id c)) calls
    \<and> txq_inv (io_txq io')"
proof -
  have ok: "dyn_ok c" using assms(2) by (simp add: fresh_def)
  have id: "cv_id (dyn_view x) = dyn_channel_id x" for x using dyn.id_view [of x] by (simp add: dyn_vtable_def)
  from dyn.run [OF assms(1) ok assms(3,4)] obtain c' io' where
    r: "chan_run dyn_vtable E xs c io = Some (c', io')" "dyn_ok c'" "dyn_view c' = fold view_step xs (dyn_view c)"
      "emits (own E (dyn_view c)) io io'" unfolding handles_def by blast
  obtain cs where "io_log io' = io_log io @ cs" "list_all (own E (dyn_view c)) cs"
    using r(4) by (auto simp: emits_def)
  moreover have "dyn_channel_id c' = dyn_channel_id c" using r(3) by (simp flip: id)
  ultimately show ?thesis
    using r dyn_ok_wf emits_inv [OF r(4) assms(3)] own_within by (auto simp: id list_all_iff)
qed

theorem channel_run_safe_witness:
  "\<exists>c' io'. chan_run dyn_vtable example_env
     [LinkConnect, OnFrame F_TCONN [0x05, 0x00], OnFrame F_TDATA [0x05, 0x00, 0x47], Pause, LinkDisconnect]
     (DDst (dst_new 3 ''127.0.0.1'' 80)) io_new = Some (c', io')"
proof -
  have "id_ok 3" by code_simp
  from channel_run_safe [OF example_env_ok dst_new_fresh [OF this], of io_new _ _
      "[LinkConnect, OnFrame F_TCONN [0x05, 0x00], OnFrame F_TDATA [0x05, 0x00, 0x47], Pause, LinkDisconnect]"]
  show ?thesis by fastforce
qed

end
