(* ===== verification/Daemon.thy ===== *)
theory Daemon
  imports Channel Frame_Props "HOL-Library.AList"
begin

text \<open>
  The event-loop daemon (\<^verbatim>\<open>daemon.rs\<close>).  The transmit queue that \<open>Daemon\<close> owns is the one of
  the threaded \<open>io\<close> state; everything else is the record \<open>daemon\<close>.  The channel map is an
  association list in the iteration order of the \<open>HashMap\<close>, which is arbitrary but does not
  change while no channel is added or removed.

  An iteration of \<open>run\<close> is \<open>daemon_prepare\<close>, up to the call of \<open>poll\<close>, followed by
  \<open>daemon_event\<close> for the events that \<open>poll\<close> returns; what \<open>poll\<close> returns is an input.
\<close>

definition MAX_TICK :: nat where "MAX_TICK = from_secs 1"
definition KA_INTERVAL :: nat where "KA_INTERVAL = from_secs 3"
definition KA_TIMEOUT :: nat where "KA_TIMEOUT = from_secs 10"

record daemon =
  dm_mode :: string
  dm_link_dev :: "string option"
  dm_usb_id :: "(string \<times> string) option"
  dm_channels :: "(u8 \<times> chan) list"
  dm_parser :: frame_parser
  dm_link_fd :: "fd option"
  dm_link_up :: bool
  dm_link_bp :: bool
  dm_disconnected :: bool
  dm_reopen_at :: instant
  dm_reopen_delay :: nat
  dm_last_rx :: "instant option"
  dm_last_tx :: "instant option"

text \<open>Collecting the channels into the map: a later channel replaces an earlier one of the same id.\<close>

definition collect_channels :: "chan list \<Rightarrow> (u8 \<times> chan) list" where
  "collect_channels cs = fold (\<lambda>c m. AList.update (dyn_channel_id c) c m) cs []"

definition daemon_new ::
  "env \<Rightarrow> string \<Rightarrow> string option \<Rightarrow> (string \<times> string) option \<Rightarrow> chan list \<Rightarrow> io \<Rightarrow> daemon \<times> io" where
  "daemon_new E mode link_dev usb_id channels io =
     (let (t, io) = now E io
      in (\<lparr>dm_mode = mode, dm_link_dev = link_dev, dm_usb_id = usb_id,
           dm_channels = collect_channels channels, dm_parser = fp_new, dm_link_fd = None,
           dm_link_up = False, dm_link_bp = False, dm_disconnected = True, dm_reopen_at = t,
           dm_reopen_delay = from_millis 500, dm_last_rx = None, dm_last_tx = None\<rparr>,
          io\<lparr>io_txq := txq_new\<rparr>))"


section \<open>Channels\<close>

text \<open>\<open>for ch in channels.values_mut()\<close>, and the same loop written over the collected keys.\<close>

fun for_channels ::
  "(chan \<Rightarrow> io \<Rightarrow> (chan \<times> io) option) \<Rightarrow> (u8 \<times> chan) list \<Rightarrow> io \<Rightarrow> ((u8 \<times> chan) list \<times> io) option" where
  "for_channels f [] io = Some ([], io)"
| "for_channels f ((k, c) # cs) io = do {
     (c, io) \<leftarrow> f c io;
     (cs, io) \<leftarrow> for_channels f cs io;
     Some ((k, c) # cs, io)
   }"

text \<open>\<open>if let Some(c) = channels.get_mut(&id)\<close>\<close>

fun with_channel ::
  "u8 \<Rightarrow> (chan \<Rightarrow> io \<Rightarrow> (chan \<times> io) option) \<Rightarrow> (u8 \<times> chan) list \<Rightarrow> io \<Rightarrow> ((u8 \<times> chan) list \<times> io) option" where
  "with_channel i f [] io = Some ([], io)"
| "with_channel i f ((k, c) # cs) io =
     (if k = i then do { (c, io) \<leftarrow> f c io; Some ((k, c) # cs, io) }
      else do { (cs, io) \<leftarrow> with_channel i f cs io; Some ((k, c) # cs, io) })"

definition daemon_all ::
  "(chan \<Rightarrow> io \<Rightarrow> (chan \<times> io) option) \<Rightarrow> daemon \<Rightarrow> io \<Rightarrow> (daemon \<times> io) option" where
  "daemon_all f d io = do {
     (cs, io) \<leftarrow> for_channels f (dm_channels d) io;
     Some (d\<lparr>dm_channels := cs\<rparr>, io)
   }"

definition daemon_one ::
  "u8 \<Rightarrow> (chan \<Rightarrow> io \<Rightarrow> (chan \<times> io) option) \<Rightarrow> daemon \<Rightarrow> io \<Rightarrow> (daemon \<times> io) option" where
  "daemon_one i f d io = do {
     (cs, io) \<leftarrow> with_channel i f (dm_channels d) io;
     Some (d\<lparr>dm_channels := cs\<rparr>, io)
   }"


section \<open>Link open and close\<close>

definition resolve_dev :: "env \<Rightarrow> daemon \<Rightarrow> io \<Rightarrow> string option \<times> io" where
  "resolve_dev E d io =
     (case dm_usb_id d of
        Some (vid, pid) \<Rightarrow> (find_acm_by_usb_id (env_sysfs E (io_n io)) vid pid, next_call io)
      | None \<Rightarrow> (dm_link_dev d, io))"

definition schedule_reopen :: "env \<Rightarrow> daemon \<Rightarrow> io \<Rightarrow> daemon \<times> io" where
  "schedule_reopen E d io =
     (let (t, io) = now E io
      in (d\<lparr>dm_reopen_at := t + dm_reopen_delay d,
           dm_reopen_delay := min (dm_reopen_delay d * 2) (from_secs 8)\<rparr>, io))"

definition set_link_write_interest :: "bool \<Rightarrow> daemon \<Rightarrow> io \<Rightarrow> io" where
  "set_link_write_interest want_write d io =
     (case dm_link_fd d of
        Some f \<Rightarrow> call (Reregister f TOKEN_LINK
                    (if want_write then interest_or READABLE WRITABLE else READABLE)) io
      | None \<Rightarrow> io)"

definition txq_reset_io :: "io \<Rightarrow> io" where
  "txq_reset_io io = call TxReset (io\<lparr>io_txq := txq_reset (io_txq io)\<rparr>)"

definition open_link :: "env \<Rightarrow> daemon \<Rightarrow> io \<Rightarrow> (daemon \<times> io) option" where
  "open_link E d io =
     (case resolve_dev E d io of
        (None, io) \<Rightarrow> Some (schedule_reopen E d io)
      | (Some dev, io) \<Rightarrow>
          (case open_serial_fd E dev 115200 io of
             (Inl e, io) \<Rightarrow> Some (schedule_reopen E d io)
           | (Inr f, io) \<Rightarrow>
               (case env_register E (io_n io) f TOKEN_LINK of
                  Some e \<Rightarrow> Some (schedule_reopen E d (close_raw f (next_call io)))
                | None \<Rightarrow> do {
                    let io = call (Register f TOKEN_LINK READABLE) (next_call io);
                    let io = txq_reset_io io;
                    let (t_rx, io) = now E io;
                    let (t_tx, io) = now E io;
                    let d = d\<lparr>dm_link_fd := Some f, dm_disconnected := False,
                              dm_reopen_delay := from_millis 500, dm_link_bp := False,
                              dm_parser := fp_reset (dm_parser d),
                              dm_last_rx := Some t_rx, dm_last_tx := Some t_tx\<rparr>;
                    io \<leftarrow> txq_enqueue (build_frame (env_crc E) F_HELLO 0 []) io;
                    Some (d, set_link_write_interest True d io)
                  })))"

definition close_link :: "env \<Rightarrow> daemon \<Rightarrow> io \<Rightarrow> (daemon \<times> io) option" where
  "close_link E d io =
     (if dm_disconnected d then Some (d, io)
      else do {
        let io = (case dm_link_fd d of
                    Some f \<Rightarrow> close_raw f (call (Deregister f) io)
                  | None \<Rightarrow> io);
        let d = d\<lparr>dm_disconnected := True, dm_link_up := False, dm_link_fd := None\<rparr>;
        let io = txq_reset_io io;
        (d, io) \<leftarrow> (if dm_link_bp d
                    then daemon_all (vt_resume_source_reads dyn_vtable) (d\<lparr>dm_link_bp := False\<rparr>) io
                    else Some (d, io));
        (d, io) \<leftarrow> daemon_all (vt_on_link_disconnect dyn_vtable E) d io;
        Some (schedule_reopen E d io)
      })"


section \<open>Sending\<close>

definition enqueue_frame :: "env \<Rightarrow> bytes \<Rightarrow> daemon \<Rightarrow> io \<Rightarrow> (daemon \<times> io) option" where
  "enqueue_frame E frame d io =
     (if dm_disconnected d \<or> dm_link_fd d = None then Some (d, io)
      else do {
        io \<leftarrow> txq_enqueue frame io;
        let (t, io) = now E io;
        let d = d\<lparr>dm_last_tx := Some t\<rparr>;
        Some (d, set_link_write_interest True d io)
      })"

definition check_bp_high :: "daemon \<Rightarrow> io \<Rightarrow> (daemon \<times> io) option" where
  "check_bp_high d io =
     (if \<not> dm_link_bp d \<and> used (io_txq io) \<ge> LINK_HIGH_WATER
      then daemon_all (vt_pause_source_reads dyn_vtable) (d\<lparr>dm_link_bp := True\<rparr>) io
      else Some (d, io))"

text \<open>The common end of the handlers: stamp \<open>last_tx\<close> and ask for write readiness when there is
  something to write.\<close>

definition touch_tx :: "env \<Rightarrow> daemon \<Rightarrow> io \<Rightarrow> daemon \<times> io" where
  "touch_tx E d io =
     (let (t, io) = now E io;
          d = d\<lparr>dm_last_tx := Some t\<rparr>
      in (d, set_link_write_interest (\<not> is_empty (io_txq io)) d io))"


section \<open>Frame dispatch\<close>

definition on_link_up :: "env \<Rightarrow> daemon \<Rightarrow> io \<Rightarrow> (daemon \<times> io) option" where
  "on_link_up E d io =
     (if dm_link_up d then Some (d, io)
      else do {
        (d, io) \<leftarrow> daemon_all (vt_on_link_connect dyn_vtable E) (d\<lparr>dm_link_up := True\<rparr>) io;
        Some (touch_tx E d io)
      })"

definition dispatch_frame :: "env \<Rightarrow> frame \<Rightarrow> daemon \<Rightarrow> io \<Rightarrow> (daemon \<times> io) option" where
  "dispatch_frame E fr d io =
     (case fr of (ftype, ch_id, payload) \<Rightarrow>
        if ftype = F_PING then enqueue_frame E (build_frame (env_crc E) F_PONG 0 []) d io
        else if ftype = F_PONG then Some (d, io)
        else if ftype = F_HELLO then do {
          (d, io) \<leftarrow> enqueue_frame E (build_frame (env_crc E) F_ACK 0 []) d io;
          (if dm_link_up d
           then do {
             (d, io) \<leftarrow> daemon_all (vt_on_link_connect dyn_vtable E) d io;
             Some (touch_tx E d io)
           }
           else on_link_up E d io)
        }
        else if ftype = F_ACK then on_link_up E d io
        else do {
          (d, io) \<leftarrow> (if ftype = F_DATA \<or> ftype = F_TDATA then check_bp_high d io else Some (d, io));
          (d, io) \<leftarrow> daemon_one ch_id (vt_on_frame dyn_vtable E ftype payload) d io;
          Some (touch_tx E d io)
        })"

fun dispatch_frames :: "env \<Rightarrow> frame list \<Rightarrow> daemon \<Rightarrow> io \<Rightarrow> (daemon \<times> io) option" where
  "dispatch_frames E [] d io = Some (d, io)"
| "dispatch_frames E (f # fs) d io = do {
     (d, io) \<leftarrow> dispatch_frame E f d io;
     dispatch_frames E fs d io
   }"


section \<open>Link input and output\<close>

definition link_read :: "env \<Rightarrow> daemon \<Rightarrow> io \<Rightarrow> (daemon \<times> io) option" where
  "link_read E d io =
     (case dm_link_fd d of
        None \<Rightarrow> Some (d, io)
      | Some f \<Rightarrow>
          (case read_nonblock E f 65536 io of
             (Inr None, io) \<Rightarrow> Some (d, io)
           | (Inr (Some []), io) \<Rightarrow> Some (d, io)
           | (Inr (Some data), io) \<Rightarrow> do {
               let (t, io) = now E io;
               (fp, frames) \<leftarrow> feed (env_crc E) data (dm_parser d);
               dispatch_frames E frames (d\<lparr>dm_last_rx := Some t, dm_parser := fp\<rparr>) io
             }
           | (Inl e, io) \<Rightarrow> close_link E d io))"

definition link_write :: "env \<Rightarrow> daemon \<Rightarrow> io \<Rightarrow> (daemon \<times> io) option" where
  "link_write E d io =
     (case dm_link_fd d of
        None \<Rightarrow> Some (d, io)
      | Some f \<Rightarrow> do {
          (q, out, r) \<leftarrow> drain_to_fd (env_write E (io_n io) f) (io_txq io);
          let io = call (LinkWrote f out) (next_call (io\<lparr>io_txq := q\<rparr>));
          (case r of
             Inl e \<Rightarrow> close_link E d io
           | Inr _ \<Rightarrow> do {
               (d, io) \<leftarrow> (if dm_link_bp d \<and> used (io_txq io) \<le> LINK_LOW_WATER
                           then daemon_all (vt_resume_source_reads dyn_vtable) (d\<lparr>dm_link_bp := False\<rparr>) io
                           else Some (d, io));
               Some (d, if is_empty (io_txq io) then set_link_write_interest False d io else io)
             })
        })"


section \<open>Keepalive and timeouts\<close>

definition tick_keepalive :: "env \<Rightarrow> instant \<Rightarrow> daemon \<Rightarrow> io \<Rightarrow> (daemon \<times> io) option" where
  "tick_keepalive E tnow d io =
     (if dm_disconnected d then Some (d, io)
      else if (case dm_last_rx d of Some lr \<Rightarrow> tnow - lr > KA_TIMEOUT | None \<Rightarrow> False)
      then close_link E d io
      else if dm_link_up d \<and> (case dm_last_tx d of
                 Some lt \<Rightarrow> tnow - lt \<ge> KA_INTERVAL \<and> is_empty (io_txq io) | None \<Rightarrow> False)
      then enqueue_frame E (build_frame (env_crc E) F_PING 0 []) d io
      else Some (d, io))"

definition min_opt :: "nat \<Rightarrow> nat option \<Rightarrow> nat" where
  "min_opt a b = (case b of Some b \<Rightarrow> min a b | None \<Rightarrow> a)"

definition next_timeout :: "daemon \<Rightarrow> instant \<Rightarrow> nat" where
  "next_timeout d tnow =
     (let deadline = tnow + MAX_TICK;
          deadline =
            (if dm_disconnected d then min deadline (dm_reopen_at d)
             else if dm_link_up d
             then min_opt (min_opt deadline (map_option (\<lambda>t. t + KA_INTERVAL) (dm_last_tx d)))
                    (map_option (\<lambda>t. t + KA_TIMEOUT) (dm_last_rx d))
             else deadline);
          deadline = fold (\<lambda>(k, c) dl. min_opt dl (vt_next_deadline dyn_vtable c)) (dm_channels d) deadline
      in if deadline > tnow then deadline - tnow else 0)"


section \<open>The main loop\<close>

text \<open>The loop body up to \<open>poll\<close>; the first component is the timeout given to it.\<close>

definition daemon_prepare :: "env \<Rightarrow> daemon \<Rightarrow> io \<Rightarrow> (nat \<times> daemon \<times> io) option" where
  "daemon_prepare E d io = do {
     let (tnow, io) = now E io;
     (d, io) \<leftarrow> (if dm_disconnected d \<and> tnow \<ge> dm_reopen_at d then open_link E d io else Some (d, io));
     (d, io) \<leftarrow> tick_keepalive E tnow d io;
     (d, io) \<leftarrow> daemon_all (vt_tick dyn_vtable E tnow) d io;
     let (d, io) = (if \<not> is_empty (io_txq io)
                    then let (t, io) = now E io;
                             d = d\<lparr>dm_last_tx := Some t\<rparr>
                         in (d, set_link_write_interest True d io)
                    else (d, io));
     let (t, io) = now E io;
     Some (next_timeout d t, d, io)
   }"

type_synonym event = "token \<times> bool \<times> bool"

definition daemon_event :: "env \<Rightarrow> event \<Rightarrow> daemon \<Rightarrow> io \<Rightarrow> (daemon \<times> io) option" where
  "daemon_event E ev d io =
     (case ev of (token, readable, writable) \<Rightarrow>
        if token = TOKEN_LINK
        then if dm_link_fd d = None then Some (d, io)
             else do {
               (d, io) \<leftarrow> (if readable then link_read E d io else Some (d, io));
               (if writable \<and> dm_link_fd d \<noteq> None then link_write E d io else Some (d, io))
             }
        else (case channel_id_for_token token of
            Some ch_id \<Rightarrow> do {
              (d, io) \<leftarrow> daemon_one ch_id (vt_handle_event dyn_vtable E token readable writable) d io;
              (d, io) \<leftarrow> check_bp_high d io;
              Some (touch_tx E d io)
            }
          | None \<Rightarrow> Some (d, io)))"

fun daemon_events :: "env \<Rightarrow> event list \<Rightarrow> daemon \<Rightarrow> io \<Rightarrow> (daemon \<times> io) option" where
  "daemon_events E [] d io = Some (d, io)"
| "daemon_events E (e # es) d io = do { (d, io) \<leftarrow> daemon_event E e d io; daemon_events E es d io }"

text \<open>The entry of \<open>run\<close>, and one iteration; a \<open>poll\<close> error is an iteration with no events.\<close>

definition daemon_start :: "env \<Rightarrow> daemon \<Rightarrow> io \<Rightarrow> (daemon \<times> io) option" where
  "daemon_start E d io = (if dm_disconnected d then open_link E d io else Some (d, io))"

definition daemon_iter :: "env \<Rightarrow> event list \<Rightarrow> daemon \<Rightarrow> io \<Rightarrow> (daemon \<times> io) option" where
  "daemon_iter E events d io = do {
     (timeout, d, io) \<leftarrow> daemon_prepare E d io;
     daemon_events E events d io
   }"

fun daemon_run :: "env \<Rightarrow> event list list \<Rightarrow> daemon \<Rightarrow> io \<Rightarrow> (daemon \<times> io) option" where
  "daemon_run E [] d io = Some (d, io)"
| "daemon_run E (es # ess) d io = do { (d, io) \<leftarrow> daemon_iter E es d io; daemon_run E ess d io }"

end
