(* ===== verification/Daemon_Inv.thy ===== *)
theory Daemon_Inv
  imports Daemon
begin

text \<open>
  The invariant of the daemon: the link flags and the descriptor agree, every channel agrees with
  the daemon on backpressure and on the state of the link, and what has been written to the link
  since the queue was last reset, followed by what is queued, is a sequence of whole frames.
\<close>


section \<open>The byte stream of a link session\<close>

fun link_out :: "call list \<Rightarrow> bytes" where
  "link_out [] = []"
| "link_out (LinkWrote f bs # cs) = bs @ link_out cs"
| "link_out (c # cs) = link_out cs"

lemma link_out_append [simp]: "link_out (cs @ ds) = link_out cs @ link_out ds"
  by (induction cs rule: link_out.induct) auto

text \<open>The calls since the last reset of the queue.\<close>

definition session :: "call list \<Rightarrow> call list" where
  "session cs = rev (takeWhile (\<lambda>c. c \<noteq> TxReset) (rev cs))"

lemma session_append: "TxReset \<notin> set ds \<Longrightarrow> session (cs @ ds) = session cs @ ds"
  unfolding session_def rev_append by (subst takeWhile_append2) auto

lemma session_reset [simp]: "session (cs @ [TxReset]) = []"
  by (simp add: session_def)

text \<open>The blocks that a queue of the size of the transmit queue takes when it starts with \<open>n\<close> bytes, sees these calls and
  refuses a block, as a whole, only when there is no room for it; and the number of bytes it holds afterwards.  The two
  are computed from the calls alone.\<close>

fun link_taken :: "nat \<Rightarrow> call list \<Rightarrow> bytes list" where
  "link_taken n [] = []"
| "link_taken n (Enqueue f # cs) =
     (if n + length f < LINK_TXBUF_SIZE then f # link_taken (n + length f) cs else link_taken n cs)"
| "link_taken n (LinkWrote f bs # cs) = link_taken (n - length bs) cs"
| "link_taken n (c # cs) = link_taken n cs"

fun link_level :: "nat \<Rightarrow> call list \<Rightarrow> nat" where
  "link_level n [] = n"
| "link_level n (Enqueue f # cs) = link_level (if n + length f < LINK_TXBUF_SIZE then n + length f else n) cs"
| "link_level n (LinkWrote f bs # cs) = link_level (n - length bs) cs"
| "link_level n (c # cs) = link_level n cs"

lemma link_taken_append [simp]:
  "link_taken n (cs @ ds) = link_taken n cs @ link_taken (link_level n cs) ds"
  "link_level n (cs @ ds) = link_level (link_level n cs) ds"
  by (induction n cs rule: link_taken.induct) auto

lemma link_taken_subseq: "subseq (link_taken n cs) (enqueued cs)"
  by (induction n cs rule: link_taken.induct) auto

definition wf_frame :: "hash_fn \<Rightarrow> bytes \<Rightarrow> bool" where
  "wf_frame crc f \<longleftrightarrow> (\<exists>t c p. f = build_frame crc t c p \<and> length p \<le> MAX_PAYLOAD)"

text \<open>The stream of a session: what has been written to the link and what is still queued.\<close>

abbreviation stream :: "io \<Rightarrow> bytes" where
  "stream io \<equiv> link_out (session (io_log io)) @ queued (io_txq io)"

definition stream_ok :: "hash_fn \<Rightarrow> io \<Rightarrow> bool" where
  "stream_ok crc io \<longleftrightarrow> txq_inv (io_txq io)
     \<and> stream io = concat (link_taken 0 (session (io_log io)))
     \<and> length (queued (io_txq io)) = link_level 0 (session (io_log io))
     \<and> (\<forall>f \<in> set (enqueued (io_log io)). wf_frame crc f)"

lemma stream_ok_inv: "stream_ok crc io \<Longrightarrow> txq_inv (io_txq io)"
  by (simp add: stream_ok_def)

lemma wf_frameI: "length p \<le> MAX_PAYLOAD \<Longrightarrow> wf_frame crc (build_frame crc t c p)"
  by (auto simp: wf_frame_def)

definition neutral :: "hash_fn \<Rightarrow> call \<Rightarrow> bool" where
  "neutral crc c \<longleftrightarrow> c \<noteq> TxReset \<and> (\<forall>f bs. c \<noteq> LinkWrote f bs) \<and> (\<forall>f. c = Enqueue f \<longrightarrow> wf_frame crc f)"

lemma own_neutral: "own_call crc c x \<Longrightarrow> neutral crc x"
  by (cases x) (auto simp: neutral_def own_frame_def wf_frame_def)

lemma neutral_list:
  assumes "list_all (neutral crc) cs"
  shows "TxReset \<notin> set cs" "link_out cs = []" "\<forall>f \<in> set (enqueued cs). wf_frame crc f"
  using assms
proof (induction cs)
  case (Cons c cs)
  { case 1 then show ?case using Cons by (auto simp: neutral_def) }
  { case 2 then show ?case using Cons by (cases c) (auto simp: neutral_def) }
  { case 3 then show ?case using Cons by (cases c) (auto simp: neutral_def) }
qed simp_all

text \<open>Between two writes the ring takes the blocks of \<open>link_taken\<close>.\<close>

lemma enq_link_taken:
  "list_all (neutral crc) cs \<Longrightarrow> txq_inv q \<Longrightarrow>
   queued (fold enq (enqueued cs) q) = queued q @ concat (link_taken (length (queued q)) cs)
   \<and> length (queued (fold enq (enqueued cs) q)) = link_level (length (queued q)) cs"
proof (induction cs arbitrary: q)
  case (Cons c cs)
  show ?case
  proof (cases "is_enqueue c")
    case True
    then obtain f where "c = Enqueue f" by (cases c) auto
    then show ?thesis using Cons.IH [of "enq f q"] Cons.prems by (auto simp: queued_enq fits_def)
  next
    case False
    then have e: "enqueued (c # cs) = enqueued cs" "link_taken n (c # cs) = link_taken n cs" "link_level n (c # cs) = link_level n cs" for n
      using Cons.prems(1) by (cases c; simp add: neutral_def)+
    show ?thesis unfolding e by (rule Cons.IH [OF _ Cons.prems(2)]) (use Cons.prems(1) in simp)
  qed
qed simp

text \<open>Whatever the channels do, they only append whole frames to the stream.\<close>

lemma stream_emits:
  assumes "stream_ok crc io" "emits P io io'" "\<And>c. P c \<Longrightarrow> neutral crc c"
  shows "stream_ok crc io'"
proof -
  obtain cs where cs: "io_log io' = io_log io @ cs" "list_all P cs"
    "io_txq io' = fold enq (enqueued cs) (io_txq io)" using assms(2) by (auto simp: emits_def)
  have ne: "list_all (neutral crc) cs" using cs(2) assms(3) by (auto simp: list_all_iff)
  note n = neutral_list [OF ne]
  have q: "txq_inv (io_txq io)" and l: "length (queued (io_txq io)) = link_level 0 (session (io_log io))"
    and t: "stream io = concat (link_taken 0 (session (io_log io)))"
    using assms(1) by (simp_all add: stream_ok_def)
  note k = enq_link_taken [OF ne q, unfolded l, folded cs(3)]
  have "stream io' = concat (link_taken 0 (session (io_log io')))"
    using t n(1,2) cs(1) conjunct1 [OF k] by (simp add: session_append flip: append_assoc)
  moreover have "length (queued (io_txq io')) = link_level 0 (session (io_log io'))"
    using n(1) cs(1) conjunct2 [OF k] by (simp add: session_append)
  moreover have "txq_inv (io_txq io')" using assms(1) cs(3) by (simp add: stream_ok_def fold_enq_inv)
  moreover have "\<forall>f \<in> set (enqueued (io_log io')). wf_frame crc f"
    using assms(1) cs(1) n(3) by (auto simp: stream_ok_def)
  ultimately show ?thesis unfolding stream_ok_def by blast
qed

text \<open>The stream of a session only grows.\<close>

definition stream_grows :: "io \<Rightarrow> io \<Rightarrow> bool" where
  "stream_grows io io' \<longleftrightarrow> (\<exists>cs. io_log io' = io_log io @ cs \<and> TxReset \<notin> set cs) \<and> prefix (stream io) (stream io')"

lemma stream_grows_refl [simp]: "stream_grows io io"
  by (simp add: stream_grows_def)

lemma stream_grows_trans: "stream_grows io io1 \<Longrightarrow> stream_grows io1 io2 \<Longrightarrow> stream_grows io io2"
  unfolding stream_grows_def using prefix_order.trans by fastforce

lemma stream_grows_next [simp]:
  "stream_grows io0 (next_call io) = stream_grows io0 io" "stream_grows (next_call io0) io = stream_grows io0 io"
  by (simp_all add: stream_grows_def)

lemma stream_grows_emits:
  assumes "txq_inv (io_txq io)" "emits P io io'" "\<And>c. P c \<Longrightarrow> neutral crc c"
  shows "stream_grows io io'"
proof -
  obtain cs where cs: "io_log io' = io_log io @ cs" "list_all P cs"
    "io_txq io' = fold enq (enqueued cs) (io_txq io)" using assms(2) by (auto simp: emits_def)
  have "list_all (neutral crc) cs" using cs(2) assms(3) by (auto simp: list_all_iff)
  note n = neutral_list [OF this]
  show ?thesis using fold_enq_taken [OF assms(1), of "enqueued cs"] cs n
    by (auto simp: stream_grows_def session_append)
qed

lemma stream_call: "stream_ok crc io \<Longrightarrow> neutral crc c \<Longrightarrow> \<not> is_enqueue c \<Longrightarrow> stream_ok crc (call c io)"
  by (rule stream_emits [of crc io "neutral crc"]) (auto intro: emits_call)

lemma stream_next [simp]: "stream_ok crc (next_call io) = stream_ok crc io"
  by (simp add: stream_ok_def)

lemma stream_send: "stream_ok crc io \<Longrightarrow> wf_frame crc f \<Longrightarrow> stream_ok crc (send f io)"
  by (rule stream_emits [of crc io "neutral crc"]) (auto intro: emits_send simp: neutral_def)

lemma stream_reset: "stream_ok crc io \<Longrightarrow> stream_ok crc (txq_reset_io io)"
  by (auto simp: stream_ok_def txq_reset_io_def)

lemma stream_link_write:
  assumes "stream_ok crc io" "queued (io_txq io) = out @ queued q" "txq_inv q"
  shows "stream_ok crc (call (LinkWrote f out) (next_call (io\<lparr>io_txq := q\<rparr>)))"
  using assms unfolding stream_ok_def by (auto simp: session_append)

lemma set_link_write_interest_ok:
  "stream_ok crc io \<Longrightarrow> stream_ok crc (set_link_write_interest b d io)"
  by (auto simp: set_link_write_interest_def neutral_def intro!: stream_call split: option.splits)


section \<open>The channels agree with the daemon\<close>

definition chan_agrees :: "(u8 \<Rightarrow> token set) \<Rightarrow> bool \<Rightarrow> bool \<Rightarrow> bool \<Rightarrow> u8 \<times> chan \<Rightarrow> bool" where
  "chan_agrees T up bp down kc \<longleftrightarrow> (case kc of (k, c) \<Rightarrow>
     dyn_ok c \<and> cv_id (dyn_view c) = k \<and> cv_tokens (dyn_view c) = T k \<and> cv_paused (dyn_view c) = bp
     \<and> cv_linked (dyn_view c) \<in> {None, Some up} \<and> (down \<longrightarrow> dyn_idle c))"

definition chans_ok :: "(u8 \<Rightarrow> token set) \<Rightarrow> bool \<Rightarrow> bool \<Rightarrow> bool \<Rightarrow> (u8 \<times> chan) list \<Rightarrow> bool" where
  "chans_ok T up bp down cs \<longleftrightarrow> distinct (map fst cs) \<and> list_all (chan_agrees T up bp down) cs"

text \<open>The flags of the daemon after a call to every channel.\<close>

fun flags_step :: "chan_op \<Rightarrow> bool \<times> bool \<Rightarrow> bool \<times> bool" where
  "flags_step LinkConnect (up, bp) = (True, bp)"
| "flags_step LinkDisconnect (up, bp) = (False, bp)"
| "flags_step Pause (up, bp) = (up, True)"
| "flags_step Resume (up, bp) = (up, False)"
| "flags_step _ (up, bp) = (up, bp)"

abbreviation queue_kept :: "bool \<Rightarrow> chan_op \<Rightarrow> io \<Rightarrow> io \<Rightarrow> bool" where
  "queue_kept down x io io' \<equiv> (down \<or> silent x \<longrightarrow> io_txq io' = io_txq io)
     \<and> length (queued (io_txq io)) \<le> length (queued (io_txq io')) \<and> stream_grows io io'"

lemma emits_grows:
  "txq_inv (io_txq io) \<Longrightarrow> emits P io io' \<Longrightarrow> length (queued (io_txq io)) \<le> length (queued (io_txq io'))"
proof -
  assume q: "txq_inv (io_txq io)" and "emits P io io'"
  then obtain cs where cs: "io_txq io' = fold enq (enqueued cs) (io_txq io)" by (auto simp: emits_def)
  from fold_enq_taken [OF q, of "enqueued cs"] show ?thesis by (auto simp: cs)
qed

lemma chan_agrees_step:
  assumes E: "env_ok E" and q: "stream_ok (env_crc E) io" and c: "chan_agrees T up bp down (k, c)"
    and a: "op_allowed (dyn_view c) x" and f: "flags_step x (up, bp) = (up', bp')"
    and d: "down \<Longrightarrow> spontaneous x"
  shows "\<exists>c' io'. chan_step dyn_vtable E x c io = Some (c', io')
    \<and> chan_agrees T up' bp' (down \<or> x = LinkDisconnect) (k, c')
    \<and> stream_ok (env_crc E) io' \<and> queue_kept down x io io'"
proof -
  have ok: "dyn_ok c" using c by (simp add: chan_agrees_def)
  from dyn.step [OF E ok stream_ok_inv [OF q] a]
  obtain c' io' where s: "chan_step dyn_vtable E x c io = Some (c', io')" "dyn_ok c'"
    "dyn_view c' = view_step x (dyn_view c)" "emits (own E (dyn_view c)) io io'"
    unfolding handles_def by blast
  have idle: "dyn_idle c' \<and> io_txq io' = io_txq io" if down
    using dyn_idling.idle_step [OF E ok _ stream_ok_inv [OF q] d [OF that] a s(1)] c that
    by (auto simp: chan_agrees_def)
  have "dyn_idle c'" if "x = LinkDisconnect" using dyn_idling.disconnect_idle [OF ok] s(1) that by blast
  then have "chan_agrees T up' bp' (down \<or> x = LinkDisconnect) (k, c')"
    using c s f idle by (cases x) (auto simp: chan_agrees_def)
  moreover have "stream_ok (env_crc E) io'" using stream_emits [OF q s(4)] own_neutral by blast
  moreover have "stream_grows io io'" using stream_grows_emits [OF stream_ok_inv [OF q] s(4)] own_neutral by blast
  then have "queue_kept down x io io'"
    using idle dyn.silent_step [OF ok _ s(1)] emits_grows [OF stream_ok_inv [OF q] s(4)] by blast
  ultimately show ?thesis using s(1) by blast
qed

lemma for_channels_ok:
  assumes E: "env_ok E" and f: "flags_step x (up, bp) = (up', bp')" and x: "\<forall>tk r w. x \<noteq> Event tk r w"
    and d: "down \<Longrightarrow> spontaneous x"
    and "stream_ok (env_crc E) io" "list_all (chan_agrees T up bp down) cs"
  shows "\<exists>cs' io'. for_channels (chan_step dyn_vtable E x) cs io = Some (cs', io') \<and> map fst cs' = map fst cs
    \<and> list_all (chan_agrees T up' bp' (down \<or> x = LinkDisconnect)) cs' \<and> stream_ok (env_crc E) io'
    \<and> queue_kept down x io io'"
  using assms(5,6)
proof (induction cs arbitrary: io)
  case Nil
  then show ?case by simp
next
  case (Cons kc cs)
  obtain k c where kc: "kc = (k, c)" by fastforce
  have a: "op_allowed (dyn_view c) x" using x by (cases x) auto
  have c: "chan_agrees T up bp down (k, c)" using Cons.prems(2) kc by simp
  obtain c1 io1 where c1: "chan_step dyn_vtable E x c io = Some (c1, io1)"
    "chan_agrees T up' bp' (down \<or> x = LinkDisconnect) (k, c1)"
    "stream_ok (env_crc E) io1" "queue_kept down x io io1"
    using chan_agrees_step [OF E Cons.prems(1) c a f d] by blast
  obtain cs' io' where "for_channels (chan_step dyn_vtable E x) cs io1 = Some (cs', io')"
    "map fst cs' = map fst cs" "list_all (chan_agrees T up' bp' (down \<or> x = LinkDisconnect)) cs'"
    "stream_ok (env_crc E) io'" "queue_kept down x io1 io'"
    using Cons.IH [OF c1(3)] Cons.prems(2) by auto
  with c1 kc show ?case using stream_grows_trans [of io io1 io'] by auto
qed

lemma with_channel_ok:
  assumes E: "env_ok E" and f: "flags_step x (up, bp) = (up, bp)" and n: "x \<noteq> LinkDisconnect"
    and x: "\<And>tk r w. x = Event tk r w \<Longrightarrow> tk \<in> T i" and d: "down \<Longrightarrow> spontaneous x"
    and "stream_ok (env_crc E) io" "list_all (chan_agrees T up bp down) cs"
  shows "\<exists>cs' io'. with_channel i (chan_step dyn_vtable E x) cs io = Some (cs', io') \<and> map fst cs' = map fst cs
    \<and> list_all (chan_agrees T up bp down) cs' \<and> stream_ok (env_crc E) io' \<and> queue_kept down x io io'"
  using assms(6,7)
proof (induction cs arbitrary: io)
  case Nil
  then show ?case by simp
next
  case (Cons kc cs)
  obtain k c where kc: "kc = (k, c)" by fastforce
  have c: "chan_agrees T up bp down (k, c)" using Cons.prems(2) kc by simp
  show ?case
  proof (cases "k = i")
    case True
    have "cv_tokens (dyn_view c) = T i" using c True by (simp add: chan_agrees_def)
    then have a: "op_allowed (dyn_view c) x" using x by (cases x) auto
    show ?thesis using chan_agrees_step [OF E Cons.prems(1) c a f d] Cons.prems(2) kc True n by auto
  next
    case False
    then show ?thesis using Cons.IH [OF Cons.prems(1)] Cons.prems(2) kc by auto
  qed
qed


section \<open>The invariant\<close>

definition link_inv :: "hash_fn \<Rightarrow> daemon \<Rightarrow> bool" where
  "link_inv crc d \<longleftrightarrow> (dm_disconnected d \<longleftrightarrow> dm_link_fd d = None)
     \<and> (dm_link_up d \<longrightarrow> \<not> dm_disconnected d) \<and> (dm_link_bp d \<longrightarrow> \<not> dm_disconnected d)
     \<and> (\<not> dm_disconnected d \<longrightarrow> dm_last_rx d \<noteq> None \<and> dm_last_tx d \<noteq> None)
     \<and> from_millis 500 \<le> dm_reopen_delay d \<and> dm_reopen_delay d \<le> from_secs 8
     \<and> fp_inv (dm_parser d) \<and> fp_settled crc (fp_view (dm_parser d))"

definition dm_core :: "env \<Rightarrow> (u8 \<Rightarrow> token set) \<Rightarrow> daemon \<Rightarrow> io \<Rightarrow> bool" where
  "dm_core E T d io \<longleftrightarrow> stream_ok (env_crc E) io \<and> link_inv (env_crc E) d
     \<and> chans_ok T (dm_link_up d) (dm_link_bp d) (dm_disconnected d) (dm_channels d)
     \<and> (dm_disconnected d \<longrightarrow> queued (io_txq io) = [])"

text \<open>Sources are paused only while there is more than the low-water mark to write.\<close>

definition bp_inv :: "daemon \<Rightarrow> io \<Rightarrow> bool" where
  "bp_inv d io \<longleftrightarrow> (dm_link_bp d \<longrightarrow> LINK_LOW_WATER < length (queued (io_txq io)))"

definition dm_inv :: "env \<Rightarrow> (u8 \<Rightarrow> token set) \<Rightarrow> daemon \<Rightarrow> io \<Rightarrow> bool" where
  "dm_inv E T d io \<longleftrightarrow> dm_core E T d io \<and> bp_inv d io"

lemmas dm_inv_defs = dm_inv_def dm_core_def bp_inv_def

text \<open>The outcome of an operation of the daemon.\<close>

definition runs :: "env \<Rightarrow> (u8 \<Rightarrow> token set) \<Rightarrow> (daemon \<Rightarrow> bool) \<Rightarrow> (daemon \<times> io) option \<Rightarrow> bool" where
  "runs E T Q r \<longleftrightarrow> (\<exists>d io. r = Some (d, io) \<and> dm_inv E T d io \<and> Q d)"

lemma runs_Some [simp]: "runs E T Q (Some (d, io)) \<longleftrightarrow> dm_inv E T d io \<and> Q d"
  by (simp add: runs_def)

lemma runs_bind:
  "runs E T Q r \<Longrightarrow> (\<And>d io. dm_inv E T d io \<Longrightarrow> Q d \<Longrightarrow> runs E T R (k d io)) \<Longrightarrow>
   runs E T R (r \<bind> (\<lambda>(d, io). k d io))"
  unfolding runs_def by fastforce

lemma runs_mono: "runs E T Q r \<Longrightarrow> (\<And>d. Q d \<Longrightarrow> R d) \<Longrightarrow> runs E T R r"
  unfolding runs_def by blast

abbreviation connected :: "daemon \<Rightarrow> bool" where
  "connected d \<equiv> \<not> dm_disconnected d"


section \<open>Every operation keeps the invariant\<close>

lemma daemon_all_ok:
  assumes "env_ok E" "stream_ok (env_crc E) io" "link_inv (env_crc E) d" "chans_ok T up bp down (dm_channels d)"
    and "flags_step x (up, bp) = (dm_link_up d, dm_link_bp d)" "\<forall>tk r w. x \<noteq> Event tk r w"
    and "down \<Longrightarrow> spontaneous x" "dm_disconnected d = (down \<or> x = LinkDisconnect)"
    and "dm_disconnected d \<Longrightarrow> queued (io_txq io) = []" "bp_inv d io"
  shows "runs E T (\<lambda>d'. dm_disconnected d' = dm_disconnected d) (daemon_all (chan_step dyn_vtable E x) d io)"
proof -
  have "list_all (chan_agrees T up bp down) (dm_channels d)" using assms(4) by (simp add: chans_ok_def)
  from for_channels_ok [OF assms(1,5,6,7,2) this] obtain cs' io' where
    "for_channels (chan_step dyn_vtable E x) (dm_channels d) io = Some (cs', io')"
    "map fst cs' = map fst (dm_channels d)"
    "list_all (chan_agrees T (dm_link_up d) (dm_link_bp d) (dm_disconnected d)) cs'"
    "stream_ok (env_crc E) io'" "queue_kept down x io io'"
    unfolding assms(8) [symmetric] by blast
  moreover have "silent LinkDisconnect" by simp
  ultimately show ?thesis using assms(3,4,8,9,10)
    by (auto simp: daemon_all_def dm_inv_defs chans_ok_def link_inv_def)
qed

lemmas daemon_connect_ok = daemon_all_ok [where x = LinkConnect, simplified]
lemmas daemon_disconnect_ok = daemon_all_ok [where x = LinkDisconnect, simplified]
lemmas daemon_pause_ok = daemon_all_ok [where x = Pause, simplified]
lemmas daemon_tick_ok = daemon_all_ok [where x = "Tick n" for n, simplified]

lemma daemon_one_ok:
  assumes E: "env_ok E" and inv: "dm_inv E T d io" and f: "\<And>v. flags_step x v = v" and n: "x \<noteq> LinkDisconnect"
    and x: "\<And>tk r w. x = Event tk r w \<Longrightarrow> tk \<in> T i" and d: "dm_disconnected d \<Longrightarrow> spontaneous x"
  shows "runs E T (\<lambda>d'. dm_disconnected d' = dm_disconnected d) (daemon_one i (chan_step dyn_vtable E x) d io)"
proof -
  have "\<exists>cs' io'. with_channel i (chan_step dyn_vtable E x) (dm_channels d) io = Some (cs', io')
    \<and> map fst cs' = map fst (dm_channels d)
    \<and> list_all (chan_agrees T (dm_link_up d) (dm_link_bp d) (dm_disconnected d)) cs'
    \<and> stream_ok (env_crc E) io' \<and> queue_kept (dm_disconnected d) x io io'"
    by (rule with_channel_ok [OF E f n]) (use x d inv in \<open>auto simp: dm_inv_defs chans_ok_def\<close>)
  then obtain cs' io' where "with_channel i (chan_step dyn_vtable E x) (dm_channels d) io = Some (cs', io')"
    "map fst cs' = map fst (dm_channels d)"
    "list_all (chan_agrees T (dm_link_up d) (dm_link_bp d) (dm_disconnected d)) cs'"
    "stream_ok (env_crc E) io'" "queue_kept (dm_disconnected d) x io io'"
    by blast
  then show ?thesis using inv by (auto simp: daemon_one_def dm_inv_defs chans_ok_def link_inv_def)
qed

lemma schedule_reopen_ok:
  assumes "dm_inv E T d io"
  shows "runs E T (\<lambda>d'. dm_disconnected d' = dm_disconnected d) (Some (schedule_reopen E d io))"
  using assms by (auto simp: schedule_reopen_def dm_inv_defs link_inv_def now_def from_millis_def from_secs_def)

lemma interest_txq [simp]: "io_txq (set_link_write_interest b d io) = io_txq io"
  by (simp add: set_link_write_interest_def split: option.split)

lemma touch_tx_ok:
  assumes "dm_inv E T d io"
  shows "runs E T (\<lambda>d'. dm_disconnected d' = dm_disconnected d) (Some (touch_tx E d io))"
  using assms
  by (auto simp: touch_tx_def dm_inv_defs link_inv_def now_def Let_def intro!: set_link_write_interest_ok)

lemma enqueue_frame_ok:
  assumes "dm_inv E T d io" "wf_frame (env_crc E) f"
  shows "runs E T (\<lambda>d'. dm_disconnected d' = dm_disconnected d \<and> dm_link_up d' = dm_link_up d) (enqueue_frame E f d io)"
  using assms stream_ok_inv [of "env_crc E" io]
  by (auto simp: enqueue_frame_def dm_inv_defs link_inv_def now_def Let_def queued_enq
      intro!: set_link_write_interest_ok stream_send)

lemma check_bp_high_ok:
  assumes E: "env_ok E" and inv: "dm_inv E T d io"
  shows "runs E T (\<lambda>d'. dm_disconnected d' = dm_disconnected d) (check_bp_high d io)"
proof (cases "\<not> dm_link_bp d \<and> used (io_txq io) \<ge> LINK_HIGH_WATER")
  case True
  have "connected d"
  proof
    assume "dm_disconnected d"
    then have "used (io_txq io) = 0"
      using inv used_queued [of "io_txq io"] stream_ok_inv [of "env_crc E" io] by (simp add: dm_inv_defs)
    then show False using True by (simp add: mux_consts)
  qed
  then have "runs E T (\<lambda>d'. dm_disconnected d' = dm_disconnected (d\<lparr>dm_link_bp := True\<rparr>))
      (daemon_all (vt_pause_source_reads dyn_vtable) (d\<lparr>dm_link_bp := True\<rparr>) io)"
    using inv True used_queued [of "io_txq io"] stream_ok_inv [of "env_crc E" io]
    by (intro daemon_pause_ok [OF E]) (auto simp: dm_inv_defs link_inv_def mux_consts)
  then show ?thesis using True by (simp add: check_bp_high_def)
next
  case False
  then show ?thesis using inv by (auto simp: check_bp_high_def)
qed

lemma daemon_all_raw:
  assumes "env_ok E" "flags_step x (up, bp) = (up', bp')" "\<forall>tk r w. x \<noteq> Event tk r w" "down \<Longrightarrow> spontaneous x"
    "stream_ok (env_crc E) io" "chans_ok T up bp down (dm_channels d)"
  shows "\<exists>cs' io'. daemon_all (chan_step dyn_vtable E x) d io = Some (d\<lparr>dm_channels := cs'\<rparr>, io')
    \<and> chans_ok T up' bp' (down \<or> x = LinkDisconnect) cs' \<and> stream_ok (env_crc E) io'
    \<and> queue_kept down x io io'"
proof -
  have "list_all (chan_agrees T up bp down) (dm_channels d)" using assms(6) by (simp add: chans_ok_def)
  from for_channels_ok [OF assms(1-5) this] obtain cs' io' where
    "for_channels (chan_step dyn_vtable E x) (dm_channels d) io = Some (cs', io')"
    "map fst cs' = map fst (dm_channels d)"
    "list_all (chan_agrees T up' bp' (down \<or> x = LinkDisconnect)) cs'"
    "stream_ok (env_crc E) io'" "queue_kept down x io io'" by blast
  then show ?thesis using assms(6)
    by (intro exI [of _ cs'] exI [of _ io']) (simp add: daemon_all_def chans_ok_def)
qed

lemma close_link_core:
  assumes E: "env_ok E" and inv: "dm_core E T d io" and bp: "dm_disconnected d \<Longrightarrow> bp_inv d io"
  shows "runs E T dm_disconnected (close_link E d io)"
proof (cases "dm_disconnected d")
  case True
  then show ?thesis using inv bp by (simp add: close_link_def dm_inv_def)
next
  case False
  obtain f where f: "dm_link_fd d = Some f" using inv False by (auto simp: dm_inv_defs link_inv_def)
  let ?io = "txq_reset_io (close_raw f (call (Deregister f) io))"
  let ?d = "d\<lparr>dm_disconnected := True, dm_link_up := False, dm_link_fd := None\<rparr>"
  have io1: "stream_ok (env_crc E) ?io"
    using inv unfolding close_raw_def by (intro stream_reset stream_call) (auto simp: dm_inv_defs neutral_def)
  have io1': "queued (io_txq ?io) = []" by (simp add: txq_reset_io_def)
  have ch: "chans_ok T (dm_link_up d) (dm_link_bp d) False (dm_channels d)"
    using inv False by (simp add: dm_inv_defs)
  have "\<exists>cs io2. (if dm_link_bp ?d then daemon_all (vt_resume_source_reads dyn_vtable) (?d\<lparr>dm_link_bp := False\<rparr>) ?io
      else Some (?d, ?io)) = Some (?d\<lparr>dm_link_bp := False, dm_channels := cs\<rparr>, io2)
      \<and> chans_ok T (dm_link_up d) False False cs \<and> stream_ok (env_crc E) io2 \<and> queued (io_txq io2) = []"
  proof (cases "dm_link_bp d")
    case True
    then show ?thesis
      using daemon_all_raw [OF E, of Resume "dm_link_up d" True "dm_link_up d" False False ?io T "?d\<lparr>dm_link_bp := False\<rparr>"]
        io1 io1' ch by auto
  next
    case bp: False
    have "?d\<lparr>dm_link_bp := False, dm_channels := dm_channels d\<rparr> = ?d" using bp by simp
    then show ?thesis using bp io1 io1' ch
      by (intro exI [of _ "dm_channels d"] exI [of _ ?io]) simp
  qed
  then obtain cs io2 where r: "(if dm_link_bp ?d then daemon_all (vt_resume_source_reads dyn_vtable) (?d\<lparr>dm_link_bp := False\<rparr>) ?io
      else Some (?d, ?io)) = Some (?d\<lparr>dm_link_bp := False, dm_channels := cs\<rparr>, io2)"
    "chans_ok T (dm_link_up d) False False cs" "stream_ok (env_crc E) io2" "queued (io_txq io2) = []" by blast
  let ?d2 = "?d\<lparr>dm_link_bp := False, dm_channels := cs\<rparr>"
  have "runs E T (\<lambda>d'. dm_disconnected d' = dm_disconnected ?d2)
      (daemon_all (vt_on_link_disconnect dyn_vtable E) ?d2 io2)"
    using inv r by (intro daemon_disconnect_ok [OF E]) (auto simp: dm_inv_defs link_inv_def)
  then have "runs E T dm_disconnected (daemon_all (vt_on_link_disconnect dyn_vtable E) ?d2 io2 \<bind>
      (\<lambda>(d, io). Some (schedule_reopen E d io)))"
    by (rule runs_bind) (use schedule_reopen_ok runs_mono in fastforce)
  then show ?thesis using False f r(1) by (simp add: close_link_def Let_def)
qed

lemma close_link_ok:
  "env_ok E \<Longrightarrow> dm_inv E T d io \<Longrightarrow> runs E T dm_disconnected (close_link E d io)"
  by (intro close_link_core) (simp_all add: dm_inv_def)

lemma open_link_ok:
  assumes E: "env_ok E" and inv: "dm_inv E T d io" and down: "dm_disconnected d"
  shows "runs E T (\<lambda>_. True) (open_link E d io)"
proof -
  have sched: "runs E T (\<lambda>_. True) (Some (schedule_reopen E d io1))"
    if "stream_ok (env_crc E) io1" "io_txq io1 = io_txq io" for io1
    using schedule_reopen_ok [of E T d io1] inv that runs_mono by (fastforce simp: dm_inv_defs)
  obtain dev io1 where r: "resolve_dev E d io = (dev, io1)" by fastforce
  have io1: "stream_ok (env_crc E) io1" "io_txq io1 = io_txq io"
    using inv r by (auto simp: resolve_dev_def dm_inv_defs split: option.splits prod.splits)
  show ?thesis
  proof (cases dev)
    case None
    then show ?thesis using r sched [OF io1] by (simp add: open_link_def)
  next
    case (Some dv)
    obtain x io2 where o: "open_serial_fd E dv 115200 io1 = (x, io2)" by fastforce
    have "emits (neutral (env_crc E)) io1 io2" by (rule emits_open_serial [OF o]) (simp add: neutral_def)
    then have io2: "stream_ok (env_crc E) io2" "io_txq io2 = io_txq io"
      using stream_emits [OF io1(1)] open_serial_txq [OF o] io1(2) by auto
    show ?thesis
    proof (cases x)
      case (Inl e)
      then show ?thesis using r Some o sched [OF io2] by (simp add: open_link_def)
    next
      case (Inr f)
      show ?thesis
      proof (cases "env_register E (io_n io2) f TOKEN_LINK")
        case (Some e)
        have "stream_ok (env_crc E) (close_raw f (next_call io2))"
          using io2 by (auto simp: close_raw_def neutral_def intro!: stream_call)
        then show ?thesis using r \<open>dev = Some dv\<close> o Inr Some io2 sched [of "close_raw f (next_call io2)"]
          by (simp add: open_link_def close_raw_def)
      next
        case None
        let ?io = "txq_reset_io (call (Register f TOKEN_LINK READABLE) (next_call io2))"
        have s: "stream_ok (env_crc E) ?io"
          using io2 by (auto simp: neutral_def intro!: stream_reset stream_call)
        have c: "chans_ok T False False False (dm_channels d)" and l: "link_inv (env_crc E) d"
          "\<not> dm_link_up d" "\<not> dm_link_bp d"
          using inv down by (auto simp: dm_inv_defs link_inv_def chans_ok_def chan_agrees_def list_all_iff)
        have w: "wf_frame (env_crc E) (build_frame (env_crc E) F_HELLO 0 [])" by (rule wf_frameI) simp
        show ?thesis using r \<open>dev = Some dv\<close> o Inr None s c l w stream_ok_inv [OF s]
          by (auto simp: open_link_def Let_def now_def dm_inv_defs link_inv_def from_millis_def from_secs_def
              intro!: set_link_write_interest_ok stream_send)
      qed
    qed
  qed
qed

lemma on_link_up_ok:
  assumes E: "env_ok E" and inv: "dm_inv E T d io" and c: "connected d"
  shows "runs E T connected (on_link_up E d io)"
proof (cases "dm_link_up d")
  case True
  then show ?thesis using inv c by (simp add: on_link_up_def)
next
  case False
  have "runs E T (\<lambda>d'. dm_disconnected d' = dm_disconnected (d\<lparr>dm_link_up := True\<rparr>))
      (daemon_all (vt_on_link_connect dyn_vtable E) (d\<lparr>dm_link_up := True\<rparr>) io)"
    using inv c by (intro daemon_connect_ok [OF E]) (auto simp: dm_inv_defs link_inv_def)
  then have "runs E T connected (daemon_all (vt_on_link_connect dyn_vtable E) (d\<lparr>dm_link_up := True\<rparr>) io \<bind>
      (\<lambda>(d, io). Some (touch_tx E d io)))"
    by (rule runs_bind) (use touch_tx_ok runs_mono c in fastforce)
  then show ?thesis using False by (simp add: on_link_up_def)
qed

lemma ctl_wf [simp]: "wf_frame crc (build_frame crc t c [])"
  by (rule wf_frameI) simp

lemma dispatch_frame_ok:
  assumes E: "env_ok E" and inv: "dm_inv E T d io" and c: "connected d"
  shows "runs E T connected (dispatch_frame E fr d io)"
proof -
  obtain t i p where fr: "fr = (t, i, p)" by (cases fr)
  have touch: "runs E T connected (Some (touch_tx E d' io'))" if "dm_inv E T d' io'" "connected d'" for d' io'
    using touch_tx_ok [OF that(1)] that(2) runs_mono by fastforce
  have enq: "runs E T (\<lambda>d'. connected d' \<and> dm_link_up d' = dm_link_up d) (enqueue_frame E (build_frame (env_crc E) k 0 []) d io)" for k
    using enqueue_frame_ok [OF inv, of "build_frame (env_crc E) k 0 []"] c runs_mono by fastforce
  have hello: "runs E T connected (enqueue_frame E (build_frame (env_crc E) F_ACK 0 []) d io \<bind> (\<lambda>(d, io).
      if dm_link_up d
      then do { (d, io) \<leftarrow> daemon_all (vt_on_link_connect dyn_vtable E) d io; Some (touch_tx E d io) }
      else on_link_up E d io))"
  proof (rule runs_bind [OF enq])
    fix d' io' assume a: "dm_inv E T d' io'" "connected d' \<and> dm_link_up d' = dm_link_up d"
    have "runs E T (\<lambda>x. dm_disconnected x = dm_disconnected d') (daemon_all (vt_on_link_connect dyn_vtable E) d' io')"
      if "dm_link_up d'"
      using a that by (intro daemon_connect_ok [OF E]) (auto simp: dm_inv_defs)
    then have "runs E T connected (daemon_all (vt_on_link_connect dyn_vtable E) d' io' \<bind>
        (\<lambda>(d, io). Some (touch_tx E d io)))" if "dm_link_up d'"
      using that a by (intro runs_bind [of E T "\<lambda>x. dm_disconnected x = dm_disconnected d'"] touch) auto
    then show "runs E T connected (if dm_link_up d'
      then do { (d, io) \<leftarrow> daemon_all (vt_on_link_connect dyn_vtable E) d' io'; Some (touch_tx E d io) }
      else on_link_up E d' io')"
      using on_link_up_ok [OF E a(1)] a(2) by auto
  qed
  have one: "runs E T connected (daemon_one i (vt_on_frame dyn_vtable E t p) d' io' \<bind>
      (\<lambda>(d, io). Some (touch_tx E d io)))" if "dm_inv E T d' io'" "connected d'" for d' io'
  proof (rule runs_bind)
    show "runs E T (\<lambda>x. dm_disconnected x = dm_disconnected d') (daemon_one i (vt_on_frame dyn_vtable E t p) d' io')"
      using daemon_one_ok [OF E that(1), of "OnFrame t p" i] that(2) by auto
  qed (use that touch in auto)
  have route: "runs E T connected ((if t = F_DATA \<or> t = F_TDATA then check_bp_high d io else Some (d, io)) \<bind>
      (\<lambda>(d, io). daemon_one i (vt_on_frame dyn_vtable E t p) d io \<bind> (\<lambda>(d, io). Some (touch_tx E d io))))"
  proof (rule runs_bind)
    show "runs E T (\<lambda>x. dm_disconnected x = dm_disconnected d)
        (if t = F_DATA \<or> t = F_TDATA then check_bp_high d io else Some (d, io))"
      using check_bp_high_ok [OF E inv] inv by simp
  qed (use one c in auto)
  show ?thesis
    unfolding dispatch_frame_def fr
    using runs_mono [OF enq [of F_PONG]] hello route on_link_up_ok [OF E inv c] inv c by auto
qed

lemma dispatch_frames_ok:
  assumes "env_ok E" "dm_inv E T d io" "connected d"
  shows "runs E T connected (dispatch_frames E frs d io)"
  using assms(2,3)
proof (induction frs arbitrary: d io)
  case (Cons fr frs)
  show ?case using runs_bind [OF dispatch_frame_ok [OF assms(1) Cons.prems] Cons.IH] by simp
qed simp

lemma feed_settled:
  assumes "fp_inv fp" "fp_settled crc (fp_view fp)"
  shows "\<exists>fp' frs. feed crc data fp = Some (fp', frs) \<and> fp_inv fp' \<and> fp_settled crc (fp_view fp')"
proof -
  obtain r frs where p: "parse crc (fp_view fp @ data) = (r, frs)" by fastforce
  obtain fp' where "feed crc data fp = Some (fp', frs)" "fp_inv fp'" "fp_view fp' = r"
    using feed_refines [OF assms, of data] p by auto
  then show ?thesis using parse_rest [OF p] by (auto simp: fp_settled_def)
qed

lemma link_read_ok:
  assumes E: "env_ok E" and inv: "dm_inv E T d io"
  shows "runs E T (\<lambda>_. True) (link_read E d io)"
proof (cases "dm_link_fd d")
  case None
  then show ?thesis using inv by (simp add: link_read_def)
next
  case (Some f)
  then have c: "connected d" using inv by (simp add: dm_inv_defs link_inv_def)
  obtain r where r: "read_nonblock E f 65536 io = (r, next_call io)" using read_nonblock_next [OF E] by blast
  have inv1: "dm_inv E T d (next_call io)" using inv by (simp add: dm_inv_defs)
  consider "r = Inr None \<or> r = Inr (Some [])" | b bs where "r = Inr (Some (b # bs))" | e where "r = Inl e"
    by (metis list.exhaust option.exhaust sum.exhaust)
  then show ?thesis
  proof cases
    case 1
    then show ?thesis using Some r inv1 by (auto simp: link_read_def)
  next
    case (2 b bs)
    obtain fp frs where fp: "feed (env_crc E) (b # bs) (dm_parser d) = Some (fp, frs)" "fp_inv fp"
      "fp_settled (env_crc E) (fp_view fp)"
      using feed_settled [of "dm_parser d" "env_crc E" "b # bs"] inv by (auto simp: dm_inv_defs link_inv_def)
    let ?d = "d\<lparr>dm_last_rx := Some (env_now E (Suc (io_n io))), dm_parser := fp\<rparr>"
    have "dm_inv E T ?d (next_call (next_call io))" using inv fp by (auto simp: dm_inv_defs link_inv_def)
    then have "runs E T connected (dispatch_frames E frs ?d (next_call (next_call io)))"
      using c by (intro dispatch_frames_ok [OF E]) auto
    then show ?thesis using Some r 2 fp runs_mono by (fastforce simp: link_read_def now_def)
  next
    case (3 e)
    then show ?thesis using Some r close_link_ok [OF E inv1] runs_mono by (fastforce simp: link_read_def)
  qed
qed

lemma link_write_ok:
  assumes E: "env_ok E" and inv: "dm_inv E T d io"
  shows "runs E T (\<lambda>_. True) (link_write E d io)"
proof (cases "dm_link_fd d")
  case None
  then show ?thesis using inv by (simp add: link_write_def)
next
  case (Some f)
  then have c: "connected d" using inv by (simp add: dm_inv_defs link_inv_def)
  have q: "txq_inv (io_txq io)" and s: "stream_ok (env_crc E) io" using inv by (auto simp: dm_inv_defs stream_ok_def)
  obtain q' out r where dr: "drain_to_fd (env_write E (io_n io) f) (io_txq io) = Some (q', out, r)" "txq_inv q'"
    "queued (io_txq io) = out @ queued q'"
    using drain_to_fd_spec [OF q, of "env_write E (io_n io) f"] env_ok_write [OF E] by blast
  let ?io = "call (LinkWrote f out) (next_call (io\<lparr>io_txq := q'\<rparr>))"
  have inv1: "dm_core E T d ?io" using inv c stream_link_write [OF s dr(3,2), of f] by (simp add: dm_inv_defs)
  have fin: "runs E T (\<lambda>_. True) (Some (d', if is_empty (io_txq io') then set_link_write_interest False d' io' else io'))"
    if "dm_inv E T d' io'" for d' io'
    using that by (auto simp: dm_inv_defs intro: set_link_write_interest_ok)
  have "runs E T (\<lambda>_. True) (if dm_link_bp d \<and> used (io_txq ?io) \<le> LINK_LOW_WATER
      then daemon_all (vt_resume_source_reads dyn_vtable) (d\<lparr>dm_link_bp := False\<rparr>) ?io else Some (d, ?io))"
  proof (cases "dm_link_bp d \<and> used (io_txq ?io) \<le> LINK_LOW_WATER")
    case True
    then have "chans_ok T (dm_link_up d) True False (dm_channels d)" using inv c by (simp add: dm_inv_defs)
    then obtain cs io2 where r: "daemon_all (vt_resume_source_reads dyn_vtable) (d\<lparr>dm_link_bp := False\<rparr>) ?io
         = Some (d\<lparr>dm_link_bp := False, dm_channels := cs\<rparr>, io2)"
      "chans_ok T (dm_link_up d) False False cs" "stream_ok (env_crc E) io2"
      using daemon_all_raw [OF E, of Resume "dm_link_up d" True "dm_link_up d" False False ?io T "d\<lparr>dm_link_bp := False\<rparr>"]
        inv1 by (auto simp: dm_core_def)
    then show ?thesis using True inv c by (auto simp: dm_inv_defs link_inv_def)
  next
    case False
    then have "bp_inv d ?io" using used_queued [OF dr(2)] by (auto simp: bp_inv_def)
    with False inv1 show ?thesis by (simp only: if_False if_not_P runs_Some dm_inv_def simp_thms)
  qed
  note resume = runs_bind [OF this fin]
  show ?thesis
  proof (cases r)
    case (Inl e)
    then show ?thesis using Some dr close_link_core [OF E inv1] c runs_mono by (fastforce simp: link_write_def)
  next
    case (Inr b)
    then show ?thesis using Some dr resume by (simp add: link_write_def Let_def)
  qed
qed

lemma tick_keepalive_ok:
  assumes "env_ok E" "dm_inv E T d io"
  shows "runs E T (\<lambda>_. True) (tick_keepalive E tnow d io)"
  using assms(2) runs_mono [OF close_link_ok [OF assms], of "\<lambda>_. True"]
    runs_mono [OF enqueue_frame_ok [OF assms(2) ctl_wf [of "env_crc E" F_PING 0]], of "\<lambda>_. True"]
  unfolding tick_keepalive_def by simp

text \<open>The part of the loop body that may change the state of the link, and the rest of it, which asks
  for write readiness before \<open>poll\<close> when there is something to write.\<close>

definition prepare_link :: "env \<Rightarrow> daemon \<Rightarrow> io \<Rightarrow> (daemon \<times> io) option" where
  "prepare_link E d io = do {
     let tnow = env_now E (io_n io);
     (d, io) \<leftarrow> (if dm_disconnected d \<and> tnow \<ge> dm_reopen_at d then open_link E d (next_call io)
        else Some (d, next_call io));
     tick_keepalive E tnow d io }"

definition armed :: "daemon \<Rightarrow> io \<Rightarrow> bool" where
  "armed d io \<longleftrightarrow> (\<forall>f. dm_link_fd d = Some f \<longrightarrow> \<not> is_empty (io_txq io) \<longrightarrow>
     (\<exists>cs. io_log io = cs @ [Reregister f TOKEN_LINK READABLE_WRITABLE]))"

lemma prepare_link_ok:
  assumes "env_ok E" "dm_inv E T d io"
  shows "runs E T (\<lambda>_. True) (prepare_link E d io)"
proof -
  have "runs E T (\<lambda>_. True) (if dm_disconnected d \<and> env_now E (io_n io) \<ge> dm_reopen_at d
      then open_link E d (next_call io) else Some (d, next_call io))"
    using open_link_ok [OF assms(1), of T d "next_call io"] assms(2) by (auto simp: dm_inv_defs)
  then show ?thesis unfolding prepare_link_def Let_def
    by (rule runs_bind) (rule tick_keepalive_ok [OF assms(1)])
qed

lemma daemon_prepare_tail:
  assumes E: "env_ok E" and link: "runs E T (\<lambda>d'. dm_disconnected d' = b) (prepare_link E d io)"
  shows "\<exists>d' io'. daemon_prepare E d io = Some (next_timeout d' (env_now E (io_n io')), d', next_call io')
    \<and> dm_inv E T d' (next_call io') \<and> dm_disconnected d' = b \<and> armed d' io'"
proof -
  let ?t = "env_now E (io_n io)"
  define arm where "arm = (\<lambda>(d, io). if \<not> is_empty (io_txq io)
     then let (t, io) = now E io; d = d\<lparr>dm_last_tx := Some t\<rparr> in (d, set_link_write_interest True d io)
     else (d, io))"
  have arm: "dm_inv E T (fst (arm (d', io'))) (snd (arm (d', io')))
      \<and> dm_disconnected (fst (arm (d', io'))) = dm_disconnected d' \<and> armed (fst (arm (d', io'))) (snd (arm (d', io')))"
    if "dm_inv E T d' io'" for d' io'
    using that
    by (auto simp: arm_def dm_inv_defs link_inv_def now_def Let_def armed_def set_link_write_interest_def
        neutral_def intro!: stream_call split: option.splits)
  have "runs E T (\<lambda>d'. dm_disconnected d' = b) (prepare_link E d io \<bind> (\<lambda>(d, io). daemon_all (vt_tick dyn_vtable E ?t) d io))"
  proof (rule runs_bind [OF link])
    fix d' io' assume a: "dm_inv E T d' io'" "dm_disconnected d' = b"
    then show "runs E T (\<lambda>d'. dm_disconnected d' = b) (daemon_all (vt_tick dyn_vtable E ?t) d' io')"
      by (intro runs_mono [OF daemon_tick_ok [OF E]]) (auto simp: dm_inv_defs)
  qed
  then obtain d1 io1 where r: "prepare_link E d io \<bind> (\<lambda>(d, io). daemon_all (vt_tick dyn_vtable E ?t) d io)
      = Some (d1, io1)" "dm_inv E T d1 io1" "dm_disconnected d1 = b"
    unfolding runs_def by blast
  obtain d2 io2 where a: "arm (d1, io1) = (d2, io2)" by fastforce
  have "daemon_prepare E d io = Some (next_timeout d2 (env_now E (io_n io2)), d2, next_call io2)"
    using r(1) a
    by (auto simp: prepare_link_def daemon_prepare_def now_def arm_def Let_def split: bind_splits if_splits prod.splits)
  moreover have "dm_inv E T d2 (next_call io2)" "dm_disconnected d2 = b" "armed d2 io2"
    using arm [OF r(2)] a r(3) by (auto simp: dm_inv_defs)
  ultimately show ?thesis by blast
qed

lemma daemon_prepare_ok:
  assumes E: "env_ok E" and inv: "dm_inv E T d io"
  shows "\<exists>timeout d' io'. daemon_prepare E d io = Some (timeout, d', io') \<and> dm_inv E T d' io'"
proof -
  obtain b where "runs E T (\<lambda>d'. dm_disconnected d' = b) (prepare_link E d io)"
    using prepare_link_ok [OF assms] unfolding runs_def by blast
  from daemon_prepare_tail [OF E this] show ?thesis by blast
qed

text \<open>\<open>poll\<close> returns only tokens that were registered; for a token that routes to a channel this is one
  of the channel's own.\<close>

definition event_ok :: "(u8 \<Rightarrow> token set) \<Rightarrow> event \<Rightarrow> bool" where
  "event_ok T ev \<longleftrightarrow> (\<forall>k. channel_id_for_token (fst ev) = Some k \<longrightarrow> fst ev \<in> T k)"

lemma daemon_event_ok:
  assumes E: "env_ok E" and inv: "dm_inv E T d io" and ev: "event_ok T ev"
  shows "runs E T (\<lambda>_. True) (daemon_event E ev d io)"
proof -
  obtain tk r w where e: "ev = (tk, r, w)" by (cases ev)
  have link: "runs E T (\<lambda>_. True) ((if r then link_read E d io else Some (d, io)) \<bind>
      (\<lambda>(d, io). if w \<and> dm_link_fd d \<noteq> None then link_write E d io else Some (d, io)))"
    by (rule runs_bind [where Q = "\<lambda>_. True"])
       (use link_read_ok [OF E inv] link_write_ok [OF E] inv in \<open>auto\<close>)
  have chan: "runs E T (\<lambda>_. True) (do {
      (d, io) \<leftarrow> daemon_one k (vt_handle_event dyn_vtable E tk r w) d io;
      (d, io) \<leftarrow> check_bp_high d io;
      Some (touch_tx E d io) })" if "channel_id_for_token tk = Some k" for k
  proof (rule runs_bind)
    show "runs E T (\<lambda>x. dm_disconnected x = dm_disconnected d) (daemon_one k (vt_handle_event dyn_vtable E tk r w) d io)"
      using daemon_one_ok [OF E inv, of "Event tk r w" k] ev that e by (auto simp: event_ok_def)
    fix d' io' assume a: "dm_inv E T d' io'"
    show "runs E T (\<lambda>_. True) (check_bp_high d' io' \<bind> (\<lambda>(d, io). Some (touch_tx E d io)))"
      by (rule runs_bind [OF check_bp_high_ok [OF E a]]) (use touch_tx_ok runs_mono in fastforce)
  qed
  show ?thesis
    using link chan inv by (auto simp: daemon_event_def e split: option.splits)
qed

lemma daemon_events_ok:
  assumes "env_ok E" "dm_inv E T d io" "list_all (event_ok T) es"
  shows "runs E T (\<lambda>_. True) (daemon_events E es d io)"
  using assms(2,3)
proof (induction es arbitrary: d io)
  case (Cons e es)
  have "runs E T (\<lambda>_. True) (daemon_event E e d io)" using daemon_event_ok [OF assms(1)] Cons.prems by simp
  then show ?case unfolding daemon_events.simps by (rule runs_bind) (use Cons in auto)
qed simp

lemma daemon_iter_ok:
  assumes "env_ok E" "dm_inv E T d io" "list_all (event_ok T) es"
  shows "runs E T (\<lambda>_. True) (daemon_iter E es d io)"
  using daemon_prepare_ok [OF assms(1,2)] daemon_events_ok [OF assms(1) _ assms(3)]
  by (auto simp: daemon_iter_def)

lemma daemon_run_ok:
  assumes "env_ok E" "dm_inv E T d io" "list_all (list_all (event_ok T)) ess"
  shows "runs E T (\<lambda>_. True) (daemon_run E ess d io)"
  using assms(2,3)
proof (induction ess arbitrary: d io)
  case (Cons es ess)
  have "runs E T (\<lambda>_. True) (daemon_iter E es d io)" using daemon_iter_ok [OF assms(1)] Cons.prems by simp
  then show ?case unfolding daemon_run.simps by (rule runs_bind) (use Cons in auto)
qed simp

lemma daemon_start_ok:
  assumes "env_ok E" "dm_inv E T d io"
  shows "runs E T (\<lambda>_. True) (daemon_start E d io)"
  using open_link_ok [OF assms] assms(2) by (simp add: daemon_start_def)


section \<open>Initial states\<close>

definition tokens_of :: "(u8 \<times> chan) list \<Rightarrow> u8 \<Rightarrow> token set" where
  "tokens_of cs k = (case map_of cs k of Some c \<Rightarrow> cv_tokens (dyn_view c) | None \<Rightarrow> UNIV)"

lemma collect_channels_ok:
  "distinct (map fst (collect_channels cs))"
  "(k, c) \<in> set (collect_channels cs) \<Longrightarrow> c \<in> set cs \<and> dyn_channel_id c = k"
proof -
  have "distinct (map fst m) \<Longrightarrow> distinct (map fst (fold (\<lambda>c m. AList.update (dyn_channel_id c) c m) cs m))" for m
    by (induction cs arbitrary: m) (auto intro: AList.distinct_update)
  then show "distinct (map fst (collect_channels cs))" by (simp add: collect_channels_def)
  have upd: "(k, c) \<in> set (AList.update j v m) \<Longrightarrow> (k, c) = (j, v) \<or> (k, c) \<in> set m" for k c j v and m :: "(u8 \<times> chan) list"
    by (induction m) (auto split: if_splits)
  have "(k, c) \<in> set (fold (\<lambda>c m. AList.update (dyn_channel_id c) c m) cs m) \<Longrightarrow>
      (c \<in> set cs \<and> dyn_channel_id c = k) \<or> (k, c) \<in> set m" for m
    by (induction cs arbitrary: m) (use upd in fastforce)+
  from this [of "[]"] show "(k, c) \<in> set (collect_channels cs) \<Longrightarrow> c \<in> set cs \<and> dyn_channel_id c = k"
    by (simp add: collect_channels_def)
qed

text \<open>Before the daemon exists nothing has been queued or written to the link.\<close>

fun offline_call :: "call \<Rightarrow> bool" where
  "offline_call (Enqueue f) = False"
| "offline_call (LinkWrote f bs) = False"
| "offline_call _ = True"

lemma offline_calls:
  assumes "list_all offline_call cs"
  shows "enqueued cs = []" "link_out cs = []" "list_all offline_call (session cs)"
proof -
  show "enqueued cs = []" "link_out cs = []"
    using assms by (induction cs) (auto elim: offline_call.elims)
  show "list_all offline_call (session cs)"
    using assms by (auto simp: session_def list_all_iff dest: set_takeWhileD)
qed

lemma offline_taken: "list_all offline_call cs \<Longrightarrow> link_taken n cs = [] \<and> link_level n cs = n"
proof (induction cs)
  case (Cons c cs)
  then show ?case by (cases c) auto
qed simp

lemma daemon_new_ok:
  assumes "list_all fresh cs" "list_all offline_call (io_log io)"
    "daemon_new E mode dev usb cs io = (d, io')"
  shows "dm_inv E (tokens_of (dm_channels d)) d io'"
proof -
  let ?m = "collect_channels cs"
  have d: "dm_channels d = ?m" "\<not> dm_link_up d" "\<not> dm_link_bp d" "dm_disconnected d" "link_inv (env_crc E) d"
    "io' = (next_call io)\<lparr>io_txq := txq_new\<rparr>"
    using assms(3) by (auto simp: daemon_new_def now_def link_inv_def from_millis_def from_secs_def)
  have "stream_ok (env_crc E) io'"
    using offline_calls(1,2) [OF assms(2)] offline_calls(1,2) [OF offline_calls(3) [OF assms(2)]]
      offline_taken [OF offline_calls(3) [OF assms(2)]]
    by (auto simp: d stream_ok_def)
  moreover have "chan_agrees (tokens_of ?m) False False True (k, c)" if "(k, c) \<in> set ?m" for k c
  proof -
    have "map_of ?m k = Some c" using that collect_channels_ok(1) by (rule map_of_is_SomeI [rotated])
    moreover have "fresh c" "dyn_channel_id c = k"
      using collect_channels_ok(2) [OF that] assms(1) by (auto simp: list_all_iff)
    moreover have "cv_id (dyn_view c) = dyn_channel_id c"
      using dyn.id_view [of c] by (simp add: dyn_vtable_def)
    ultimately show ?thesis by (auto simp: chan_agrees_def fresh_def tokens_of_def)
  qed
  ultimately show ?thesis
    using d collect_channels_ok(1) [of cs] by (auto simp: dm_inv_defs chans_ok_def list_all_iff)
qed

lemma dm_inv_tokens: "dm_inv E T d io \<Longrightarrow> dm_inv E (tokens_of (dm_channels d)) d io"
proof -
  assume inv: "dm_inv E T d io"
  have "chan_agrees (tokens_of (dm_channels d)) up bp dn (k, c)"
    if "chan_agrees T up bp dn (k, c)" "(k, c) \<in> set (dm_channels d)" for up bp dn k c
  proof -
    have "map_of (dm_channels d) k = Some c"
      using that(2) inv by (intro map_of_is_SomeI) (auto simp: dm_inv_defs chans_ok_def)
    then show ?thesis using that(1) by (auto simp: chan_agrees_def tokens_of_def)
  qed
  then show ?thesis using inv unfolding dm_inv_defs chans_ok_def list_all_iff by fastforce
qed


section \<open>Reachable states\<close>

text \<open>A run of the program: the daemon is built from fresh channels, \<open>run\<close> is entered, and any number
  of iterations follow, each with events of registered tokens.\<close>

inductive reachable :: "env \<Rightarrow> daemon \<Rightarrow> io \<Rightarrow> bool" for E :: env where
  start: "list_all fresh cs \<Longrightarrow> list_all offline_call (io_log io) \<Longrightarrow>
     daemon_new E mode dev usb cs io = (d0, io0) \<Longrightarrow> daemon_start E d0 io0 = Some (d, io1) \<Longrightarrow>
     reachable E d io1"
| iter: "reachable E d io \<Longrightarrow> list_all (event_ok (tokens_of (dm_channels d))) es \<Longrightarrow>
     daemon_iter E es d io = Some (d', io') \<Longrightarrow> reachable E d' io'"

inductive_cases reachableE: "reachable E d io"

lemma reachable_inv:
  assumes E: "env_ok E" and r: "reachable E d io"
  shows "dm_inv E (tokens_of (dm_channels d)) d io"
  using r
proof (induction rule: reachable.induct)
  case (start cs io mode dev usb d0 io0 d io1)
  have "dm_inv E (tokens_of (dm_channels d0)) d0 io0" by (rule daemon_new_ok [OF start(1-3)])
  from daemon_start_ok [OF E this] start(4) show ?case by (auto intro: dm_inv_tokens)
next
  case (iter d io es d' io')
  from daemon_iter_ok [OF E iter.IH iter.hyps(2)] iter.hyps(3) show ?case by (auto intro: dm_inv_tokens)
qed

text \<open>A run from the daemon as it was built.\<close>

inductive started :: "env \<Rightarrow> daemon \<Rightarrow> io \<Rightarrow> daemon \<Rightarrow> io \<Rightarrow> bool" for E :: env and d0 :: daemon and io0 :: io where
  start_run: "list_all fresh cs \<Longrightarrow> list_all offline_call (io_log io) \<Longrightarrow> daemon_new E mode dev usb cs io = (d0, io0) \<Longrightarrow>
     daemon_start E d0 io0 = Some (d, io1) \<Longrightarrow> started E d0 io0 d io1"
| run_iter: "started E d0 io0 d io \<Longrightarrow> list_all (event_ok (tokens_of (dm_channels d))) es \<Longrightarrow>
     daemon_iter E es d io = Some (d', io') \<Longrightarrow> started E d0 io0 d' io'"

lemma started_reachable: "started E d0 io0 d io \<Longrightarrow> reachable E d io"
  by (induction rule: started.induct) (auto intro: reachable.intros)

end
