(* ===== verification/Daemon_Props.thy ===== *)
theory Daemon_Props
  imports Daemon_Inv Link
begin

text \<open>
  What the invariant of the daemon gives for every run of the event loop, and the behaviour of
  its single operations: opening and closing the link, the timers, keepalive and
  backpressure.
\<close>


section \<open>An example run\<close>

definition example_channels :: "chan list" where
  "example_channels = [DPty (fst (pty_new 2 ''/tmp/k1'' 115200 io_new)), DDst (dst_new 3 ''127.0.0.1'' 80)]"

lemma example_fresh: "list_all fresh example_channels"
proof -
  have "id_ok 2" "id_ok 3" by code_simp+
  moreover obtain ch io where "pty_new 2 ''/tmp/k1'' 115200 io_new = (ch, io)" by fastforce
  ultimately show ?thesis
    using pty_new_fresh [of 2 "''/tmp/k1''" 115200 io_new ch io] dst_new_fresh
    by (simp add: example_channels_def)
qed

lemma example_collected:
  "collect_channels example_channels = [(2, DPty (fst (pty_new 2 ''/tmp/k1'' 115200 io_new))), (3, DDst (dst_new 3 ''127.0.0.1'' 80))]"
  by (simp add: collect_channels_def example_channels_def pty_vtable_def dst_vtable_def pty_new_def dst_new_def Let_def)

abbreviation example_daemon :: "daemon \<times> io" where
  "example_daemon \<equiv> daemon_new example_env ''k1'' (Some ''/dev/ttyS1'') None example_channels io_new"

lemma example_reachable: "\<exists>d io. reachable example_env d io"
proof -
  obtain d0 io0 where d0: "example_daemon = (d0, io0)" by fastforce
  have o: "list_all offline_call (io_log io_new)" by simp
  have "runs example_env (tokens_of (dm_channels d0)) (\<lambda>_. True) (daemon_start example_env d0 io0)"
    by (rule daemon_start_ok [OF example_env_ok daemon_new_ok [OF example_fresh o d0]])
  then show ?thesis using reachable.start [OF example_fresh o d0] unfolding runs_def by blast
qed


section \<open>Every run\<close>

text \<open>C12: the event loop never panics.  Whatever the channels it is built with, whatever the system
  calls return, whatever bytes arrive on the link, the UARTs, the PTYs and the TCP connections,
  and whatever readiness events of registered tokens \<open>poll\<close> reports, entering \<open>run\<close> and any number
  of iterations succeed: no index or slice out of range, no arithmetic underflow, no failed
  \<open>unwrap\<close> or assertion.\<close>

theorem daemon_never_panics:
  assumes "env_ok E" "list_all fresh cs" "list_all offline_call (io_log io)"
    "daemon_new E mode dev usb cs io = (d0, io0)"
    "list_all (list_all (event_ok (tokens_of (dm_channels d0)))) polls"
  shows "\<exists>d io' d' io''. daemon_start E d0 io0 = Some (d, io') \<and> daemon_run E polls d io' = Some (d', io'')"
proof -
  have "dm_inv E (tokens_of (dm_channels d0)) d0 io0" by (rule daemon_new_ok [OF assms(2-4)])
  from daemon_start_ok [OF assms(1) this] daemon_run_ok [OF assms(1) _ assms(5)]
  show ?thesis unfolding runs_def by blast
qed

theorem daemon_never_panics_witness:
  "\<exists>d io' d' io''. daemon_start example_env (fst example_daemon) (snd example_daemon) = Some (d, io')
     \<and> daemon_run example_env [[(TOKEN_LINK, True, True)], [], [(TOKEN_LINK, False, True)]] d io' = Some (d', io'')"
proof -
  have link: "channel_id_for_token TOKEN_LINK = None" by code_simp
  show ?thesis
    by (rule daemon_never_panics [OF example_env_ok example_fresh _ prod.collapse [symmetric]])
       (simp_all add: event_ok_def link)
qed

fun channel_in_step :: "daemon \<Rightarrow> chan \<Rightarrow> bool" where
  "channel_in_step d (DMcu ch) \<longleftrightarrow> mcu_bp_paused ch = dm_link_bp d \<and> mcu_link_up ch = dm_link_up d"
| "channel_in_step d (DPty ch) \<longleftrightarrow> pty_bp_paused ch = dm_link_bp d
     \<and> (dm_disconnected d \<longrightarrow> pty_master_fd ch = None \<and> pty_slave_fd ch = None \<and> pty_txbuf ch = [])"
| "channel_in_step d (DSrc ch) \<longleftrightarrow> src_bp_paused ch = dm_link_bp d \<and> src_link_up ch = dm_link_up d
     \<and> (dm_disconnected d \<longrightarrow> src_conns ch = no_conns)"
| "channel_in_step d (DDst ch) \<longleftrightarrow> dst_bp_paused ch = dm_link_bp d
     \<and> (dm_disconnected d \<longrightarrow> dst_conns ch = no_conns)"

lemma view_flags:
  "cv_paused (mcu_view m) = mcu_bp_paused m" "cv_linked (mcu_view m) = Some (mcu_link_up m)"
  "cv_paused (pty_view p) = pty_bp_paused p"
  "cv_paused (src_view s) = src_bp_paused s" "cv_linked (src_view s) = Some (src_link_up s)"
  "cv_paused (dst_view t) = dst_bp_paused t"
  by (simp_all add: mcu_view_def pty_view_def src_view_def dst_view_def)

lemma agrees_in_step:
  assumes "chan_agrees T (dm_link_up d) (dm_link_bp d) (dm_disconnected d) (k, c)"
  shows "channel_in_step d c \<and> dyn_channel_id c = k"
proof -
  have a: "dyn_ok c" "cv_id (dyn_view c) = k" "cv_paused (dyn_view c) = dm_link_bp d"
    "cv_linked (dyn_view c) \<in> {None, Some (dm_link_up d)}" "dm_disconnected d \<longrightarrow> dyn_idle c"
    using assms by (auto simp: chan_agrees_def)
  have "dyn_channel_id c = k" using dyn.id_view [of c] a(2) by (simp add: dyn_vtable_def)
  moreover have "channel_in_step d c"
    using a(1,3,4,5)
    by (cases c) (auto simp: view_flags pty_ok_def pty_base_def pty_idle_def src_idle_def dst_idle_def)
  ultimately show ?thesis by simp
qed

text \<open>C13: in every reachable state the daemon and its channels agree.  The daemon is disconnected
  exactly when it holds no descriptor of the link, and then the link is not up, nothing is
  queued and no source is paused.  Every channel is paused exactly when the daemon has
  asserted backpressure, knows whether the link is up, and holds no PTY and no TCP connection
  while the daemon is disconnected.  Sources are paused only while more than the low-water
  mark is queued, and the reconnect delay is between 500 ms and 8 s.\<close>

theorem daemon_agrees_with_channels:
  assumes "env_ok E" "reachable E d io"
  shows "(dm_disconnected d \<longleftrightarrow> dm_link_fd d = None)
    \<and> (dm_disconnected d \<longrightarrow> \<not> dm_link_up d \<and> \<not> dm_link_bp d \<and> is_empty (io_txq io))
    \<and> (\<forall>(k, c) \<in> set (dm_channels d). channel_in_step d c \<and> dyn_channel_id c = k)
    \<and> (dm_link_bp d \<longrightarrow> LINK_LOW_WATER < used (io_txq io))
    \<and> from_millis 500 \<le> dm_reopen_delay d \<and> dm_reopen_delay d \<le> from_secs 8"
proof -
  have inv: "dm_inv E (tokens_of (dm_channels d)) d io" by (rule reachable_inv [OF assms])
  then have q: "txq_inv (io_txq io)" by (auto simp: dm_inv_defs stream_ok_def)
  have "\<forall>(k, c) \<in> set (dm_channels d). channel_in_step d c \<and> dyn_channel_id c = k"
    using inv agrees_in_step by (fastforce simp: dm_inv_defs chans_ok_def list_all_iff)
  then show ?thesis using inv
    by (auto simp: dm_inv_defs link_inv_def is_empty_queued [OF q] used_queued [OF q])
qed

theorem daemon_agrees_with_channels_witness:
  "\<exists>d io. reachable example_env d io \<and> (dm_disconnected d \<longleftrightarrow> dm_link_fd d = None)"
  using example_reachable daemon_agrees_with_channels [OF example_env_ok] by blast

lemma session_suffix: "\<exists>ys. cs = ys @ session cs"
  unfolding session_def by (metis rev_append rev_rev_ident takeWhile_dropWhile_id)

lemma enqueued_session: "f \<in> set (enqueued (session cs)) \<Longrightarrow> f \<in> set (enqueued cs)"
proof -
  obtain ys where "cs = ys @ session cs" using session_suffix by blast
  then have "enqueued cs = enqueued ys @ enqueued (session cs)" by (metis enqueued_append)
  then show "f \<in> set (enqueued (session cs)) \<Longrightarrow> ?thesis" by simp
qed

text \<open>What has been written to the link in this session, followed by what is queued, is a sequence of whole frames:
  in order all that the queue had room for of the frames that the daemon and its channels enqueued.\<close>

lemma stream_frames:
  assumes "dm_inv E T d io"
  obtains frames where "stream io = concat (map (enc (env_crc E)) frames)" "\<forall>(t, c, p) \<in> set frames. length p \<le> MAX_PAYLOAD"
    "map (enc (env_crc E)) frames = link_taken 0 (session (io_log io))"
proof -
  let ?taken = "link_taken 0 (session (io_log io))"
  have inv: "stream_ok (env_crc E) io" using assms by (simp add: dm_inv_defs)
  have "\<forall>f \<in> set ?taken. \<exists>t c p. f = build_frame (env_crc E) t c p \<and> length p \<le> MAX_PAYLOAD"
    using inv mem_subseq [OF link_taken_subseq] enqueued_session by (fastforce simp: stream_ok_def wf_frame_def)
  then obtain frames where "?taken = map (enc (env_crc E)) frames" "\<forall>(t, c, p) \<in> set frames. length p \<le> MAX_PAYLOAD"
    by (rule frames_of_blocks)
  moreover have "stream io = concat ?taken" using inv by (simp add: stream_ok_def)
  ultimately show thesis using that by simp
qed

text \<open>A parser that has read the bytes written in this session, cut into pieces in any way, has delivered a prefix of
  these frames, and all of them when the transmit queue is empty.\<close>

lemma daemon_link_stream:
  assumes "env_ok E" "reachable E d io" "concat pieces = link_out (session (io_log io))"
  shows "\<exists>fp got frames. feed_chunks (env_crc E) pieces = Some (fp, got)
    \<and> prefix got frames \<and> (is_empty (io_txq io) \<longrightarrow> got = frames)
    \<and> map (enc (env_crc E)) frames = link_taken 0 (session (io_log io))"
proof -
  have inv: "dm_inv E (tokens_of (dm_channels d)) d io" by (rule reachable_inv [OF assms(1,2)])
  then have "txq_inv (io_txq io)" by (auto simp: dm_inv_defs stream_ok_def)
  then show ?thesis
    using stream_frames [OF inv] sent_parses [OF _ _ assms(3)] is_empty_queued [of "io_txq io"] by metis
qed


section \<open>Opening and closing the link\<close>

text \<open>C16: opening the link on every branch.  Either it fails (no device found, device not
  openable or not configurable, registration refused): then no descriptor stays open, the
  queue is untouched, and the only change is that the next attempt is scheduled after the
  current delay, which doubles up to 8 s.  Or it succeeds: then exactly the returned
  descriptor is open, registered, and waits for write readiness, the parser and the queue are
  fresh, the queue holds exactly an \<open>F_HELLO\<close>, and the delay is back at 500 ms.\<close>

theorem open_link_spec:
  assumes "txq_inv (io_txq io)"
  shows "\<exists>d' io' cs. open_link E d io = Some (d', io') \<and> io_log io' = io_log io @ cs
    \<and> ((\<exists>t. d' = d\<lparr>dm_reopen_at := env_now E t + dm_reopen_delay d,
                 dm_reopen_delay := min (dm_reopen_delay d * 2) (from_secs 8)\<rparr>
             \<and> leaked cs = [] \<and> io_txq io' = io_txq io)
      \<or> (\<exists>f. dm_link_fd d' = Some f \<and> \<not> dm_disconnected d' \<and> \<not> dm_link_bp d'
            \<and> dm_reopen_delay d' = from_millis 500 \<and> fp_view (dm_parser d') = []
            \<and> queued (io_txq io') = build_frame (env_crc E) F_HELLO 0 []
            \<and> leaked cs = [f] \<and> Register f TOKEN_LINK READABLE \<in> set cs
            \<and> last cs = Reregister f TOKEN_LINK READABLE_WRITABLE))"
proof -
  obtain dev io1 where r: "resolve_dev E d io = (dev, io1)" "io_txq io1 = io_txq io" "io_log io1 = io_log io"
    by (cases "dm_usb_id d") (auto simp: resolve_dev_def split: prod.splits)
  show ?thesis
  proof (cases dev)
    case None
    then show ?thesis using r by (auto simp: open_link_def schedule_reopen_def now_def leaked_def)
  next
    case (Some dv)
    obtain x io2 where o: "open_serial_fd E dv 115200 io1 = (x, io2)" by fastforce
    obtain cs where cs: "io_log io2 = io_log io @ cs" "io_txq io2 = io_txq io"
      "case x of Inl e \<Rightarrow> leaked cs = [] | Inr f \<Rightarrow> leaked cs = [f]"
      using open_serial_fd_trace [OF o] r by (cases x) auto
    show ?thesis
    proof (cases x)
      case (Inl e)
      then show ?thesis using r Some o cs by (auto simp: open_link_def schedule_reopen_def now_def)
    next
      case (Inr f)
      show ?thesis
      proof (cases "env_register E (io_n io2) f TOKEN_LINK")
        case (Some e)
        then show ?thesis using r \<open>dev = Some dv\<close> o cs Inr
          by (auto simp: open_link_def schedule_reopen_def now_def close_raw_def leaked_def open_fds_append)
      next
        case None
        have fit: "fits (build_frame (env_crc E) F_HELLO 0 []) (txq_reset (io_txq io))"
          by (simp add: fits_def build_frame_def mux_consts to_le_bytes16_def to_le_bytes32_def)
        show ?thesis using r \<open>dev = Some dv\<close> o cs Inr None assms fit
          by (auto simp: open_link_def now_def txq_reset_io_def Let_def leaked_def queued_enq
              set_link_write_interest_def)
      qed
    qed
  qed
qed

theorem open_link_spec_witness:
  "\<exists>d' io' cs. open_link example_env (fst example_daemon) io_new = Some (d', io') \<and> io_log io' = cs"
  using open_link_spec [of io_new example_env "fst example_daemon"] by auto


section \<open>Timers\<close>

text \<open>The instants that \<open>next_timeout\<close> takes the minimum of.\<close>

definition deadlines :: "daemon \<Rightarrow> instant set" where
  "deadlines d =
     (if dm_disconnected d then {dm_reopen_at d}
      else if dm_link_up d
      then (\<lambda>t. t + KA_INTERVAL) ` set_option (dm_last_tx d) \<union> (\<lambda>t. t + KA_TIMEOUT) ` set_option (dm_last_rx d)
      else {}) \<union> (\<Union>(k, c) \<in> set (dm_channels d). set_option (dyn_next_deadline c))"

lemma min_opt_Min: "finite A \<Longrightarrow> min_opt (Min (insert a A)) b = Min (insert a (A \<union> set_option b))"
proof (cases b)
  case (Some x)
  assume "finite A"
  then have "Min (insert x (insert a A)) = min x (Min (insert a A))" by (intro Min_insert) auto
  then show ?thesis using Some by (simp add: min_opt_def min.commute insert_commute)
qed (simp add: min_opt_def)

lemma fold_min_opt:
  "finite A \<Longrightarrow> fold (\<lambda>(k, c) dl. min_opt dl (f c)) cs (Min (insert a A))
     = Min (insert a (A \<union> (\<Union>(k, c) \<in> set cs. set_option (f c))))"
proof (induction cs arbitrary: A)
  case (Cons kc cs)
  obtain k c where kc: "kc = (k, c)" by fastforce
  have "finite (A \<union> set_option (f c))" using Cons.prems by (cases "f c") auto
  from Cons.IH [OF this] Cons.prems show ?case by (simp add: kc min_opt_Min Un_assoc)
qed simp

lemma finite_deadlines: "finite (deadlines d)"
  by (auto simp: deadlines_def)

lemma next_timeout_Min: "next_timeout d tnow = Min (insert (tnow + MAX_TICK) (deadlines d)) - tnow"
proof -
  let ?own = "if dm_disconnected d then {dm_reopen_at d}
      else if dm_link_up d
      then (\<lambda>t. t + KA_INTERVAL) ` set_option (dm_last_tx d) \<union> (\<lambda>t. t + KA_TIMEOUT) ` set_option (dm_last_rx d)
      else {}"
  let ?dl = "if dm_disconnected d then min (tnow + MAX_TICK) (dm_reopen_at d)
      else if dm_link_up d
      then min_opt (min_opt (tnow + MAX_TICK) (map_option (\<lambda>t. t + KA_INTERVAL) (dm_last_tx d)))
             (map_option (\<lambda>t. t + KA_TIMEOUT) (dm_last_rx d))
      else tnow + MAX_TICK"
  have own: "?dl = Min (insert (tnow + MAX_TICK) ?own)"
    using min_opt_Min [of "{}" "tnow + MAX_TICK"] by (simp add: min_opt_Min option.set_map)
  have fin: "finite ?own" by auto
  have vt: "vt_next_deadline dyn_vtable = dyn_next_deadline" by (simp add: dyn_vtable_def)
  show ?thesis
    unfolding next_timeout_def Let_def own vt fold_min_opt [OF fin] deadlines_def by simp
qed

lemma next_timeout_bound: "next_timeout d tnow \<le> MAX_TICK"
proof -
  have "Min (insert (tnow + MAX_TICK) (deadlines d)) \<le> tnow + MAX_TICK"
    by (rule Min_le) (simp_all add: finite_deadlines)
  then show ?thesis by (simp add: next_timeout_Min)
qed

text \<open>Whether a timer is to be served at the time \<open>t\<close>: the link is to be reopened, or the keepalive or the \<open>tick\<close> of a
  channel does something.\<close>

definition timer_due :: "env \<Rightarrow> instant \<Rightarrow> daemon \<Rightarrow> io \<Rightarrow> bool" where
  "timer_due E t d io \<longleftrightarrow> dm_disconnected d \<and> dm_reopen_at d \<le> t \<or> tick_keepalive E t d io \<noteq> Some (d, io)
     \<or> (\<exists>(k, c) \<in> set (dm_channels d). vt_tick dyn_vtable E t c io \<noteq> Some (c, io))"

text \<open>A link that is open, on which the other side has never answered.\<close>

definition unanswered :: "daemon \<Rightarrow> instant \<Rightarrow> bool" where
  "unanswered d t \<longleftrightarrow> \<not> dm_disconnected d \<and> \<not> dm_link_up d \<and> (\<exists>lr. dm_last_rx d = Some lr \<and> KA_TIMEOUT < t - lr)"

text \<open>A channel has nothing to do before its deadline, and something right after it.\<close>

lemma dyn_tick_early:
  assumes "\<And>dl. dyn_next_deadline c = Some dl \<Longrightarrow> t < dl"
  shows "vt_tick dyn_vtable E t c io = Some (c, io)"
proof (cases c)
  case (DMcu m)
  have "mcu_tick E t m io = Some (m, io)"
    using assms by (auto simp: DMcu mcu_vtable_def mcu_tick_def mcu_next_deadline_def split: option.splits)
  then show ?thesis by (simp add: DMcu dyn_vtable_def mcu_vtable_def lift_def)
qed (simp_all add: dyn_vtable_def lift_def pty_vtable_def src_vtable_def dst_vtable_def pty_tick_def src_tick_def dst_tick_def)

lemma mcu_open_uart_acts:
  assumes "mcu_fd ch = None"
  shows "mcu_open_uart E (ch\<lparr>mcu_reopen_at := None\<rparr>) io \<noteq> Some (ch, io)"
proof -
  obtain r io1 where r: "open_serial_fd E (mcu_device ch) (mcu_baud ch) io = (r, io1)" by fastforce
  show ?thesis
  proof (cases r)
    case (Inl e)
    have "io_n io \<le> io_n io1" using r apply_termios_trace
      by (fastforce simp: open_serial_fd_def close_raw_def split: if_splits sum.splits prod.splits)
    then have "next_call io1 \<noteq> io" by (auto dest!: arg_cong [of _ _ io_n])
    then show ?thesis using r Inl by (simp add: mcu_open_uart_def now_def)
  next
    case (Inr f)
    then show ?thesis using r assms
      by (auto simp: mcu_open_uart_def mcu_update_interest_def split: bind_splits dest!: arg_cong [of _ _ mcu_fd])
  qed
qed

lemma dyn_tick_late:
  assumes "dyn_next_deadline c = Some dl" "dl < t"
  shows "vt_tick dyn_vtable E t c io \<noteq> Some (c, io)"
proof (cases c)
  case (DMcu m)
  have d: "mcu_next_deadline m = Some dl" using assms(1) by (simp add: DMcu mcu_vtable_def)
  have "mcu_tick E t m io \<noteq> Some (m, io)"
  proof (cases "mcu_fd m")
    case None
    then show ?thesis using d assms(2) mcu_open_uart_acts [OF None] by (simp add: mcu_tick_def mcu_next_deadline_def)
  next
    case (Some f)
    then obtain lr where lr: "mcu_state m = Active" "mcu_last_rx m = Some lr" "dl = lr + RESET_SILENCE"
      using d by (auto simp: mcu_next_deadline_def split: if_splits)
    then have "mcu_tick E t m io = mcu_transition E Resetting m io" using Some assms(2) by (auto simp: mcu_tick_def)
    moreover have "mcu_transition E Resetting m io \<noteq> Some (m, io)"
      using lr(1) by (auto simp: mcu_transition_def Let_def split: bind_splits if_splits dest!: arg_cong [of _ _ mcu_state])
    ultimately show ?thesis by simp
  qed
  then show ?thesis by (auto simp: DMcu dyn_vtable_def mcu_vtable_def lift_def split: option.splits)
qed (use assms in \<open>simp_all add: pty_vtable_def src_vtable_def dst_vtable_def pty_next_deadline_def src_next_deadline_def dst_next_deadline_def\<close>)

lemma timer_early:
  assumes "\<And>dl. dl \<in> deadlines d \<Longrightarrow> t < dl" "timer_due E t d io"
  shows "unanswered d t"
proof -
  have ticks: "vt_tick dyn_vtable E t c io = Some (c, io)" if "(k, c) \<in> set (dm_channels d)" for k c
    by (rule dyn_tick_early) (use assms(1) that in \<open>force simp: deadlines_def\<close>)
  have "dm_disconnected d \<Longrightarrow> t < dm_reopen_at d" using assms(1) by (simp add: deadlines_def)
  then have k: "tick_keepalive E t d io \<noteq> Some (d, io)" using assms(2) ticks by (auto simp: timer_due_def)
  then have c: "\<not> dm_disconnected d" by (auto simp: tick_keepalive_def)
  have up: "(\<forall>lt. dm_last_tx d = Some lt \<longrightarrow> t < lt + KA_INTERVAL) \<and> (\<forall>lr. dm_last_rx d = Some lr \<longrightarrow> t < lr + KA_TIMEOUT)"
    if "dm_link_up d" using assms(1) c that by (simp add: deadlines_def)
  have "0 < KA_INTERVAL" by (simp add: KA_INTERVAL_def from_secs_def)
  then have "\<not> dm_link_up d" using k c up by (fastforce simp: tick_keepalive_def split: option.splits if_splits)
  then show ?thesis using k c by (auto simp: tick_keepalive_def unanswered_def split: option.splits if_splits)
qed

lemma timer_late:
  assumes E: "env_ok E" and inv: "dm_inv E T d io" and e: "is_empty (io_txq io)" and dl: "dl \<in> deadlines d" "dl < t"
  shows "timer_due E t d io"
proof (cases "\<exists>(k, c) \<in> set (dm_channels d). dyn_next_deadline c = Some dl")
  case True
  then show ?thesis using dyn_tick_late dl(2) by (fastforce simp: timer_due_def)
next
  case False
  then consider "dm_disconnected d" "dl = dm_reopen_at d"
    | lt where "connected d" "dm_link_up d" "dm_last_tx d = Some lt" "dl = lt + KA_INTERVAL"
    | lr where "connected d" "dm_last_rx d = Some lr" "dl = lr + KA_TIMEOUT"
    using dl(1) by (auto simp: deadlines_def split: if_splits)
  then show ?thesis
  proof cases
    case 1
    then show ?thesis using dl(2) by (simp add: timer_due_def)
  next
    case (2 lt)
    have "enqueue_frame E f d io \<noteq> Some (d, io)" for f
      using 2 inv by (auto simp: enqueue_frame_def dm_inv_defs link_inv_def now_def Let_def set_link_write_interest_def
          txq_enqueue_def split: bind_splits option.splits dest!: arg_cong [of _ _ io_n])
    moreover have "close_link E d io \<noteq> Some (d, io)" using close_link_ok [OF E inv] 2(1) by (auto simp: runs_def)
    moreover have "t - lt \<ge> KA_INTERVAL" using 2(4) dl(2) by simp
    ultimately show ?thesis using 2(1-3) e by (simp add: timer_due_def tick_keepalive_def)
  next
    case (3 lr)
    have "close_link E d io \<noteq> Some (d, io)" using close_link_ok [OF E inv] 3(1) by (auto simp: runs_def)
    moreover have "t - lr > KA_TIMEOUT" using 3(3) dl(2) by simp
    ultimately show ?thesis using 3(1,2) by (simp add: timer_due_def tick_keepalive_def)
  qed
qed

lemma next_timeout_deadlines:
  "t < tnow + next_timeout d tnow \<Longrightarrow> tnow \<le> t \<Longrightarrow> dl \<in> deadlines d \<Longrightarrow> t < dl"
  "next_timeout d tnow < MAX_TICK \<Longrightarrow> \<exists>dl \<in> deadlines d. dl \<le> tnow + next_timeout d tnow"
proof -
  let ?M = "Min (insert (tnow + MAX_TICK) (deadlines d))"
  show "t < tnow + next_timeout d tnow \<Longrightarrow> tnow \<le> t \<Longrightarrow> dl \<in> deadlines d \<Longrightarrow> t < dl"
  proof -
    assume a: "t < tnow + next_timeout d tnow" "tnow \<le> t" "dl \<in> deadlines d"
    have "?M \<le> dl" using a(3) finite_deadlines [of d] by (intro Min_le) auto
    then show "t < dl" using a(1,2) unfolding next_timeout_Min by linarith
  qed
  show "next_timeout d tnow < MAX_TICK \<Longrightarrow> \<exists>dl \<in> deadlines d. dl \<le> tnow + next_timeout d tnow"
  proof (rule bexI)
    assume "next_timeout d tnow < MAX_TICK"
    then have "?M \<noteq> tnow + MAX_TICK" by (auto simp: next_timeout_Min)
    then show "?M \<in> deadlines d" using Min_in [of "insert (tnow + MAX_TICK) (deadlines d)"] finite_deadlines [of d] by auto
    show "?M \<le> tnow + next_timeout d tnow" by (simp add: next_timeout_Min)
  qed
qed

lemma for_channels_idle:
  "(\<And>k c. (k, c) \<in> set cs \<Longrightarrow> f c io = Some (c, io)) \<Longrightarrow> for_channels f cs io = Some (cs, io)"
proof (induction cs)
  case (Cons kc cs)
  obtain k c where kc: "kc = (k, c)" by fastforce
  have "f c io = Some (c, io)" by (rule Cons.prems [of k]) (simp add: kc)
  moreover have "for_channels f cs io = Some (cs, io)" using Cons.prems by (intro Cons.IH) (meson list.set_intros(2))
  ultimately show ?case by (simp add: kc)
qed simp

text \<open>Without a timer to serve and with nothing to send, the loop body up to \<open>poll\<close> only reads the clock.\<close>

lemma daemon_prepare_idle:
  assumes "\<not> timer_due E (env_now E (io_n io)) d (next_call io)" "is_empty (io_txq io)"
  shows "daemon_prepare E d io = Some (next_timeout d (env_now E (Suc (io_n io))), d, next_call (next_call io))"
proof -
  let ?t = "env_now E (io_n io)"
  have "for_channels (vt_tick dyn_vtable E ?t) (dm_channels d) (next_call io) = Some (dm_channels d, next_call io)"
    by (rule for_channels_idle) (use assms(1) in \<open>auto simp: timer_due_def\<close>)
  then show ?thesis using assms by (auto simp: daemon_prepare_def timer_due_def now_def daemon_all_def)
qed

text \<open>C17: the timeout given to \<open>poll\<close> is exact.  It is at most \<open>MAX_TICK\<close>.  No timer is missed: at no time before it
  expires is the link to be reopened or does the keepalive or the \<open>tick\<close> of a channel do anything, with one
  exception, the keepalive of a link on which the other side has never answered, which is served with the next
  tick.  The loop does not spin: when the timeout is shorter than \<open>MAX_TICK\<close> and nothing is queued, one instant after it
  expires there is something to do.  And an iteration in which there is nothing to do and nothing queued changes
  nothing before \<open>poll\<close>.\<close>

theorem next_timeout_exact:
  assumes "env_ok E" "reachable E d io"
  shows "next_timeout d tnow \<le> MAX_TICK
    \<and> (\<forall>t. tnow \<le> t \<and> t < tnow + next_timeout d tnow \<and> timer_due E t d io \<longrightarrow> unanswered d t)
    \<and> (next_timeout d tnow < MAX_TICK \<and> is_empty (io_txq io) \<longrightarrow> timer_due E (Suc (tnow + next_timeout d tnow)) d io)
    \<and> (\<not> timer_due E (env_now E (io_n io)) d (next_call io) \<and> is_empty (io_txq io) \<longrightarrow>
         daemon_prepare E d io = Some (next_timeout d (env_now E (Suc (io_n io))), d, next_call (next_call io)))"
proof -
  have inv: "dm_inv E (tokens_of (dm_channels d)) d io" by (rule reachable_inv [OF assms])
  have "timer_due E (Suc (tnow + next_timeout d tnow)) d io" if "next_timeout d tnow < MAX_TICK" "is_empty (io_txq io)"
    using next_timeout_deadlines(2) [OF that(1)] timer_late [OF assms(1) inv that(2)] by (meson le_imp_less_Suc)
  moreover have "unanswered d t" if "tnow \<le> t" "t < tnow + next_timeout d tnow" "timer_due E t d io" for t
    by (rule timer_early [OF next_timeout_deadlines(1) [OF that(2,1)] that(3)])
  ultimately show ?thesis using next_timeout_bound daemon_prepare_idle by blast
qed

text \<open>The device of the link cannot be opened: the timeout is the reconnect delay.\<close>

definition no_link_env :: env where
  "no_link_env = example_env\<lparr>env_open := \<lambda>n dev. Inl EIO\<rparr>"

lemma no_link_env_ok: "env_ok no_link_env"
  using example_env_ok by (auto simp: env_ok_def read_ok_def no_link_env_def)

theorem next_timeout_exact_witness:
  "\<exists>d io. reachable no_link_env d io \<and> next_timeout d (env_now no_link_env 3) = from_millis 499
     \<and> timer_due no_link_env (Suc (env_now no_link_env 3 + from_millis 499)) d io"
proof -
  obtain d0 io0 where d0: "daemon_new no_link_env ''k1'' (Some ''/dev/ttyS1'') None example_channels io_new = (d0, io0)" by fastforce
  have o: "list_all offline_call (io_log io_new)" by simp
  obtain d io where d: "daemon_start no_link_env d0 io0 = Some (d, io)" "next_timeout d (env_now no_link_env 3) = from_millis 499"
    "is_empty (io_txq io)"
    using d0
    by (auto simp: daemon_new_def daemon_start_def open_link_def resolve_dev_def open_serial_fd_def no_link_env_def example_env_def
        now_def schedule_reopen_def next_timeout_def MAX_TICK_def from_millis_def from_secs_def is_empty_def txq_new_def
        example_collected dyn_vtable_def pty_vtable_def dst_vtable_def pty_next_deadline_def dst_next_deadline_def min_opt_def)
  have r: "reachable no_link_env d io" by (rule reachable.start [OF example_fresh o d0 d(1)])
  have "next_timeout d (env_now no_link_env 3) < MAX_TICK" by (simp add: d(2) MAX_TICK_def from_secs_def from_millis_def)
  then show ?thesis using next_timeout_exact [OF no_link_env_ok r, of "env_now no_link_env 3"] r d(2,3) by auto
qed

text \<open>Events cannot bring a link back that has been closed.\<close>

lemma daemon_event_down:
  assumes E: "env_ok E" and inv: "dm_inv E T d io" and ev: "event_ok T ev" and down: "dm_disconnected d"
  shows "runs E T dm_disconnected (daemon_event E ev d io)"
proof -
  obtain tk r w where e: "ev = (tk, r, w)" by (cases ev)
  have chan: "runs E T dm_disconnected (do {
      (d, io) \<leftarrow> daemon_one k (vt_handle_event dyn_vtable E tk r w) d io;
      (d, io) \<leftarrow> check_bp_high d io;
      Some (touch_tx E d io) })" if "channel_id_for_token tk = Some k" for k
  proof (rule runs_bind)
    show "runs E T dm_disconnected (daemon_one k (vt_handle_event dyn_vtable E tk r w) d io)"
      using daemon_one_ok [OF E inv, of "Event tk r w" k] ev that e down by (auto simp: event_ok_def elim: runs_mono)
    fix d' io' assume a: "dm_inv E T d' io'" "dm_disconnected d'"
    show "runs E T dm_disconnected (check_bp_high d' io' \<bind> (\<lambda>(d, io). Some (touch_tx E d io)))"
      by (rule runs_bind [OF check_bp_high_ok [OF E a(1)]]) (use touch_tx_ok a(2) runs_mono in fastforce)
  qed
  have "dm_link_fd d = None" using inv down by (simp add: dm_inv_defs link_inv_def)
  then show ?thesis using chan inv down by (auto simp: daemon_event_def e split: option.splits)
qed

lemma daemon_events_down:
  assumes "env_ok E" "dm_inv E T d io" "list_all (event_ok T) es" "dm_disconnected d"
  shows "runs E T dm_disconnected (daemon_events E es d io)"
  using assms(2-4)
proof (induction es arbitrary: d io)
  case (Cons e es)
  have "runs E T dm_disconnected (daemon_event E e d io)" using daemon_event_down [OF assms(1)] Cons.prems by simp
  then show ?case unfolding daemon_events.simps by (rule runs_bind) (use Cons in auto)
qed simp

text \<open>C18: keepalive.  When an iteration of the loop starts with an open link, the part of it before \<open>poll\<close> closes
  the link exactly when nothing has been received for more than \<open>KA_TIMEOUT\<close>, and then the whole iteration ends with the
  link closed, whatever events \<open>poll\<close> reports (on a link that is not silent, the events may still close it, when a
  read or a write fails).  Before \<open>poll\<close> the loop is consistent, with every channel informed, and, when the link is
  open and there is something to send, the link registered for write readiness as the last call.\<close>

theorem silent_link_dropped:
  assumes "env_ok E" "reachable E d io" "dm_link_fd d = Some f" "dm_last_rx d = Some lr"
  shows "\<exists>timeout d' io'. daemon_prepare E d io = Some (timeout, d', io')
    \<and> (dm_disconnected d' \<longleftrightarrow> env_now E (io_n io) - lr > KA_TIMEOUT)
    \<and> (\<forall>(k, c) \<in> set (dm_channels d'). channel_in_step d' c)
    \<and> timeout \<le> MAX_TICK \<and> armed d' io'
    \<and> (env_now E (io_n io) - lr > KA_TIMEOUT \<longrightarrow>
         (\<forall>events. list_all (event_ok (tokens_of (dm_channels d))) events \<longrightarrow>
            (\<exists>d'' io''. daemon_iter E events d io = Some (d'', io'') \<and> dm_disconnected d'' \<and> dm_link_fd d'' = None)))"
proof -
  let ?T = "tokens_of (dm_channels d)" and ?silent = "env_now E (io_n io) - lr > KA_TIMEOUT"
  have inv: "dm_inv E ?T d io" by (rule reachable_inv [OF assms(1,2)])
  then have c: "\<not> dm_disconnected d" "dm_inv E ?T d (next_call io)" using assms(3) by (auto simp: dm_inv_defs link_inv_def)
  have "runs E ?T (\<lambda>d'. dm_disconnected d' \<longleftrightarrow> ?silent) (prepare_link E d io)"
    using c assms(4) runs_mono [OF close_link_ok [OF assms(1) c(2)]]
      runs_mono [OF enqueue_frame_ok [OF c(2) ctl_wf [of "env_crc E" F_PING 0]]]
    by (auto simp: prepare_link_def tick_keepalive_def Let_def)
  from daemon_prepare_tail [OF assms(1) this] obtain d' io' where
    p: "daemon_prepare E d io = Some (next_timeout d' (env_now E (io_n io')), d', next_call io')"
    "dm_inv E ?T d' (next_call io')" "dm_disconnected d' \<longleftrightarrow> ?silent" "armed d' io'"
    by blast
  have "\<forall>(k, c) \<in> set (dm_channels d'). channel_in_step d' c"
    using p(2) agrees_in_step by (fastforce simp: dm_inv_defs chans_ok_def list_all_iff)
  moreover have "next_timeout d' (env_now E (io_n io')) \<le> MAX_TICK"
    by (simp add: next_timeout_bound)
  moreover have "\<exists>d'' io''. daemon_iter E events d io = Some (d'', io'') \<and> dm_disconnected d'' \<and> dm_link_fd d'' = None"
    if "?silent" "list_all (event_ok ?T) events" for events
    using daemon_events_down [OF assms(1) p(2) that(2)] that(1) p(1,3)
    by (auto simp: runs_def daemon_iter_def dm_inv_defs link_inv_def)
  ultimately show ?thesis using p by (auto simp: armed_def)
qed

lemma example_connected:
  "\<exists>d io f lr. reachable example_env d io \<and> dm_link_fd d = Some f \<and> dm_last_rx d = Some lr"
proof -
  obtain d0 io0 where d0: "example_daemon = (d0, io0)" by fastforce
  have o: "list_all offline_call (io_log io_new)" by simp
  have "\<exists>d io. daemon_start example_env d0 io0 = Some (d, io) \<and> dm_link_fd d = Some 5 \<and> dm_last_rx d \<noteq> None"
    using d0
    by (auto simp: daemon_new_def daemon_start_def open_link_def resolve_dev_def open_serial_fd_def apply_termios_def
        baud_to_speed_def example_env_def now_def txq_reset_io_def Let_def)
  then show ?thesis using reachable.start [OF example_fresh o d0] by blast
qed

theorem silent_link_dropped_witness:
  "\<exists>d io timeout d' io'. reachable example_env d io \<and> daemon_prepare example_env d io = Some (timeout, d', io')"
  using example_connected silent_link_dropped [OF example_env_ok] by metis

end
