(* ===== verification/Daemon_Session.thy ===== *)
theory Daemon_Session
  imports Daemon_Props
begin

text \<open>
  A session of the link, from the opening to the closing of its descriptor: what every step of the event loop
  keeps of it, the frames that are dispatched, and the \<open>F_HELLO\<close> with which its stream begins.
\<close>


section \<open>What a step keeps\<close>

text \<open>The link does not go down, the parser is not touched, and the stream only grows.\<close>

definition keeps_link :: "daemon \<Rightarrow> io \<Rightarrow> daemon \<Rightarrow> io \<Rightarrow> bool" where
  "keeps_link d io d' io' \<longleftrightarrow> (dm_link_up d \<longrightarrow> dm_link_up d') \<and> dm_parser d' = dm_parser d \<and> stream_grows io io'"

lemma keeps_link_refl [simp]: "keeps_link d io d io"
  by (simp add: keeps_link_def)

lemma keeps_link_trans: "keeps_link d io d1 io1 \<Longrightarrow> keeps_link d1 io1 d2 io2 \<Longrightarrow> keeps_link d io d2 io2"
  unfolding keeps_link_def using stream_grows_trans by auto

lemma grows_call: "c \<noteq> TxReset \<Longrightarrow> \<forall>f bs. c \<noteq> LinkWrote f bs \<Longrightarrow> stream_grows io (call c io)"
  by (cases c) (auto simp: stream_grows_def call_def session_append)

lemma grows_interest [simp]: "stream_grows io0 io \<Longrightarrow> stream_grows io0 (set_link_write_interest b d io)"
  by (auto simp: set_link_write_interest_def intro: stream_grows_trans grows_call split: option.split)

lemma grows_send: "txq_inv (io_txq io) \<Longrightarrow> stream_grows io (send f io)"
  by (auto simp: stream_grows_def send_def call_def session_append queued_enq)

lemma grows_write:
  "queued (io_txq io) = out @ queued q \<Longrightarrow> stream_grows io (call (LinkWrote f out) (next_call (io\<lparr>io_txq := q\<rparr>)))"
  by (auto simp: stream_grows_def call_def next_call_def session_append)

lemma touch_tx_keeps: "touch_tx E d io = (d', io') \<Longrightarrow> keeps_link d io d' io'"
  by (auto simp: touch_tx_def keeps_link_def now_def Let_def)

lemma inv_queue: "dm_inv E T d io \<Longrightarrow> txq_inv (io_txq io)"
  by (auto simp: dm_inv_defs stream_ok_def)

lemma enqueue_frame_keeps:
  assumes "enqueue_frame E f d io = Some (d', io')" "dm_inv E T d io"
  shows "keeps_link d io d' io' \<and> dm_link_up d' = dm_link_up d"
    and "connected d \<Longrightarrow> \<exists>cs. io_log io' = io_log io @ cs \<and> Enqueue f \<in> set cs"
proof -
  have g: "stream_grows io (set_link_write_interest True d1 (next_call (send f io)))" for d1
    using grows_send [OF inv_queue [OF assms(2)]] by simp
  then show "keeps_link d io d' io' \<and> dm_link_up d' = dm_link_up d"
    using assms(1) inv_queue [OF assms(2)]
    by (auto simp: enqueue_frame_def keeps_link_def now_def Let_def split: if_splits)
  have l: "\<exists>cs. io_log (set_link_write_interest True d1 (next_call (send f io))) = io_log io @ cs \<and> Enqueue f \<in> set cs" for d1
    by (auto simp: set_link_write_interest_def send_def call_def next_call_def split: option.split)
  assume "connected d"
  then show "\<exists>cs. io_log io' = io_log io @ cs \<and> Enqueue f \<in> set cs"
    using assms inv_queue [OF assms(2)] l
    by (auto simp: enqueue_frame_def dm_inv_defs link_inv_def now_def Let_def split: if_splits)
qed

lemma daemon_all_keeps:
  assumes "env_ok E" "stream_ok (env_crc E) io" "chans_ok T up bp down (dm_channels d)"
    and "\<forall>tk r w. x \<noteq> Event tk r w" "down \<Longrightarrow> spontaneous x"
    and "daemon_all (chan_step dyn_vtable E x) d io = Some (d', io')"
  shows "keeps_link d io d' io' \<and> dm_link_up d' = dm_link_up d \<and> dm_disconnected d' = dm_disconnected d"
proof -
  obtain up' bp' where "flags_step x (up, bp) = (up', bp')" by fastforce
  from daemon_all_raw [OF assms(1) this assms(4,5,2,3)] assms(6) show ?thesis by (auto simp: keeps_link_def)
qed

lemma daemon_one_keeps:
  assumes E: "env_ok E" and inv: "dm_inv E T d io" and c: "connected d"
    and f: "\<And>v. flags_step x v = v" and n: "x \<noteq> LinkDisconnect" and t: "\<And>tk r w. x = Event tk r w \<Longrightarrow> tk \<in> T i"
    and s: "daemon_one i (chan_step dyn_vtable E x) d io = Some (d', io')"
  shows "keeps_link d io d' io' \<and> connected d'"
proof -
  have "stream_ok (env_crc E) io" "list_all (chan_agrees T (dm_link_up d) (dm_link_bp d) False) (dm_channels d)"
    using inv c by (auto simp: dm_inv_defs chans_ok_def)
  from with_channel_ok [OF E f n _ _ this, where i = i] t obtain cs' io1 where
    "with_channel i (chan_step dyn_vtable E x) (dm_channels d) io = Some (cs', io1)" "stream_grows io io1"
    by auto
  then show ?thesis using s c by (auto simp: daemon_one_def keeps_link_def)
qed

lemma check_bp_high_keeps:
  assumes "env_ok E" "dm_inv E T d io" "connected d" "check_bp_high d io = Some (d', io')"
  shows "keeps_link d io d' io' \<and> connected d'"
proof (cases "\<not> dm_link_bp d \<and> used (io_txq io) \<ge> LINK_HIGH_WATER")
  case True
  then have "daemon_all (chan_step dyn_vtable E Pause) (d\<lparr>dm_link_bp := True\<rparr>) io = Some (d', io')"
    using assms(4) by (simp add: check_bp_high_def)
  from daemon_all_keeps [OF assms(1) _ _ _ _ this, of T "dm_link_up d" "dm_link_bp d" False] assms(2,3)
  show ?thesis by (simp add: keeps_link_def dm_inv_defs)
qed (use assms(3,4) in \<open>auto simp: check_bp_high_def split: if_splits\<close>)

lemma on_link_up_keeps:
  assumes E: "env_ok E" and inv: "dm_inv E T d io" and c: "connected d" and s: "on_link_up E d io = Some (d', io')"
  shows "keeps_link d io d' io' \<and> dm_link_up d'"
proof (cases "dm_link_up d")
  case True
  then show ?thesis using s by (simp add: on_link_up_def)
next
  case False
  then obtain d1 io1 where a: "daemon_all (chan_step dyn_vtable E LinkConnect) (d\<lparr>dm_link_up := True\<rparr>) io = Some (d1, io1)"
    "touch_tx E d1 io1 = (d', io')"
    using s by (auto simp: on_link_up_def split: bind_splits)
  have "keeps_link (d\<lparr>dm_link_up := True\<rparr>) io d1 io1 \<and> dm_link_up d1"
    using daemon_all_keeps [OF E _ _ _ _ a(1), of T "dm_link_up d" "dm_link_bp d" False] inv c
    by (simp add: dm_inv_defs)
  then show ?thesis using touch_tx_keeps [OF a(2)] stream_grows_trans by (auto simp: keeps_link_def)
qed


section \<open>Dispatch\<close>

abbreviation ack :: "env \<Rightarrow> call" where
  "ack E \<equiv> Enqueue (build_frame (env_crc E) F_ACK 0 [])"

text \<open>The calls of a step.\<close>

definition made :: "call \<Rightarrow> io \<Rightarrow> io \<Rightarrow> bool" where
  "made c io io' \<longleftrightarrow> (\<exists>cs. io_log io' = io_log io @ cs \<and> c \<in> set cs)"

lemma made_then: "made c io io1 \<Longrightarrow> stream_grows io1 io2 \<Longrightarrow> made c io io2"
  "stream_grows io io1 \<Longrightarrow> made c io1 io2 \<Longrightarrow> made c io io2"
  unfolding made_def stream_grows_def by fastforce+

lemma dispatch_hello:
  assumes E: "env_ok E" and inv: "dm_inv E T d io" and c: "connected d"
    and s: "dispatch_frame E (F_HELLO, i, p) d io = Some (d', io')"
  shows "keeps_link d io d' io' \<and> dm_link_up d' \<and> made (ack E) io io'"
proof -
  obtain d1 io1 where e: "enqueue_frame E (build_frame (env_crc E) F_ACK 0 []) d io = Some (d1, io1)"
    and r: "(if dm_link_up d1
           then do { (d, io) \<leftarrow> daemon_all (vt_on_link_connect dyn_vtable E) d1 io1; Some (touch_tx E d io) }
           else on_link_up E d1 io1) = Some (d', io')"
    using s by (cases "enqueue_frame E (build_frame (env_crc E) F_ACK 0 []) d io") (auto simp: dispatch_frame_def frame_types)
  have inv1: "dm_inv E T d1 io1" "connected d1"
    using enqueue_frame_ok [OF inv ctl_wf [of "env_crc E" F_ACK 0]] e c by (auto simp: runs_def)
  have m: "made (ack E) io io1" using enqueue_frame_keeps(2) [OF e inv c] by (simp add: made_def)
  have k: "keeps_link d1 io1 d' io' \<and> dm_link_up d'"
  proof (cases "dm_link_up d1")
    case True
    then obtain d2 io2 where a: "daemon_all (chan_step dyn_vtable E LinkConnect) d1 io1 = Some (d2, io2)" "touch_tx E d2 io2 = (d', io')"
      using r by (auto split: bind_splits)
    have "keeps_link d1 io1 d2 io2"
      using daemon_all_keeps [OF E _ _ _ _ a(1), of T "dm_link_up d1" "dm_link_bp d1" False] inv1 by (simp add: dm_inv_defs)
    from keeps_link_trans [OF this touch_tx_keeps [OF a(2)]] True show ?thesis by (simp add: keeps_link_def)
  next
    case False
    then show ?thesis using r on_link_up_keeps [OF E inv1] by simp
  qed
  then have "made (ack E) io io'" using m by (auto simp: keeps_link_def intro: made_then(1))
  then show ?thesis using k keeps_link_trans [OF conjunct1 [OF enqueue_frame_keeps(1) [OF e inv]]] by blast
qed

lemma dispatch_frame_keeps:
  assumes E: "env_ok E" and inv: "dm_inv E T d io" and c: "connected d"
    and s: "dispatch_frame E (t, i, p) d io = Some (d', io')"
  shows "keeps_link d io d' io' \<and> (t = F_HELLO \<or> t = F_ACK \<longrightarrow> dm_link_up d')"
proof -
  consider "t = F_HELLO" | "t = F_ACK" | "t = F_PING" | "t = F_PONG" | "t \<notin> {F_HELLO, F_ACK, F_PING, F_PONG}" by blast
  then show ?thesis
  proof cases
    case 1
    then show ?thesis using dispatch_hello [OF E inv c s [unfolded 1]] by simp
  next
    case 2
    then show ?thesis using on_link_up_keeps [OF E inv c] s by (simp add: dispatch_frame_def frame_types)
  next
    case 3
    then show ?thesis using enqueue_frame_keeps(1) [OF _ inv] s by (auto simp: dispatch_frame_def frame_types)
  next
    case 4
    then show ?thesis using s by (simp add: dispatch_frame_def frame_types)
  next
    case 5
    then obtain d1 io1 d2 io2 where b: "(if t = F_DATA \<or> t = F_TDATA then check_bp_high d io else Some (d, io)) = Some (d1, io1)"
      and o: "daemon_one i (chan_step dyn_vtable E (OnFrame t p)) d1 io1 = Some (d2, io2)" and f: "touch_tx E d2 io2 = (d', io')"
      using s by (auto simp: dispatch_frame_def split: bind_splits)
    have "keeps_link d io d1 io1" using b check_bp_high_keeps [OF E inv c] by (auto split: if_splits)
    moreover have "dm_inv E T d1 io1 \<and> connected d1"
      using b inv c check_bp_high_ok [OF E inv] by (auto simp: runs_def split: if_splits)
    then have "keeps_link d1 io1 d2 io2" using daemon_one_keeps [OF E _ _ _ _ _ o] by auto
    ultimately show ?thesis using touch_tx_keeps [OF f] keeps_link_trans 5 by blast
  qed
qed

text \<open>What the frames of the handshake do, wherever they are among the frames of a read.\<close>

definition greeted :: "env \<Rightarrow> frame list \<Rightarrow> io \<Rightarrow> daemon \<Rightarrow> io \<Rightarrow> bool" where
  "greeted E fs io d' io' \<longleftrightarrow> (\<forall>(t, i, p) \<in> set fs.
     (t = F_HELLO \<or> t = F_ACK \<longrightarrow> dm_link_up d') \<and> (t = F_HELLO \<longrightarrow> made (ack E) io io'))"

lemma greeted_Nil [simp]: "greeted E [] io d' io'"
  by (simp add: greeted_def)

lemma greeted_append:
  assumes "greeted E fs io d1 io1" "greeted E gs io1 d2 io2" "keeps_link d0 io d1 io1" "dm_link_up d1 \<longrightarrow> dm_link_up d2" "stream_grows io1 io2"
  shows "greeted E (fs @ gs) io d2 io2"
proof -
  have "stream_grows io io1" using assms(3) by (simp add: keeps_link_def)
  then have "made c io io2" if "made c io io1 \<or> made c io1 io2" for c using that made_then assms(5) by blast
  then show ?thesis using assms(1,2,4) unfolding greeted_def by fastforce
qed

lemma dispatch_frames_keeps:
  assumes E: "env_ok E" and "dm_inv E T d io" "connected d" "dispatch_frames E fs d io = Some (d', io')"
  shows "keeps_link d io d' io' \<and> greeted E fs io d' io'"
  using assms(2-)
proof (induction fs arbitrary: d io)
  case (Cons f fs)
  obtain t i p where f: "f = (t, i, p)" by (cases f)
  obtain d1 io1 where s: "dispatch_frame E f d io = Some (d1, io1)" "dispatch_frames E fs d1 io1 = Some (d', io')"
    using Cons.prems(3) by (auto split: bind_splits)
  have inv1: "dm_inv E T d1 io1" "connected d1" using dispatch_frame_ok [OF E Cons.prems(1,2), of f] s(1) by (auto simp: runs_def)
  note k = dispatch_frame_keeps [OF E Cons.prems(1,2) s(1) [unfolded f]]
  note IH = Cons.IH [OF inv1 s(2)]
  have "greeted E [f] io d1 io1"
    using k dispatch_hello [OF E Cons.prems(1,2), of i p] s(1) by (auto simp: greeted_def f)
  from greeted_append [OF this conjunct2 [OF IH] conjunct1 [OF k]] IH k keeps_link_trans show ?case
    by (fastforce simp: keeps_link_def [of d1])
qed simp


section \<open>The other steps of the loop\<close>

lemma close_link_down: "close_link E d io = Some (d', io') \<Longrightarrow> dm_disconnected d'"
  by (auto simp: close_link_def daemon_all_def schedule_reopen_def now_def Let_def split: bind_splits if_splits)

lemma link_write_keeps:
  assumes E: "env_ok E" and inv: "dm_inv E T d io" and c: "connected d'" and s: "link_write E d io = Some (d', io')"
  shows "keeps_link d io d' io'"
proof (cases "dm_link_fd d")
  case None
  then show ?thesis using s by (simp add: link_write_def)
next
  case (Some f)
  obtain q out r where dr: "drain_to_fd (env_write E (io_n io) f) (io_txq io) = Some (q, out, r)" "txq_inv q"
    "queued (io_txq io) = out @ queued q"
    using drain_to_fd_spec [OF inv_queue [OF inv], of "env_write E (io_n io) f"] env_ok_write [OF E] by blast
  let ?io = "call (LinkWrote f out) (next_call (io\<lparr>io_txq := q\<rparr>))"
  have "r \<noteq> Inl e" for e using s Some dr(1) c close_link_down by (auto simp: link_write_def)
  then obtain b where b: "r = Inr b" by (cases r) auto
  obtain d1 io1 where r: "(if dm_link_bp d \<and> used (io_txq ?io) \<le> LINK_LOW_WATER
      then daemon_all (vt_resume_source_reads dyn_vtable) (d\<lparr>dm_link_bp := False\<rparr>) ?io else Some (d, ?io)) = Some (d1, io1)"
    "(d', io') = (d1, if is_empty (io_txq io1) then set_link_write_interest False d1 io1 else io1)"
    using s Some dr(1) b by (auto simp: link_write_def Let_def split: bind_splits)
  have g: "stream_grows io ?io" by (rule grows_write [OF dr(3)])
  have "stream_ok (env_crc E) ?io" using inv stream_link_write [OF _ dr(3,2)] by (simp add: dm_inv_defs)
  moreover have "chans_ok T (dm_link_up d) (dm_link_bp d) False (dm_channels d)"
    using inv Some by (auto simp: dm_inv_defs link_inv_def)
  ultimately have "keeps_link d ?io d1 io1"
    using r(1) daemon_all_keeps [OF E, of ?io T "dm_link_up d" "dm_link_bp d" False "d\<lparr>dm_link_bp := False\<rparr>" Resume]
    by (auto simp: keeps_link_def split: if_splits)
  then show ?thesis using r(2) stream_grows_trans [OF g] by (auto simp: keeps_link_def)
qed

lemma tick_keepalive_keeps:
  assumes "dm_inv E T d io" "connected d'" "tick_keepalive E t d io = Some (d', io')"
  shows "connected d \<and> keeps_link d io d' io'"
  using assms close_link_down enqueue_frame_keeps(1) [OF _ assms(1)]
  by (fastforce simp: tick_keepalive_def split: if_splits)

lemma daemon_prepare_keeps:
  assumes E: "env_ok E" and inv: "dm_inv E T d io" and s: "daemon_prepare E d io = Some (n, d', io')"
  obtains d0 io0 where "(if dm_disconnected d \<and> env_now E (io_n io) \<ge> dm_reopen_at d then open_link E d (next_call io)
       else Some (d, next_call io)) = Some (d0, io0)" "connected d' \<longrightarrow> connected d0 \<and> keeps_link d0 io0 d' io'"
proof -
  let ?t = "env_now E (io_n io)" and ?o = "if dm_disconnected d \<and> env_now E (io_n io) \<ge> dm_reopen_at d
    then open_link E d (next_call io) else Some (d, next_call io)"
  obtain d0 io0 d1 io1 d2 io2 where o: "?o = Some (d0, io0)" and t: "tick_keepalive E ?t d0 io0 = Some (d1, io1)"
    and a: "daemon_all (chan_step dyn_vtable E (Tick ?t)) d1 io1 = Some (d2, io2)"
    and r: "(d', io') = (if \<not> is_empty (io_txq io2)
       then (d2\<lparr>dm_last_tx := Some (env_now E (io_n io2))\<rparr>,
             next_call (set_link_write_interest True (d2\<lparr>dm_last_tx := Some (env_now E (io_n io2))\<rparr>) (next_call io2)))
       else (d2, next_call io2))"
    using s by (auto simp: daemon_prepare_def now_def Let_def split: bind_splits if_splits)
  have "runs E T (\<lambda>_. True) ?o" using inv open_link_ok [OF E, of T d "next_call io"] by (auto simp: dm_inv_defs)
  then have inv0: "dm_inv E T d0 io0" using o by (simp add: runs_def)
  have inv1: "dm_inv E T d1 io1" using tick_keepalive_ok [OF E inv0, of ?t] t by (simp add: runs_def)
  have k: "keeps_link d1 io1 d2 io2 \<and> dm_disconnected d2 = dm_disconnected d1"
    using daemon_all_keeps [OF E _ _ _ _ a, of T "dm_link_up d1" "dm_link_bp d1" "dm_disconnected d1"] inv1
    by (simp add: dm_inv_defs)
  have "keeps_link d2 io2 d' io' \<and> dm_disconnected d' = dm_disconnected d2"
    using r by (auto simp: keeps_link_def split: if_splits)
  then have "connected d' \<longrightarrow> connected d0 \<and> keeps_link d0 io0 d' io'"
    using k tick_keepalive_keeps [OF inv0 _ t] keeps_link_trans by blast
  with o show thesis by (rule that)
qed

lemma channel_event_keeps:
  assumes E: "env_ok E" and inv: "dm_inv E T d io" and c: "connected d"
    and ev: "event_ok T (tk, r, w)" "tk \<noteq> TOKEN_LINK" and s: "daemon_event E (tk, r, w) d io = Some (d', io')"
  shows "keeps_link d io d' io' \<and> connected d'"
proof (cases "channel_id_for_token tk")
  case None
  then show ?thesis using s ev(2) c by (simp add: daemon_event_def)
next
  case (Some k)
  then obtain d1 io1 d2 io2 where a: "daemon_one k (chan_step dyn_vtable E (Event tk r w)) d io = Some (d1, io1)"
    "check_bp_high d1 io1 = Some (d2, io2)" "touch_tx E d2 io2 = (d', io')"
    using s ev(2) by (auto simp: daemon_event_def split: bind_splits)
  have t: "tk \<in> T k" using ev(1) Some by (simp add: event_ok_def)
  have 1: "keeps_link d io d1 io1 \<and> connected d1" using daemon_one_keeps [OF E inv c _ _ _ a(1)] t by auto
  have "runs E T (\<lambda>x. dm_disconnected x = dm_disconnected d) (daemon_one k (chan_step dyn_vtable E (Event tk r w)) d io)"
    using daemon_one_ok [OF E inv, of "Event tk r w" k] t c by auto
  then have "dm_inv E T d1 io1" using a(1) by (simp add: runs_def)
  then have 2: "keeps_link d1 io1 d2 io2 \<and> connected d2" using check_bp_high_keeps [OF E _ _ a(2)] 1 by blast
  have "dm_disconnected d' = dm_disconnected d2" using a(3) by (auto simp: touch_tx_def now_def Let_def)
  then show ?thesis using 1 2 touch_tx_keeps [OF a(3)] keeps_link_trans by blast
qed


section \<open>Runs within a session\<close>

text \<open>The steps of the loop that read no data from the link.\<close>

inductive quiet_step :: "env \<Rightarrow> (u8 \<Rightarrow> token set) \<Rightarrow> daemon \<Rightarrow> io \<Rightarrow> daemon \<Rightarrow> io \<Rightarrow> bool"
  for E :: env and T :: "u8 \<Rightarrow> token set" where
  idle_read: "link_read E d io = Some (d', io') \<Longrightarrow>
     \<forall>f p. dm_link_fd d = Some f \<longrightarrow> env_read E (io_n io) f 65536 = ReadData p \<longrightarrow> p = [] \<Longrightarrow> quiet_step E T d io d' io'"
| writes: "link_write E d io = Some (d', io') \<Longrightarrow> quiet_step E T d io d' io'"
| prepare: "daemon_prepare E d io = Some (n, d', io') \<Longrightarrow> quiet_step E T d io d' io'"
| channel_event: "event_ok T (tk, r, w) \<Longrightarrow> tk \<noteq> TOKEN_LINK \<Longrightarrow> daemon_event E (tk, r, w) d io = Some (d', io') \<Longrightarrow>
     quiet_step E T d io d' io'"

text \<open>A run that keeps the link open, with the pieces read from it and the frames dispatched.\<close>

inductive link_run :: "env \<Rightarrow> (u8 \<Rightarrow> token set) \<Rightarrow> bytes list \<Rightarrow> frame list \<Rightarrow> daemon \<Rightarrow> io \<Rightarrow> daemon \<Rightarrow> io \<Rightarrow> bool"
  for E :: env and T :: "u8 \<Rightarrow> token set" where
  run_Nil: "link_run E T [] [] d io d io"
| run_quiet: "quiet_step E T d io d1 io1 \<Longrightarrow> connected d1 \<Longrightarrow> link_run E T ps fs d1 io1 d2 io2 \<Longrightarrow>
     link_run E T ps fs d io d2 io2"
| run_read: "dm_link_fd d = Some f \<Longrightarrow> env_read E (io_n io) f 65536 = ReadData p \<Longrightarrow> p \<noteq> [] \<Longrightarrow>
     feed (env_crc E) p (dm_parser d) = Some (fp, gs) \<Longrightarrow> link_read E d io = Some (d1, io1) \<Longrightarrow>
     link_run E T ps fs d1 io1 d2 io2 \<Longrightarrow> link_run E T (p # ps) (gs @ fs) d io d2 io2"

lemma link_run_append:
  "link_run E T ps fs d io d1 io1 \<Longrightarrow> link_run E T qs gs d1 io1 d2 io2 \<Longrightarrow> link_run E T (ps @ qs) (fs @ gs) d io d2 io2"
  by (induction rule: link_run.induct) (auto intro: link_run.intros)

lemma quiet_step_keeps:
  assumes "quiet_step E T d io d' io'" "env_ok E" "dm_inv E T d io" "connected d" "connected d'"
  shows "keeps_link d io d' io' \<and> dm_inv E T d' io'"
  using assms(1)
proof cases
  case idle_read
  then have "dm_inv E T d' io'" using link_read_ok [OF assms(2,3)] by (simp add: runs_def)
  moreover have "keeps_link d io d' io'"
    using idle_read assms(4,5) close_link_down
    by (auto simp: link_read_def read_nonblock_def keeps_link_def split: option.splits read_result.splits if_splits sum.splits list.splits)
  ultimately show ?thesis by blast
next
  case writes
  then show ?thesis using link_write_ok [OF assms(2,3)] link_write_keeps [OF assms(2,3,5)] by (simp add: runs_def)
next
  case (prepare n)
  have "dm_inv E T d' io'" using daemon_prepare_ok [OF assms(2,3)] prepare by auto
  moreover obtain d0 io0 where "Some (d, next_call io) = Some (d0, io0)" "connected d' \<longrightarrow> connected d0 \<and> keeps_link d0 io0 d' io'"
    using daemon_prepare_keeps [OF assms(2,3) prepare] assms(4) by auto
  ultimately show ?thesis using assms(5) by (auto simp: keeps_link_def)
next
  case (channel_event tk r w)
  have "dm_inv E T d' io'" using daemon_event_ok [OF assms(2,3) channel_event(1)] channel_event(3) by (simp add: runs_def)
  then show ?thesis using channel_event_keeps [OF assms(2-4) channel_event] by blast
qed

text \<open>One read dispatches the frames that the parser returns.\<close>

lemma link_read_data:
  assumes E: "env_ok E" and inv: "dm_inv E T d io" and f: "dm_link_fd d = Some f"
    and r: "env_read E (io_n io) f 65536 = ReadData p" "p \<noteq> []" and p: "feed (env_crc E) p (dm_parser d) = Some (fp, gs)"
    and s: "link_read E d io = Some (d', io')"
  shows "dm_inv E T (d\<lparr>dm_last_rx := Some (env_now E (Suc (io_n io))), dm_parser := fp\<rparr>) (next_call (next_call io))"
    and "dispatch_frames E gs (d\<lparr>dm_last_rx := Some (env_now E (Suc (io_n io))), dm_parser := fp\<rparr>) (next_call (next_call io)) = Some (d', io')"
    and "connected d" "parse (env_crc E) (fp_view (dm_parser d) @ p) = (fp_view fp, gs)"
proof -
  have l: "fp_inv (dm_parser d)" "fp_settled (env_crc E) (fp_view (dm_parser d))"
    using inv f by (auto simp: dm_inv_defs link_inv_def)
  show "connected d" using inv f by (auto simp: dm_inv_defs link_inv_def)
  show v: "parse (env_crc E) (fp_view (dm_parser d) @ p) = (fp_view fp, gs)"
    using feed_refines [OF l, of p] p by (auto simp: prod_eq_iff)
  have "fp_inv fp" using feed_refines [OF l, of p] p by (auto simp: prod_eq_iff)
  then show "dm_inv E T (d\<lparr>dm_last_rx := Some (env_now E (Suc (io_n io))), dm_parser := fp\<rparr>) (next_call (next_call io))"
    using inv parse_rest [OF v] by (auto simp: dm_inv_defs link_inv_def fp_settled_def)
  obtain b bs where "p = b # bs" using r(2) by (cases p) auto
  then show "dispatch_frames E gs (d\<lparr>dm_last_rx := Some (env_now E (Suc (io_n io))), dm_parser := fp\<rparr>) (next_call (next_call io)) = Some (d', io')"
    using s f r p by (simp add: link_read_def read_nonblock_def now_def)
qed

lemma link_read_dispatches:
  assumes E: "env_ok E" and inv: "dm_inv E T d io" and f: "dm_link_fd d = Some f"
    and r: "env_read E (io_n io) f 65536 = ReadData p" "p \<noteq> []" and p: "feed (env_crc E) p (dm_parser d) = Some (fp, gs)"
    and s: "link_read E d io = Some (d', io')"
  shows "dm_inv E T d' io' \<and> connected d' \<and> (dm_link_up d \<longrightarrow> dm_link_up d') \<and> stream_grows io io' \<and> greeted E gs io d' io'
    \<and> parse (env_crc E) (fp_view (dm_parser d) @ p) = (fp_view (dm_parser d'), gs)"
proof -
  note r = link_read_data [OF assms]
  show ?thesis using dispatch_frames_keeps [OF E r(1) _ r(2)] dispatch_frames_ok [OF E r(1), of gs] r(2-4)
    by (auto simp: runs_def keeps_link_def greeted_def made_def)
qed

lemma link_run_keeps:
  assumes "link_run E T ps fs d io d' io'" "env_ok E" "dm_inv E T d io" "connected d"
  shows "dm_inv E T d' io' \<and> connected d' \<and> (dm_link_up d \<longrightarrow> dm_link_up d') \<and> stream_grows io io' \<and> greeted E fs io d' io'
    \<and> parse (env_crc E) (fp_view (dm_parser d) @ concat ps) = (fp_view (dm_parser d'), fs)"
  using assms
proof (induction rule: link_run.induct)
  case (run_Nil d io)
  then show ?case by (simp add: dm_inv_defs link_inv_def fp_settled_def)
next
  case (run_quiet d io d1 io1 ps fs d2 io2)
  have k: "keeps_link d io d1 io1" "dm_inv E T d1 io1"
    using quiet_step_keeps [OF run_quiet(1) run_quiet.prems(1-3) run_quiet(2)] by auto
  note IH = run_quiet.IH [OF run_quiet.prems(1) k(2) run_quiet(2)]
  have "greeted E ([] @ fs) io d2 io2" by (rule greeted_append [OF greeted_Nil _ k(1)]) (use IH in auto)
  then show ?case using IH k(1) stream_grows_trans by (auto simp: keeps_link_def)
next
  case (run_read d f io p fp gs d1 io1 ps fs d2 io2)
  note k = link_read_dispatches [OF run_read.prems(1,2) run_read(1-5)]
  have IH: "dm_inv E T d2 io2 \<and> connected d2 \<and> (dm_link_up d1 \<longrightarrow> dm_link_up d2) \<and> stream_grows io1 io2 \<and> greeted E fs io1 d2 io2
    \<and> parse (env_crc E) (fp_view (dm_parser d1) @ concat ps) = (fp_view (dm_parser d2), fs)"
    using run_read.IH run_read.prems(1) k by blast
  have "greeted E (gs @ fs) io d2 io2"
    by (rule greeted_append [of E gs io d1 io1 fs d2 io2 "d1"]) (use k IH in \<open>auto simp: keeps_link_def\<close>)
  moreover have "parse (env_crc E) ((fp_view (dm_parser d) @ p) @ concat ps) = (fp_view (dm_parser d2), gs @ fs)"
    using k IH unfolding parse_append [of _ "fp_view (dm_parser d) @ p"] by simp
  ultimately show ?case using k IH stream_grows_trans by auto
qed


section \<open>The loop\<close>

text \<open>Every iteration that begins and ends with the link open is such a run.\<close>

lemma link_event_run:
  assumes E: "env_ok E" and inv: "dm_inv E T d io" and c: "connected d'"
    and s: "daemon_event E (TOKEN_LINK, r, w) d io = Some (d', io')"
  shows "\<exists>ps fs. link_run E T ps fs d io d' io'"
proof (cases "dm_link_fd d")
  case None
  then have "(d', io') = (d, io)" using s by (simp add: daemon_event_def)
  then show ?thesis using run_Nil by blast
next
  case (Some f)
  then obtain d1 io1 where a: "(if r then link_read E d io else Some (d, io)) = Some (d1, io1)"
    "(if w \<and> dm_link_fd d1 \<noteq> None then link_write E d1 io1 else Some (d1, io1)) = Some (d', io')"
    using s by (auto simp: daemon_event_def split: bind_splits)
  have inv1: "dm_inv E T d1 io1" using a(1) inv link_read_ok [OF E inv] by (auto simp: runs_def split: if_splits)
  have c1: "connected d1" using a(2) c inv1 by (auto simp: dm_inv_defs link_inv_def split: if_splits)
  have "link_run E T [] [] d1 io1 d' io'"
    using a(2) c by (auto intro: run_quiet [OF writes] run_Nil split: if_splits)
  moreover have "\<exists>ps fs. link_run E T ps fs d io d1 io1"
  proof (cases "r \<and> (\<exists>p. env_read E (io_n io) f 65536 = ReadData p \<and> p \<noteq> [])")
    case True
    then obtain p where p: "link_read E d io = Some (d1, io1)" "env_read E (io_n io) f 65536 = ReadData p" "p \<noteq> []"
      using a(1) by auto
    have "fp_inv (dm_parser d)" "fp_settled (env_crc E) (fp_view (dm_parser d))" using inv by (auto simp: dm_inv_defs link_inv_def)
    then obtain fp gs where "feed (env_crc E) p (dm_parser d) = Some (fp, gs)" using feed_settled by blast
    from run_read [OF Some p(2,3) this p(1) run_Nil] show ?thesis by blast
  next
    case False
    then have "r \<Longrightarrow> quiet_step E T d io d1 io1" using a(1) Some by (intro idle_read) auto
    then have "link_run E T [] [] d io d1 io1"
      using a(1) run_quiet [OF _ c1 run_Nil] run_Nil by (cases r) auto
    then show ?thesis by blast
  qed
  ultimately show ?thesis using link_run_append by blast
qed

lemma event_run:
  assumes "env_ok E" "dm_inv E T d io" "event_ok T ev" "connected d'" "daemon_event E ev d io = Some (d', io')"
  shows "\<exists>ps fs. link_run E T ps fs d io d' io'"
proof -
  obtain tk r w where ev: "ev = (tk, r, w)" by (cases ev)
  show ?thesis
  proof (cases "tk = TOKEN_LINK")
    case True
    then show ?thesis using link_event_run [OF assms(1,2,4)] assms(5) ev by blast
  next
    case False
    have "quiet_step E T d io d' io'" by (rule channel_event [OF _ False]) (use assms(3,5) ev in auto)
    from run_quiet [OF this assms(4) run_Nil] show ?thesis by blast
  qed
qed

text \<open>Nothing but the start of an iteration opens the link.\<close>

lemma event_down:
  assumes "dm_inv E T d io" "dm_disconnected d" "daemon_event E ev d io = Some (d', io')"
  shows "dm_disconnected d'"
proof -
  have "dm_link_fd d = None" using assms(1,2) by (simp add: dm_inv_defs link_inv_def)
  then show ?thesis using assms(2,3)
    by (auto simp: daemon_event_def daemon_one_def check_bp_high_def daemon_all_def touch_tx_def now_def Let_def
        split: prod.splits option.splits bind_splits if_splits)
qed

lemma events_run:
  assumes "env_ok E" "dm_inv E T d io" "list_all (event_ok T) es" "daemon_events E es d io = Some (d', io')" "connected d'"
  shows "connected d \<and> (\<exists>ps fs. link_run E T ps fs d io d' io')"
  using assms(2-4)
proof (induction es arbitrary: d io)
  case Nil
  then have "(d', io') = (d, io)" by simp
  then show ?case using assms(5) run_Nil by blast
next
  case (Cons e es)
  then obtain d1 io1 where s: "daemon_event E e d io = Some (d1, io1)" "daemon_events E es d1 io1 = Some (d', io')"
    by (auto split: bind_splits)
  have ev: "event_ok T e" "list_all (event_ok T) es" using Cons.prems by auto
  have "dm_inv E T d1 io1" using daemon_event_ok [OF assms(1) Cons.prems(1) ev(1)] s(1) by (simp add: runs_def)
  from Cons.IH [OF this ev(2) s(2)] have IH: "connected d1" "\<exists>ps fs. link_run E T ps fs d1 io1 d' io'" by auto
  have "connected d" using event_down [OF Cons.prems(1) _ s(1)] IH(1) by blast
  moreover have "\<exists>ps fs. link_run E T ps fs d io d1 io1" by (rule event_run [OF assms(1) Cons.prems(1) ev(1) IH(1) s(1)])
  ultimately show ?case using IH(2) link_run_append by blast
qed

lemma iter_run:
  assumes "env_ok E" "dm_inv E T d io" "list_all (event_ok T) es" "daemon_iter E es d io = Some (d', io')" "connected d'"
  obtains n d1 io1 ps fs where "daemon_prepare E d io = Some (n, d1, io1)" "dm_inv E T d1 io1" "connected d1"
    "link_run E T ps fs d1 io1 d' io'" "connected d \<longrightarrow> link_run E T ps fs d io d' io'"
proof -
  obtain n d1 io1 where s: "daemon_prepare E d io = Some (n, d1, io1)" "daemon_events E es d1 io1 = Some (d', io')"
    using assms(4) by (auto simp: daemon_iter_def split: bind_splits)
  have inv1: "dm_inv E T d1 io1" using daemon_prepare_ok [OF assms(1,2)] s(1) by auto
  from events_run [OF assms(1) inv1 assms(3) s(2) assms(5)] obtain ps fs where "connected d1" "link_run E T ps fs d1 io1 d' io'"
    by blast
  with that s(1) inv1 show thesis using run_quiet [OF prepare [OF s(1)]] by blast
qed


section \<open>The stream begins with a hello\<close>

abbreviation hello :: "env \<Rightarrow> bytes" where
  "hello E \<equiv> build_frame (env_crc E) F_HELLO 0 []"

lemma open_link_hello:
  assumes "open_link E d io = Some (d', io')" "dm_disconnected d" "connected d'" "txq_inv (io_txq io)"
  shows "stream io' = hello E"
proof -
  obtain dev io1 f io2 io3 where s: "resolve_dev E d io = (Some dev, io1)" "open_serial_fd E dev 115200 io1 = (Inr f, io2)"
    "txq_enqueue (hello E) (next_call (next_call (txq_reset_io (call (Register f TOKEN_LINK READABLE) (next_call io2))))) = Some io3"
    "io' = set_link_write_interest True d' io3"
    using assms(1-3)
    by (auto simp: open_link_def schedule_reopen_def now_def Let_def split: prod.splits option.splits sum.splits bind_splits)
  have "io_txq io1 = io_txq io" using s(1) by (auto simp: resolve_dev_def split: option.splits prod.splits)
  then have "txq_inv (io_txq io2)" using open_serial_txq [OF s(2)] assms(4) by simp
  moreover have "fits (hello E) (txq_reset (io_txq io2))"
    by (simp add: fits_def build_frame_def mux_consts to_le_bytes16_def to_le_bytes32_def)
  ultimately have "stream io3 = hello E"
    using s(3) by (auto simp: txq_reset_io_def send_def call_def next_call_def session_def queued_enq)
  then show ?thesis using s(4) by (auto simp: set_link_write_interest_def call_def session_append split: option.splits)
qed

lemma reachable_hello:
  assumes E: "env_ok E" and "reachable E d io" "connected d"
  shows "prefix (hello E) (stream io)"
  using assms(2,3)
proof (induction rule: reachable.induct)
  case (start cs io mode dev usb d0 io0 d io1)
  have "dm_disconnected d0" using start(3) by (auto simp: daemon_new_def now_def)
  then show ?case using open_link_hello [of E d0 io0 d io1] start(4,5) inv_queue [OF daemon_new_ok [OF start(1-3)]] by (simp add: daemon_start_def)
next
  case (iter d io es d' io')
  let ?T = "tokens_of (dm_channels d)"
  have inv: "dm_inv E ?T d io" by (rule reachable_inv [OF E iter(1)])
  obtain n d1 io1 ps fs where s: "daemon_prepare E d io = Some (n, d1, io1)" "dm_inv E ?T d1 io1" "connected d1"
    "link_run E ?T ps fs d1 io1 d' io'" by (rule iter_run [OF E inv iter(2,3,5)])
  obtain d0 io0 where o: "(if dm_disconnected d \<and> env_now E (io_n io) \<ge> dm_reopen_at d then open_link E d (next_call io)
       else Some (d, next_call io)) = Some (d0, io0)" "connected d0" "keeps_link d0 io0 d1 io1"
    using daemon_prepare_keeps [OF E inv s(1)] s(3) by blast
  have "prefix (hello E) (stream io0)"
    using o(1,2) open_link_hello [of E d "next_call io" d0 io0] inv_queue [OF inv] iter.IH by (auto split: if_splits)
  moreover have "stream_grows io0 io1" using o(3) by (simp add: keeps_link_def)
  moreover have "stream_grows io1 io'" using link_run_keeps [OF s(4) E s(2,3)] by blast
  ultimately show ?case unfolding stream_grows_def using prefix_order.trans by blast
qed

end
