(* ===== verification/Handshake.thy ===== *)
theory Handshake
  imports Daemon_Session
begin

text \<open>
  Two daemons over one link: a daemon comes up when it has read the \<open>F_HELLO\<close> or the \<open>F_ACK\<close> of the other side,
  in whatever pieces, among whatever other frames and between whatever other steps of its loop; and what it
  dispatches is what the other side enqueued.
\<close>


section \<open>The handshake\<close>

lemma wire_parses:
  "\<forall>(t, c, p) \<in> set fs. length p \<le> MAX_PAYLOAD \<Longrightarrow> parse crc (concat (map (enc crc) fs)) = ([], fs)"
  using parse_wire [of "map (Pair []) fs" crc] by (simp add: wire_frames wire_ok_frames comp_def)

text \<open>C15: the handshake.  A daemon with an open link and a fresh parser that reads a stream of frames from the link,
  in any pieces and between any other steps of its loop, dispatches exactly these frames, and with an \<open>F_HELLO\<close>
  or an \<open>F_ACK\<close> anywhere among them its link is up afterwards, which all its channels know; an \<open>F_HELLO\<close> is
  answered with an \<open>F_ACK\<close>, the frame that brings the other side up.\<close>

theorem handshake:
  assumes "env_ok E" "reachable E d io" "dm_link_fd d \<noteq> None" "fp_view (dm_parser d) = []"
    and "link_run E (tokens_of (dm_channels d)) ps fs d io d' io'"
    and "concat ps = concat (map (enc (env_crc E)) gs)" "\<forall>(t, c, p) \<in> set gs. length p \<le> MAX_PAYLOAD"
  shows "fs = gs \<and> (\<forall>(k, ch) \<in> set (dm_channels d'). channel_in_step d' ch)
    \<and> (\<forall>(t, c, p) \<in> set gs. (t = F_HELLO \<or> t = F_ACK \<longrightarrow> dm_link_up d')
         \<and> (t = F_HELLO \<longrightarrow> (\<exists>cs. io_log io' = io_log io @ cs \<and> Enqueue (build_frame (env_crc E) F_ACK 0 []) \<in> set cs)))"
proof -
  have inv: "dm_inv E (tokens_of (dm_channels d)) d io" by (rule reachable_inv [OF assms(1,2)])
  then have "connected d" using assms(3) by (auto simp: dm_inv_defs link_inv_def)
  note k = link_run_keeps [OF assms(5,1) inv this]
  have "parse (env_crc E) (concat (map (enc (env_crc E)) gs)) = ([], gs)"
    by (rule wire_parses [OF assms(7)])
  then have "fs = gs" using k assms(4,6) by simp
  moreover have "\<forall>(k, ch) \<in> set (dm_channels d'). channel_in_step d' ch"
    using k agrees_in_step by (fastforce simp: dm_inv_defs chans_ok_def list_all_iff)
  ultimately show ?thesis using k unfolding greeted_def made_def by blast
qed

text \<open>A peer that says hello.\<close>

definition hello_env :: env where
  "hello_env = example_env\<lparr>env_read := \<lambda>n f cap. ReadData (take cap (build_frame crc32_buf F_HELLO 0 []))\<rparr>"

lemma hello_env_ok: "env_ok hello_env"
  using example_env_ok by (auto simp: env_ok_def read_ok_def hello_env_def)

lemma hello_crc: "env_crc hello_env = crc32_buf"
  by (simp add: hello_env_def example_env_def)

lemma hello_connected:
  "\<exists>d io. reachable hello_env d io \<and> dm_link_fd d = Some 5 \<and> fp_view (dm_parser d) = [] \<and> dm_channels d = collect_channels example_channels"
proof -
  obtain d0 io0 where d0: "daemon_new hello_env ''k1'' (Some ''/dev/ttyS1'') None example_channels io_new = (d0, io0)" by fastforce
  have o: "list_all offline_call (io_log io_new)" by simp
  have "\<exists>d io. daemon_start hello_env d0 io0 = Some (d, io) \<and> dm_link_fd d = Some 5 \<and> fp_view (dm_parser d) = []
      \<and> dm_channels d = collect_channels example_channels"
    using d0
    by (auto simp: daemon_new_def daemon_start_def open_link_def resolve_dev_def open_serial_fd_def apply_termios_def
        baud_to_speed_def hello_env_def example_env_def now_def txq_reset_io_def Let_def)
  then show ?thesis using reachable.start [OF example_fresh o d0] by blast
qed

text \<open>One read of its hello.\<close>

lemma hello_run:
  "\<exists>d io fs d' io'. reachable hello_env d io \<and> dm_link_fd d \<noteq> None \<and> fp_view (dm_parser d) = []
     \<and> link_run hello_env (tokens_of (dm_channels d)) [build_frame crc32_buf F_HELLO 0 []] fs d io d' io' \<and> fs \<noteq> []
     \<and> dm_channels d = collect_channels example_channels"
proof -
  obtain d io where d: "reachable hello_env d io" "dm_link_fd d = Some 5" "fp_view (dm_parser d) = []"
    "dm_channels d = collect_channels example_channels"
    using hello_connected by blast
  let ?p = "build_frame crc32_buf F_HELLO 0 []" and ?T = "tokens_of (dm_channels d)"
  have inv: "dm_inv hello_env ?T d io" by (rule reachable_inv [OF hello_env_ok d(1)])
  obtain d' io' where r: "link_read hello_env d io = Some (d', io')"
    using link_read_ok [OF hello_env_ok inv] by (auto simp: runs_def)
  have "fp_inv (dm_parser d)" "fp_settled (env_crc hello_env) (fp_view (dm_parser d))"
    using inv by (simp_all add: dm_inv_defs link_inv_def)
  then obtain fp gs where p: "feed (env_crc hello_env) ?p (dm_parser d) = Some (fp, gs)" using feed_settled by blast
  have len: "length ?p \<le> 65536" "?p \<noteq> []" by (simp_all add: build_frame_def mux_consts to_le_bytes16_def to_le_bytes32_def)
  then have "env_read hello_env (io_n io) 5 65536 = ReadData ?p" by (simp add: hello_env_def)
  then have run: "link_run hello_env ?T [?p] gs d io d' io'" using run_read [OF d(2) _ len(2) p r run_Nil] by simp
  have "parse crc32_buf ?p = ([], [(F_HELLO, 0, [])])" using wire_parses [of "[(F_HELLO, 0, [])]" crc32_buf] by simp
  moreover have "connected d" using inv d(2) by (auto simp: dm_inv_defs link_inv_def)
  ultimately have "gs \<noteq> []" using link_run_keeps [OF run hello_env_ok inv] d(3) by (auto simp: hello_crc)
  with run d show ?thesis by (metis option.distinct(1))
qed

theorem handshake_witness:
  "\<exists>d io fs d' io'. reachable hello_env d io
     \<and> link_run hello_env (tokens_of (dm_channels d)) [build_frame crc32_buf F_HELLO 0 []] fs d io d' io'
     \<and> fs = [(F_HELLO, 0, [])] \<and> dm_link_up d'
     \<and> (\<exists>cs. io_log io' = io_log io @ cs \<and> Enqueue (build_frame crc32_buf F_ACK 0 []) \<in> set cs)"
proof -
  obtain d io fs d' io' where r: "reachable hello_env d io" "dm_link_fd d \<noteq> None" "fp_view (dm_parser d) = []"
    "link_run hello_env (tokens_of (dm_channels d)) [build_frame crc32_buf F_HELLO 0 []] fs d io d' io'"
    using hello_run by blast
  have w: "concat [build_frame crc32_buf F_HELLO 0 []] = concat (map (enc (env_crc hello_env)) [(F_HELLO, 0, [])])"
    by (simp add: hello_crc)
  have l: "\<forall>(t, c, p) \<in> set [(F_HELLO, 0 :: u8, [] :: bytes)]. length p \<le> MAX_PAYLOAD" by simp
  from handshake [OF hello_env_ok r w l]
  have "fs = [(F_HELLO, 0, [])] \<and> dm_link_up d'
     \<and> (\<exists>cs. io_log io' = io_log io @ cs \<and> Enqueue (build_frame crc32_buf F_ACK 0 []) \<in> set cs)"
    by (simp add: hello_crc)
  with r(1,4) show ?thesis by (intro exI [of _ d] exI [of _ io] exI [of _ fs] exI [of _ d'] exI [of _ io'] conjI) simp_all
qed


section \<open>Two daemons\<close>

lemma stream_begins:
  assumes "prefix (hello E) (concat (map (enc (env_crc E)) frames))" "\<forall>(t, c, p) \<in> set frames. length p \<le> MAX_PAYLOAD"
  shows "\<exists>rest. frames = (F_HELLO, 0, []) # rest"
proof -
  let ?crc = "env_crc E"
  obtain bs where bs: "concat (map (enc ?crc) frames) = hello E @ bs" using assms(1) by (auto simp: prefix_def)
  have "parse ?crc (hello E) = ([], [(F_HELLO, 0, [])])" using wire_parses [of "[(F_HELLO, 0, [])]" ?crc] by simp
  then show ?thesis using wire_parses [OF assms(2), of ?crc] parse_append [of ?crc "hello E" bs] unfolding bs
    by (auto split: prod.splits)
qed

text \<open>What one daemon has dispatched of what another has written, in this session of its link.\<close>

lemma read_frames:
  assumes "env_ok A" "reachable A da ioa" "dm_link_fd da \<noteq> None"
    and "env_ok B" "reachable B db iob" "dm_link_fd db \<noteq> None" "fp_view (dm_parser db) = []" "env_crc A = env_crc B"
    and "link_run B (tokens_of (dm_channels db)) ps fs db iob db' iob'"
    and "prefix (concat ps) (link_out (session (io_log ioa)))"
  obtains frames rest where "prefix fs frames" "\<forall>(t, c, p) \<in> set frames. length p \<le> MAX_PAYLOAD" "frames = (F_HELLO, 0, []) # rest"
    "map (enc (env_crc A)) frames = link_taken 0 (session (io_log ioa))"
    "concat ps = link_out (session (io_log ioa)) \<and> is_empty (io_txq ioa) \<longrightarrow> fs = frames" "greeted B fs iob db' iob'"
proof -
  let ?crc = "env_crc A"
  have inva: "dm_inv A (tokens_of (dm_channels da)) da ioa" by (rule reachable_inv [OF assms(1,2)])
  obtain frames where f: "stream ioa = concat (map (enc ?crc) frames)" "\<forall>(t, c, p) \<in> set frames. length p \<le> MAX_PAYLOAD"
    "map (enc ?crc) frames = link_taken 0 (session (io_log ioa))" by (rule stream_frames [OF inva])
  have ca: "connected da" using assms(3) inva by (auto simp: dm_inv_defs link_inv_def)
  obtain rest where h: "frames = (F_HELLO, 0, []) # rest"
    using stream_begins [OF _ f(2)] reachable_hello [OF assms(1,2) ca] f(1) by auto
  have invb: "dm_inv B (tokens_of (dm_channels db)) db iob" by (rule reachable_inv [OF assms(4,5)])
  then have "connected db" using assms(6) by (auto simp: dm_inv_defs link_inv_def)
  note k = link_run_keeps [OF assms(9,4) invb this]
  have p: "parse ?crc (concat ps) = (fp_view (dm_parser db'), fs)" using k assms(7,8) by simp
  obtain more where m: "link_out (session (io_log ioa)) = concat ps @ more" using assms(10) by (auto simp: prefix_def)
  then have "concat ps @ (more @ queued (io_txq ioa)) = concat (map (enc ?crc) frames)" using f(1) by simp
  from sent_parses [OF this f(2), of "[concat ps]"] have "prefix fs frames \<and> (more @ queued (io_txq ioa) = [] \<longrightarrow> fs = frames)"
    using feed_chunks_parse [of ?crc "[concat ps]"] p by auto
  moreover have "is_empty (io_txq ioa) \<longleftrightarrow> queued (io_txq ioa) = []" by (rule is_empty_queued [OF inv_queue [OF inva]])
  ultimately show thesis using that [OF _ f(2) h f(3)] k m by auto
qed

text \<open>C14: two daemons.  A daemon with an open link and a fresh parser has read, in any pieces and between any other
  steps of its loop, some of the bytes that another daemon has written to the link since it opened its end.
  Then the frames it has dispatched are, in order and without a gap, the first of those that the transmit queue of the
  other side took in this session, and all of them when everything has been written and read.  Which ones the queue
  took follows from the calls alone (\<open>link_taken\<close>): every frame that was enqueued, except those for which there was
  no room as a whole.  As soon as there is any, the first is an \<open>F_HELLO\<close>, its link is up and the hello is
  answered.  No partial write, backpressure or reconnect makes the stream lose its framing.\<close>

theorem daemon_to_daemon:
  assumes "env_ok A" "reachable A da ioa" "dm_link_fd da \<noteq> None"
    and "env_ok B" "reachable B db iob" "dm_link_fd db \<noteq> None" "fp_view (dm_parser db) = []" "env_crc A = env_crc B"
    and "link_run B (tokens_of (dm_channels db)) ps fs db iob db' iob'"
    and "prefix (concat ps) (link_out (session (io_log ioa)))"
  shows "prefix (map (enc (env_crc A)) fs) (link_taken 0 (session (io_log ioa)))
    \<and> (concat ps = link_out (session (io_log ioa)) \<and> is_empty (io_txq ioa) \<longrightarrow>
         map (enc (env_crc A)) fs = link_taken 0 (session (io_log ioa)))
    \<and> (\<forall>(t, c, p) \<in> set fs. length p \<le> MAX_PAYLOAD)
    \<and> (fs \<noteq> [] \<longrightarrow> hd fs = (F_HELLO, 0, []) \<and> dm_link_up db'
         \<and> (\<exists>cs. io_log iob' = io_log iob @ cs \<and> Enqueue (build_frame (env_crc B) F_ACK 0 []) \<in> set cs))"
proof -
  obtain frames rest where f: "prefix fs frames" "frames = (F_HELLO, 0, []) # rest"
    "map (enc (env_crc A)) frames = link_taken 0 (session (io_log ioa))"
    "concat ps = link_out (session (io_log ioa)) \<and> is_empty (io_txq ioa) \<longrightarrow> fs = frames" "greeted B fs iob db' iob'"
    "\<forall>(t, c, p) \<in> set frames. length p \<le> MAX_PAYLOAD"
    using read_frames [OF assms] by metis
  have "hd fs = (F_HELLO, 0, [])" "(F_HELLO, 0, []) \<in> set fs" if "fs \<noteq> []" using that f(1,2) by (cases fs; simp)+
  then have "fs \<noteq> [] \<longrightarrow> hd fs = (F_HELLO, 0, []) \<and> dm_link_up db'
      \<and> (\<exists>cs. io_log iob' = io_log iob @ cs \<and> Enqueue (build_frame (env_crc B) F_ACK 0 []) \<in> set cs)"
    using f(5) unfolding greeted_def made_def by fastforce
  moreover have "prefix (map (enc (env_crc A)) fs) (map (enc (env_crc A)) frames)" using f(1) by (rule map_mono_prefix)
  moreover have "\<forall>(t, c, p) \<in> set fs. length p \<le> MAX_PAYLOAD" using f(6) set_mono_prefix [OF f(1)] by blast
  ultimately show ?thesis using f(3,4) by simp
qed

text \<open>A daemon that has written its hello.\<close>

lemma drain_all:
  assumes "txq_inv q" "q_head q \<le> q_tail q" "queued q \<noteq> []"
  shows "drain_to_fd (\<lambda>bs. Written (length bs)) q = Some (q\<lparr>q_head := q_tail q\<rparr>, queued q, Inr True)"
proof -
  have "\<not> is_empty q" using assms by (simp add: is_empty_queued)
  then show ?thesis using assms(1,2)
    by (auto simp: drain_to_fd_def usub_def slice_def queued_def txq_inv_def is_empty_def Let_def)
qed

lemma enqueue_head: "enqueue f q = Some q' \<Longrightarrow> q_head q' = q_head q"
  by (auto simp: enqueue_def Let_def split: bind_splits if_splits)

lemma enq_head: "txq_inv q \<Longrightarrow> q_head (enq f q) = q_head q"
  using enq_cases [of q f] enqueue_head by blast

declare example_collected [simp]

lemma example_started:
  "\<exists>d io. daemon_start example_env (fst example_daemon) (snd example_daemon) = Some (d, io)
     \<and> dm_link_fd d = Some 5 \<and> \<not> dm_link_up d \<and> connected d \<and> \<not> dm_link_bp d \<and> dm_channels d = collect_channels example_channels
     \<and> dm_last_rx d = Some (from_millis 6) \<and> io_n io = 8 \<and> q_head (io_txq io) = 0
     \<and> link_out (session (io_log io)) = []"
  by (auto simp: daemon_new_def daemon_start_def open_link_def resolve_dev_def open_serial_fd_def apply_termios_def
        baud_to_speed_def example_env_def now_def txq_reset_io_def Let_def enq_head)
     (simp_all add: from_millis_def txq_reset_def session_def set_link_write_interest_def)

lemma hello_written:
  "\<exists>d io. started example_env (fst example_daemon) (snd example_daemon) d io \<and> dm_link_fd d \<noteq> None \<and> link_out (session (io_log io)) = build_frame crc32_buf F_HELLO 0 []"
proof -
  have crc: "env_crc example_env = crc32_buf" by (simp add: example_env_def)
  obtain d io where s: "daemon_start example_env (fst example_daemon) (snd example_daemon) = Some (d, io)"
     "dm_link_fd d = Some 5" "\<not> dm_link_up d" "connected d" "\<not> dm_link_bp d" "dm_channels d = collect_channels example_channels"
     "dm_last_rx d = Some (from_millis 6)" "io_n io = 8" "q_head (io_txq io) = 0" "link_out (session (io_log io)) = []"
    using example_started by blast
  have r: "started example_env (fst example_daemon) (snd example_daemon) d io"
    by (rule started.start_run [OF example_fresh _ prod.collapse [symmetric] s(1)]) simp
  have inv: "dm_inv example_env (tokens_of (dm_channels d)) d io" by (rule reachable_inv [OF example_env_ok started_reachable [OF r]])
  have q: "queued (io_txq io) = build_frame crc32_buf F_HELLO 0 []"
  proof -
    have "dm_disconnected (fst example_daemon)" "txq_inv (io_txq (snd example_daemon))" by (simp_all add: daemon_new_def now_def)
    then have "stream io = build_frame crc32_buf F_HELLO 0 []" using open_link_hello s(1,4) crc by (fastforce simp: daemon_start_def)
    then show ?thesis using s(10) by simp
  qed
  then have ne: "queued (io_txq io) \<noteq> []" by (simp add: build_frame_def)
  then have e: "\<not> is_empty (io_txq io)" using is_empty_queued [OF inv_queue [OF inv]] by simp
  have dr: "drain_to_fd (\<lambda>bs. Written (length bs)) (io_txq io) = Some ((io_txq io)\<lparr>q_head := q_tail (io_txq io)\<rparr>, queued (io_txq io), Inr True)"
    by (rule drain_all [OF inv_queue [OF inv] _ ne]) (simp add: s(9))
  have w: "env_write example_env n f = (\<lambda>bs. Written (length bs))" "env_now example_env = from_millis" for n f
    by (simp_all add: example_env_def)
  obtain d' io' where i: "daemon_iter example_env [(TOKEN_LINK, False, True)] d io = Some (d', io')" "dm_link_fd d' = Some 5"
     "link_out (session (io_log io')) = build_frame crc32_buf F_HELLO 0 []"
    using s(2-10) q e dr w
    by (simp add: daemon_iter_def daemon_prepare_def daemon_event_def tick_keepalive_def daemon_all_def now_def Let_def link_write_def
       KA_TIMEOUT_def from_millis_def from_secs_def set_link_write_interest_def session_append is_empty_def
       dyn_vtable_def pty_vtable_def dst_vtable_def pty_tick_def dst_tick_def lift_def)
  have "event_ok T (TOKEN_LINK, False, True)" for T
  proof -
    have "channel_id_for_token TOKEN_LINK = None" by code_simp
    then show ?thesis by (simp add: event_ok_def)
  qed
  then have "started example_env (fst example_daemon) (snd example_daemon) d' io'" by (intro started.run_iter [OF r _ i(1)]) simp
  with i(2,3) show ?thesis by (intro exI [of _ d'] exI [of _ io']) simp
qed

text \<open>Its hello brings the other daemon up.\<close>

theorem daemon_to_daemon_witness:
  "\<exists>da ioa db iob fs db' iob'. reachable example_env da ioa \<and> reachable hello_env db iob
     \<and> link_run hello_env (tokens_of (dm_channels db)) [link_out (session (io_log ioa))] fs db iob db' iob'
     \<and> prefix (map (enc crc32_buf) fs) (link_taken 0 (session (io_log ioa))) \<and> fs \<noteq> [] \<and> hd fs = (F_HELLO, 0, []) \<and> dm_link_up db'"
proof -
  obtain da ioa where a: "reachable example_env da ioa" "dm_link_fd da \<noteq> None"
    "link_out (session (io_log ioa)) = build_frame crc32_buf F_HELLO 0 []" using hello_written started_reachable by blast
  obtain db iob fs db' iob' where b: "reachable hello_env db iob" "dm_link_fd db \<noteq> None" "fp_view (dm_parser db) = []"
    "link_run hello_env (tokens_of (dm_channels db)) [build_frame crc32_buf F_HELLO 0 []] fs db iob db' iob'" "fs \<noteq> []"
    using hello_run by blast
  have crc: "env_crc example_env = env_crc hello_env" "env_crc example_env = crc32_buf" by (simp_all add: hello_crc example_env_def)
  have "prefix (concat [build_frame crc32_buf F_HELLO 0 []]) (link_out (session (io_log ioa)))" by (simp add: a(3))
  from daemon_to_daemon [OF example_env_ok a(1,2) hello_env_ok b(1-3) crc(1) b(4) this]
  have "prefix (map (enc crc32_buf) fs) (link_taken 0 (session (io_log ioa))) \<and> hd fs = (F_HELLO, 0, []) \<and> dm_link_up db'"
    using b(5) unfolding crc(2) by (elim conjE) simp
  with a(1) b(1,5) b(4) [folded a(3)] show ?thesis by blast
qed

end
