(* ===== verification/Channel_Trail.thy ===== *)
theory Channel_Trail
  imports Mcu_Writes Pty_Props Channel
begin

text \<open>
  The life of a channel inside a larger run: the calls made to it, each with the state of the channel and of the
  world before it and the world after it.  Between two of them anything may happen to the world.
  A channel that carries bytes writes what the \<open>F_DATA\<close> frames given to it contain (\<open>writing_channel\<close>)
  and sends in \<open>F_DATA\<close> frames what it has read (\<open>sending_channel\<close>), whatever happens in between.
\<close>

type_synonym 'c chan_call = "chan_op \<times> 'c \<times> io \<times> io"

inductive trail :: "'c vtable \<Rightarrow> ('c \<Rightarrow> bool) \<Rightarrow> ('c \<Rightarrow> chan_view) \<Rightarrow> env \<Rightarrow> 'c \<Rightarrow> 'c chan_call list \<Rightarrow> 'c \<Rightarrow> bool"
  for V :: "'c vtable" and ok :: "'c \<Rightarrow> bool" and view :: "'c \<Rightarrow> chan_view" and E :: env where
  trail_Nil: "trail V ok view E ch [] ch"
| trail_Cons: "chan_step V E x ch io = Some (ch1, io1) \<Longrightarrow> ok ch \<Longrightarrow> txq_inv (io_txq io) \<Longrightarrow> op_allowed (view ch) x \<Longrightarrow>
     trail V ok view E ch1 ss ch2 \<Longrightarrow> trail V ok view E ch ((x, ch, io, io1) # ss) ch2"

inductive_cases trail_NilE: "trail V ok view E ch [] ch'"
inductive_cases trail_ConsE: "trail V ok view E ch (s # ss) ch'"

lemma trail_append: "trail V ok view E ch ss ch1 \<Longrightarrow> trail V ok view E ch1 ts ch2 \<Longrightarrow> trail V ok view E ch (ss @ ts) ch2"
  by (induction rule: trail.induct) (auto intro: trail.intros)

text \<open>The effects of the calls, and the frames and bytes they carry.\<close>

definition new_calls :: "io \<Rightarrow> io \<Rightarrow> call list" where
  "new_calls io io' = drop (length (io_log io)) (io_log io')"

lemma new_calls_log [simp]: "io_log io' = io_log io @ cs \<Longrightarrow> new_calls io io' = cs"
  by (simp add: new_calls_def)

definition trail_calls :: "'c chan_call list \<Rightarrow> call list" where
  "trail_calls ss = concat (map (\<lambda>(x, ch, io, io'). new_calls io io') ss)"

fun frame_given :: "chan_op \<Rightarrow> (u8 \<times> bytes) list" where
  "frame_given (OnFrame t p) = [(t, p)]"
| "frame_given _ = []"

definition given :: "'c chan_call list \<Rightarrow> (u8 \<times> bytes) list" where
  "given ss = concat (map (\<lambda>(x, ch, io, io'). frame_given x) ss)"

definition data_in :: "(u8 \<times> bytes) list \<Rightarrow> bytes" where
  "data_in fs = concat (map (\<lambda>(t, p). if t = F_DATA then p else []) fs)"

lemma trail_simps [simp]:
  "trail_calls [] = []" "trail_calls ((x, ch, io, io') # ss) = new_calls io io' @ trail_calls ss"
  "trail_calls (ss @ ts) = trail_calls ss @ trail_calls ts"
  "given [] = []" "given ((x, ch, io, io') # ss) = frame_given x @ given ss" "given (ss @ ts) = given ss @ given ts"
  "data_in [] = []" "data_in ((t, p) # fs) = (if t = F_DATA then p else []) @ data_in fs" "data_in (fs @ gs) = data_in fs @ data_in gs"
  by (simp_all add: trail_calls_def given_def data_in_def)

lemma data_given [simp]: "data_in (frame_given x) = fed x"
  by (cases x) simp_all

text \<open>The bytes that enqueued frames carry for a channel.\<close>

definition data_of :: "u8 \<Rightarrow> bytes \<Rightarrow> bytes" where
  "data_of k f = (if length f \<ge> 10 \<and> f ! 2 = F_DATA \<and> f ! 3 = k then drop 6 (take (length f - 4) f) else [])"

lemma data_of_frame:
  "length p \<le> MAX_PAYLOAD \<Longrightarrow> data_of k (build_frame crc t c p) = (if t = F_DATA \<and> c = k then p else [])"
  by (simp add: data_of_def build_frame_def to_le_bytes16_def to_le_bytes32_def)

lemma data_of_control [simp]: "data_of k (build_frame crc t c []) = []"
  by (simp add: data_of_frame)

definition data_out :: "u8 \<Rightarrow> call list \<Rightarrow> bytes" where
  "data_out k cs = concat (map (data_of k) (enqueued cs))"

lemma data_out_simps [simp]:
  "data_out k [] = []" "data_out k (Enqueue f # cs) = data_of k f @ data_out k cs"
  "\<not> is_enqueue c \<Longrightarrow> data_out k (c # cs) = data_out k cs" "data_out k (cs @ ds) = data_out k cs @ data_out k ds"
  by (simp_all add: data_out_def) (cases c; simp)

lemma data_out_quiet: "list_all P cs \<Longrightarrow> (\<And>c. P c \<Longrightarrow> \<not> is_enqueue c) \<Longrightarrow> data_out k cs = []"
  by (induction cs) auto

lemma data_out_other: "list_all (own_call crc j) cs \<Longrightarrow> j \<noteq> k \<Longrightarrow> data_out k cs = []"
proof (induction cs)
  case (Cons c cs)
  then show ?case by (cases c) (auto simp: own_frame_def data_of_frame)
qed simp

lemma trail_calls_prefix:
  assumes "io_log io' = io_log io @ cs"
  shows "trail_calls ((x, ch, io, io') # ss) = cs @ trail_calls ss"
  using assms by simp


section \<open>Writing\<close>

context writing_channel begin

lemma trail_writes:
  assumes "trail V ok view E ch ss ch'" "env_ok E"
  shows "subseq (written (trail_calls ss) @ tx ch') (tx ch @ data_in (given ss))
    \<and> (session E ch \<and> list_all (\<lambda>(x, _). keeps x) ss \<and> list_all (\<lambda>c. \<not> ends c) (trail_calls ss) \<longrightarrow>
         written (trail_calls ss) @ tx ch' = tx ch @ data_in (given ss))"
  using assms
proof (induction rule: trail.induct)
  case (trail_Cons x ch io ch1 io1 ss ch2)
  from step_writes [OF trail_Cons.prems trail_Cons.hyps(2-4) trail_Cons.hyps(1)] obtain cs where
    c: "io_log io1 = io_log io @ cs" "subseq (written cs @ tx ch1) (tx ch @ fed x)"
      "keeps x \<and> session E ch \<and> list_all (\<lambda>c. \<not> ends c) cs \<longrightarrow> session E ch1 \<and> written cs @ tx ch1 = tx ch @ fed x"
    unfolding writes_def by blast
  note IH = trail_Cons.IH [OF trail_Cons.prems]
  have "subseq (written cs @ written (trail_calls ss) @ tx ch2) (written cs @ tx ch1 @ data_in (given ss))"
    using IH by (simp add: subseq_append')
  moreover have "subseq ((written cs @ tx ch1) @ data_in (given ss)) ((tx ch @ fed x) @ data_in (given ss))"
    using c(2) by (simp only: subseq_append)
  ultimately have s: "subseq (written cs @ written (trail_calls ss) @ tx ch2) (tx ch @ fed x @ data_in (given ss))"
    by (simp add: subseq_order.trans)
  have e: "written cs @ written (trail_calls ss) @ tx ch2 = tx ch @ fed x @ data_in (given ss)"
    if "written cs @ tx ch1 = tx ch @ fed x" "written (trail_calls ss) @ tx ch2 = tx ch1 @ data_in (given ss)"
    using that by (metis append.assoc)
  show ?case using s c(1,3) IH e by auto
qed simp

end


section \<open>Sending\<close>

text \<open>The bytes that a call reads from the descriptor of the channel.\<close>

fun received :: "env \<Rightarrow> fd option \<Rightarrow> chan_op \<Rightarrow> io \<Rightarrow> bytes" where
  "received E (Some f) (Event tk True w) io = (case env_read E (io_n io) f 4096 of ReadData bs \<Rightarrow> bs | ReadErr e \<Rightarrow> [])"
| "received E _ _ io = []"

definition trail_received :: "env \<Rightarrow> ('c \<Rightarrow> fd option) \<Rightarrow> 'c chan_call list \<Rightarrow> bytes" where
  "trail_received E port ss = concat (map (\<lambda>(x, ch, io, io'). received E (port ch) x io) ss)"

lemma trail_received_simps [simp]:
  "trail_received E port [] = []"
  "trail_received E port ((x, ch, io, io') # ss) = received E (port ch) x io @ trail_received E port ss"
  by (simp_all add: trail_received_def)

locale sending_channel = channel V ok view
  for V :: "'c vtable" and ok :: "'c \<Rightarrow> bool" and view :: "'c \<Rightarrow> chan_view" +
  fixes port :: "'c \<Rightarrow> fd option"
  assumes step_sends: "env_ok E \<Longrightarrow> ok ch \<Longrightarrow> txq_inv (io_txq io) \<Longrightarrow> op_allowed (view ch) x \<Longrightarrow>
      chan_step V E x ch io = Some (ch', io') \<Longrightarrow>
      subseq (data_out (cv_id (view ch)) (new_calls io io')) (received E (port ch) x io)"
begin

lemma trail_sends:
  assumes "trail V ok view E ch ss ch'" "env_ok E"
  shows "subseq (data_out (cv_id (view ch)) (trail_calls ss)) (trail_received E port ss)"
  using assms
proof (induction rule: trail.induct)
  case (trail_Cons x ch io ch1 io1 ss ch2)
  have "view ch1 = view_step x (view ch)"
    using step [OF trail_Cons.prems trail_Cons.hyps(2-4)] trail_Cons.hyps(1) by simp
  then have "subseq (data_out (cv_id (view ch)) (trail_calls ss)) (trail_received E port ss)"
    using trail_Cons.IH [OF trail_Cons.prems] by simp
  with step_sends [OF trail_Cons.prems trail_Cons.hyps(2-4) trail_Cons.hyps(1)] show ?case
    by (simp add: list_emb_append_mono)
qed simp

end


subsection \<open>The serial channels\<close>

definition sends :: "u8 \<Rightarrow> bytes \<Rightarrow> io \<Rightarrow> io \<Rightarrow> bool" where
  "sends k bs io io' \<longleftrightarrow> (\<exists>cs. io_log io' = io_log io @ cs \<and> data_out k cs = bs) \<and> io_n io \<le> io_n io'"

lemma sends_refl [simp]: "sends k [] io io"
  by (simp add: sends_def)

lemma sends_trans: "sends k bs io io1 \<Longrightarrow> sends k ds io1 io2 \<Longrightarrow> sends k (bs @ ds) io io2"
  unfolding sends_def by fastforce

lemmas sends_then = sends_trans [of k "[]" _ _ bs for k bs, simplified] sends_trans [of k bs _ _ "[]" for k bs, simplified]

lemma sends_next [simp]: "sends k bs io io' \<Longrightarrow> sends k bs io (next_call io')"
  by (auto simp: sends_def)

lemma sends_next_left: "sends k bs (next_call io) io' \<Longrightarrow> sends k bs io io'"
  by (auto simp: sends_def)

lemma sends_call: "\<not> is_enqueue c \<Longrightarrow> sends k bs io io' \<Longrightarrow> sends k bs io (call c io')"
  by (auto simp: sends_def call_def)

lemma sends_send: "sends k bs io io' \<Longrightarrow> sends k (bs @ data_of k f) io (send f io')"
  by (auto simp: sends_def send_def call_def)

lemma sends_control [simp]: "sends k bs io io' \<Longrightarrow> sends k bs io (send (build_frame crc t c []) io')"
  using sends_send [of k bs io io' "build_frame crc t c []"] by simp

lemma sends_txq [simp]: "sends k bs io (io'\<lparr>io_txq := q\<rparr>) = sends k bs io io'"
  by (simp add: sends_def)

lemma sends_emits: "emits P io io' \<Longrightarrow> (\<And>c. P c \<Longrightarrow> data_out k [c] = []) \<Longrightarrow> sends k [] io io'"
proof -
  assume "emits P io io'" and P: "\<And>c. P c \<Longrightarrow> data_out k [c] = []"
  then obtain cs where cs: "io_log io' = io_log io @ cs" "list_all P cs" "io_n io \<le> io_n io'" by (auto simp: emits_def)
  have "data_out k cs = []" using cs(2)
  proof (induction cs)
    case (Cons c cs)
    then show ?case using P [of c] data_out_simps(4) [of k "[c]" cs] by simp
  qed simp
  with cs show ?thesis by (simp add: sends_def)
qed

lemma sends_new_calls: "sends k bs io io' \<Longrightarrow> data_out k (new_calls io io') = bs"
  by (auto simp: sends_def)

lemma no_data_reg: "reg_call c \<Longrightarrow> data_out k [c] = []"
  by (cases c) simp_all

lemma no_data_quiet: "quiet_call j c \<Longrightarrow> data_out k [c] = []"
  by (simp add: quiet_call_def)

lemmas sends_reg = sends_emits [OF _ no_data_reg]
lemmas sends_quiet = sends_emits [OF _ no_data_quiet]

lemma drain_sends:
  assumes d: "(case fdo of
       None \<Rightarrow> Some (ch, io)
     | Some f \<Rightarrow>
         if tx ch = [] then Some (ch, io)
         else (case write_nonblock E f (tx ch) io of
             (Inr n, io) \<Rightarrow>
               if n = 0 then upd ch io
               else do { rest \<leftarrow> drain_front n (tx ch); upd (put rest ch) io }
           | (Inl e, io) \<Rightarrow> upd (put [] ch) io)) = Some (ch', io')"
    and upd: "\<And>c io. upd c io = Some (ch', io') \<Longrightarrow> emits reg_call io io'"
  shows "sends k [] io io'"
proof -
  have u: "sends k [] io io'" if "upd c io1 = Some (ch', io')" "sends k [] io io1" for c io1
    using sends_then(1) [OF that(2) sends_reg [OF upd [OF that(1)]]] .
  have w: "sends k [] io (snd (write_nonblock E f bs io))" for f bs
    by (auto simp: write_nonblock_def intro!: sends_call split: write_result.split)
  show ?thesis
  proof (cases "fdo = None \<or> tx ch = []")
    case True
    then show ?thesis using d by (auto split: option.splits)
  next
    case False
    then obtain f where f: "fdo = Some f" "tx ch \<noteq> []" by auto
    obtain r io1 where r: "write_nonblock E f (tx ch) io = (r, io1)" by fastforce
    have "sends k [] io io1" using w [of f "tx ch"] r by simp
    then show ?thesis using d f r u by (auto split: sum.splits if_splits bind_splits)
  qed
qed

lemma mcu_update_interest_sends: "mcu_update_interest ch io = Some (ch', io') \<Longrightarrow> sends k [] io io'"
  by (rule sends_reg [OF mcu_update_interest_keeps(1)])

lemma mcu_uart_drain_sends: "mcu_uart_drain E ch io = Some (ch', io') \<Longrightarrow> sends k [] io io'"
  unfolding mcu_uart_drain_def
  by (rule drain_sends [where tx = mcu_txbuf and upd = mcu_update_interest and put = "\<lambda>bs ch. ch\<lparr>mcu_txbuf := bs\<rparr>"])
     (auto intro: mcu_update_interest_keeps)

lemma mcu_transition_sends:
  assumes "mcu_transition E s ch io = Some (ch', io')" "txq_inv (io_txq io)"
  shows "sends k [] io io' \<and> mcu_link_up ch' = mcu_link_up ch \<and> mcu_ch_id ch' = mcu_ch_id ch"
  using assms by (auto simp: mcu_transition_def Let_def split: if_splits mcu_state.splits)

lemma mcu_open_uart_sends:
  assumes "mcu_open_uart E ch io = Some (ch', io')"
  shows "sends k [] io io'"
proof -
  obtain r io1 where r: "open_serial_fd E (mcu_device ch) (mcu_baud ch) io = (r, io1)" by fastforce
  have "emits (\<lambda>c. \<not> is_enqueue c) io io1" by (rule emits_open_serial [OF r]) simp
  then have "sends k [] io io1" by (rule sends_emits) simp
  then show ?thesis using assms r sends_then(1) mcu_update_interest_sends
    by (fastforce simp: mcu_open_uart_def now_def split: sum.splits)
qed

lemma mcu_uart_read_sends:
  assumes E: "env_ok E" and ok: "mcu_ok ch" and q: "txq_inv (io_txq io)" and r: "mcu_uart_read E ch io = Some (ch', io')"
  shows "\<exists>bs. sends (mcu_ch_id ch) bs io io' \<and> subseq bs (received E (mcu_fd ch) (Event tk True w) io)"
proof (cases "mcu_fd ch")
  case None
  then show ?thesis using r by (intro exI [of _ "[]"]) (simp add: mcu_uart_read_def)
next
  case (Some f)
  let ?k = "mcu_ch_id ch"
  show ?thesis
  proof (cases "env_read E (io_n io) f 4096")
    case (ReadErr e)
    obtain ch1 io1 where c: "mcu_close_uart ch (next_call io) = (ch1, io1)" by fastforce
    have cl: "emits (quiet (mcu_view ch)) (next_call io) io1" using mcu_close_uart_ok [OF ok c] by simp
    have k: "sends ?k [] io io1" "txq_inv (io_txq io1)"
      using sends_next_left [OF sends_quiet [OF cl]] emits_inv [OF cl] q by simp_all
    have "sends ?k [] io io'"
    proof (cases "e = EAGAIN \<or> e = EWOULDBLOCK")
      case True
      then show ?thesis using r Some ReadErr by (auto simp: mcu_uart_read_def read_nonblock_def)
    next
      case False
      then obtain ch2 io2 where t: "mcu_transition E Resetting ch1 io1 = Some (ch2, io2)" "io' = next_call io2"
        using r Some ReadErr c by (auto simp: mcu_uart_read_def read_nonblock_def now_def Let_def split: bind_splits)
      show ?thesis using sends_then(1) [OF k(1)] mcu_transition_sends [OF t(1) k(2)] by (simp add: t(2))
    qed
    then show ?thesis by (intro exI [of _ "[]"]) simp
  next
    case (ReadData bs)
    have n: "length bs \<le> MAX_PAYLOAD" using env_ok_read [OF E ReadData] by (simp add: mux_consts)
    have d: "data_of ?k (build_frame (env_crc E) F_DATA ?k (dropWhile P bs)) = dropWhile P bs" for P
      using n length_dropWhile_le [of P bs] by (simp add: data_of_frame)
    show ?thesis
    proof (cases "bs = []")
      case True
      then show ?thesis using r Some ReadData
        by (intro exI [of _ "[]"]) (auto simp: mcu_uart_read_def read_nonblock_def)
    next
      case False
      have io: "io_n io \<le> io_n io'" using mcu_uart_read_ok [OF E ok q] r by (auto simp: emits_def)
      have "subseq (data_out ?k (new_calls io io')) bs" "\<exists>cs. io_log io' = io_log io @ cs"
        using mcu_uart_read_spec [OF q Some ReadData False] r n d by (auto simp: data_of_frame)
      then show ?thesis using io Some ReadData by (intro exI [of _ "data_out ?k (new_calls io io')"]) (auto simp: sends_def)
    qed
  qed
qed

lemma mcu_step_sends:
  assumes E: "env_ok E" and ok: "mcu_ok ch" and q: "txq_inv (io_txq io)"
    and s: "chan_step mcu_vtable E x ch io = Some (ch', io')"
  shows "\<exists>bs. sends (mcu_ch_id ch) bs io io' \<and> subseq bs (received E (mcu_fd ch) x io)"
proof (cases x)
  case (Event tk r w)
  then obtain ch1 io1 where r: "(if r then mcu_uart_read E ch io else Some (ch, io)) = Some (ch1, io1)"
    and d: "(if w then mcu_uart_drain E ch1 io1 else Some (ch1, io1)) = Some (ch', io')"
    using s by (auto simp: mcu_vtable_def mcu_handle_event_def split: bind_splits)
  obtain bs where b: "sends (mcu_ch_id ch) bs io io1" "subseq bs (received E (mcu_fd ch) x io)"
  proof (cases r)
    case True
    then show ?thesis using r mcu_uart_read_sends [OF E ok q] that Event by fastforce
  next
    case False
    then show ?thesis using r that [of "[]"] by simp
  qed
  have "sends (mcu_ch_id ch) [] io1 io'" using d mcu_uart_drain_sends by (auto split: if_splits)
  from sends_then(2) [OF b(1) this] b(2) show ?thesis by blast
next
  case Close
  obtain ch1 io1 where c: "mcu_close_uart ch io = (ch1, io1)" by fastforce
  then show ?thesis using s Close mcu_close_uart_ok [OF ok c]
    by (intro exI [of _ "[]"]) (auto simp: mcu_vtable_def mcu_close_def intro: sends_quiet)
next
  case LinkConnect
  then show ?thesis using s q by (intro exI [of _ "[]"]) (auto simp: mcu_vtable_def mcu_on_link_connect_def)
next
  case (Tick n)
  then show ?thesis using s q mcu_open_uart_sends mcu_transition_sends
    by (intro exI [of _ "[]"]) (auto simp: mcu_vtable_def mcu_tick_def split: if_splits option.splits)
qed (use s mcu_update_interest_sends mcu_uart_drain_sends in \<open>auto intro!: exI [of _ "[]"] simp: mcu_vtable_def mcu_on_frame_def
      mcu_on_link_disconnect_def mcu_pause_source_reads_def mcu_resume_source_reads_def split: if_splits\<close>)

interpretation mcu_sending: sending_channel mcu_vtable mcu_ok mcu_view mcu_fd
proof unfold_locales
  fix E ch io x ch' io'
  assume "env_ok E" "mcu_ok ch" "txq_inv (io_txq io)" "chan_step mcu_vtable E x ch io = Some (ch', io')"
  from mcu_step_sends [OF this] show "subseq (data_out (cv_id (mcu_view ch)) (new_calls io io')) (received E (mcu_fd ch) x io)"
    using sends_new_calls by (fastforce simp: mcu_view_def)
qed

lemma pty_update_interest_sends: "pty_update_interest ch io = Some (ch', io') \<Longrightarrow> sends k [] io io'"
  by (rule sends_reg [OF pty_update_interest_keeps(1)])

lemma pty_drain_sends: "pty_drain E ch io = Some (ch', io') \<Longrightarrow> sends k [] io io'"
  unfolding pty_drain_def
  by (rule drain_sends [where tx = pty_txbuf and upd = pty_update_interest and put = "\<lambda>bs ch. ch\<lparr>pty_txbuf := bs\<rparr>"])
     (auto intro: pty_update_interest_keeps)

lemma pty_close_pty_sends: "pty_ok ch \<Longrightarrow> pty_close_pty ch io = (ch', io') \<Longrightarrow> sends k [] io io'"
  using pty_close_pty_ok [of ch io] sends_quiet by fastforce

lemma pty_open_pty_sends:
  assumes "pty_open_pty E ch io = Some (ch', io')"
  shows "sends k [] io io'"
proof (cases "pty_master_fd ch")
  case (Some f)
  then show ?thesis using assms by (simp add: pty_open_pty_def)
next
  case None
  obtain r io1 where o: "open_pty_raw E (pty_baud ch) io = (r, io1)" by fastforce
  have "emits (\<lambda>c. \<not> is_enqueue c) io io1" by (rule emits_open_pty [OF o]) simp
  then have e: "sends k [] io io1" by (rule sends_emits) simp
  have upd: "sends k [] io io'" if "pty_update_interest c io2 = Some (ch', io')" "sends k [] io io2" for c io2
    using sends_then(1) [OF that(2) pty_update_interest_sends [OF that(1)]] .
  show ?thesis using assms None o e
    by (auto simp: pty_open_pty_def pty_remove_symlink_def pty_slave_name_def Let_def close_raw_def
        split: sum.splits option.splits intro!: sends_call sends_next dest!: upd)
qed

lemma pty_read_sends:
  assumes E: "env_ok E" and ok: "pty_ok ch" and q: "txq_inv (io_txq io)" and f: "pty_master_fd ch = Some f"
    and r: "(case read_nonblock E f 4096 io of
         (Inr (Some data), io) \<Rightarrow>
           if length data > 0
           then do { io \<leftarrow> txq_enqueue (build_frame (env_crc E) F_DATA (pty_ch_id ch) data) io; Some (ch, io) }
           else Some (ch, io)
       | (Inl e, io) \<Rightarrow> if e = Os EIO then Some (pty_close_pty ch io) else Some (ch, io)
       | (Inr None, io) \<Rightarrow> Some (ch, io)) = Some (ch', io')"
  shows "sends (pty_ch_id ch) (received E (Some f) (Event tk True w) io) io io'"
proof (cases "env_read E (io_n io) f 4096")
  case (ReadErr e)
  have "sends (pty_ch_id ch) [] io io'" using r ReadErr pty_close_pty_sends [OF ok, of "next_call io"] sends_next_left
    by (auto simp: read_nonblock_def split: if_splits)
  then show ?thesis using ReadErr by simp
next
  case (ReadData bs)
  have n: "length bs \<le> MAX_PAYLOAD" using env_ok_read [OF E ReadData] by (simp add: mux_consts)
  show ?thesis
  proof (cases "bs = []")
    case True
    then show ?thesis using r ReadData by (auto simp: read_nonblock_def)
  next
    case False
    then have "io' = send (build_frame (env_crc E) F_DATA (pty_ch_id ch) bs) (next_call io)"
      using r ReadData q by (auto simp: read_nonblock_def)
    then show ?thesis using sends_send [of "pty_ch_id ch" "[]" io "next_call io" "build_frame (env_crc E) F_DATA (pty_ch_id ch) bs"] n ReadData
      by (simp add: data_of_frame)
  qed
qed

lemma pty_step_sends:
  assumes E: "env_ok E" and ok: "pty_ok ch" and q: "txq_inv (io_txq io)"
    and s: "chan_step pty_vtable E x ch io = Some (ch', io')"
  shows "sends (pty_ch_id ch) (received E (pty_master_fd ch) x io) io io'"
proof (cases x)
  case (Event tk r w)
  let ?k = "pty_ch_id ch"
  have d: "sends ?k bs io io'" if "sends ?k bs io io1" "(if w then pty_drain E ch1 io1 else Some (ch1, io1)) = Some (ch', io')" for bs ch1 io1
    using that sends_then(2) [OF that(1)] pty_drain_sends by (auto split: if_splits)
  show ?thesis
  proof (cases "pty_master_fd ch")
    case None
    then show ?thesis using s Event d [OF sends_refl] by (auto simp: pty_vtable_def pty_handle_event_def split: if_splits)
  next
    case (Some f)
    show ?thesis
    proof (cases r)
      case True
      then obtain ch1 io1 where a: "(case read_nonblock E f 4096 io of
         (Inr (Some data), io) \<Rightarrow>
           if length data > 0
           then do { io \<leftarrow> txq_enqueue (build_frame (env_crc E) F_DATA (pty_ch_id ch) data) io; Some (ch, io) }
           else Some (ch, io)
       | (Inl e, io) \<Rightarrow> if e = Os EIO then Some (pty_close_pty ch io) else Some (ch, io)
       | (Inr None, io) \<Rightarrow> Some (ch, io)) = Some (ch1, io1)" "(if w then pty_drain E ch1 io1 else Some (ch1, io1)) = Some (ch', io')"
        using s Event Some unfolding pty_vtable_def pty_handle_event_def by (auto split: bind_splits)
      from d [OF pty_read_sends [OF E ok q Some a(1), of tk w] a(2)] show ?thesis using Event Some True by simp
    next
      case False
      then show ?thesis using s Event Some d [OF sends_refl] by (simp add: pty_vtable_def pty_handle_event_def)
    qed
  qed
qed (use s pty_update_interest_sends pty_drain_sends pty_close_pty_sends [OF ok] pty_open_pty_sends in \<open>auto simp: pty_vtable_def
      pty_on_frame_def pty_on_link_connect_def pty_on_link_disconnect_def pty_tick_def pty_close_def pty_pause_source_reads_def
      pty_resume_source_reads_def split: if_splits\<close>)

interpretation pty_sending: sending_channel pty_vtable pty_ok pty_view pty_master_fd
proof unfold_locales
  fix E ch io x ch' io'
  assume "env_ok E" "pty_ok ch" "txq_inv (io_txq io)" "chan_step pty_vtable E x ch io = Some (ch', io')"
  from sends_new_calls [OF pty_step_sends [OF this]]
  show "subseq (data_out (cv_id (pty_view ch)) (new_calls io io')) (received E (pty_master_fd ch) x io)"
    by (simp add: pty_view_def)
qed


section \<open>Trails of a boxed channel\<close>

abbreviation dyn_trail :: "env \<Rightarrow> chan \<Rightarrow> chan chan_call list \<Rightarrow> chan \<Rightarrow> bool" where
  "dyn_trail \<equiv> trail dyn_vtable dyn_ok dyn_view"

definition boxed :: "('c \<Rightarrow> chan) \<Rightarrow> 'c chan_call list \<Rightarrow> chan chan_call list" where
  "boxed K ss = map (\<lambda>(x, ch, io, io'). (x, K ch, io, io')) ss"

lemma boxed_simps [simp]:
  "boxed K [] = []" "boxed K ((x, ch, io, io') # ss) = (x, K ch, io, io') # boxed K ss"
  by (simp_all add: boxed_def)

lemma boxed_same [simp]:
  "trail_calls (boxed K ss) = trail_calls ss" "given (boxed K ss) = given ss"
  "trail_received E port (boxed K ss) = trail_received E (\<lambda>ch. port (K ch)) ss"
  by (induction ss) auto

lemma dyn_trail_unbox:
  assumes "dyn_trail E c ss c'" "c = K ch"
    and step: "\<And>x ch io c' io'. chan_step dyn_vtable E x (K ch) io = Some (c', io') \<Longrightarrow>
        \<exists>ch'. c' = K ch' \<and> chan_step V E x ch io = Some (ch', io')"
    and ok: "\<And>ch. dyn_ok (K ch) = ok ch" "\<And>ch. dyn_view (K ch) = view ch"
  shows "\<exists>ts ch'. ss = boxed K ts \<and> c' = K ch' \<and> trail V ok view E ch ts ch'"
  using assms(1,2)
proof (induction arbitrary: ch rule: trail.induct)
  case (trail_Nil c)
  then show ?case by (intro exI [of _ "[]"]) (auto intro: trail.trail_Nil)
next
  case (trail_Cons x c io c1 io1 ss c2)
  obtain ch1 where s: "c1 = K ch1" "chan_step V E x ch io = Some (ch1, io1)" using step trail_Cons.hyps(1) trail_Cons.prems by blast
  obtain ts ch' where t: "ss = boxed K ts" "c2 = K ch'" "trail V ok view E ch1 ts ch'" using trail_Cons.IH [OF s(1)] by blast
  have "trail V ok view E ch ((x, ch, io, io1) # ts) ch'"
    by (rule trail.trail_Cons [OF s(2)]) (use trail_Cons.hyps trail_Cons.prems ok t(3) in auto)
  with t trail_Cons.prems show ?case by (intro exI [of _ "(x, ch, io, io1) # ts"] exI [of _ ch']) simp
qed

lemma dyn_step_mcu: "chan_step dyn_vtable E x (DMcu ch) io = Some (c', io') \<Longrightarrow> \<exists>ch'. c' = DMcu ch' \<and> chan_step mcu_vtable E x ch io = Some (ch', io')"
  by (cases x) (auto simp: dyn_vtable_def lift_def)

lemma dyn_step_pty: "chan_step dyn_vtable E x (DPty ch) io = Some (c', io') \<Longrightarrow> \<exists>ch'. c' = DPty ch' \<and> chan_step pty_vtable E x ch io = Some (ch', io')"
  by (cases x) (auto simp: dyn_vtable_def lift_def)

lemmas mcu_unbox = dyn_trail_unbox [where K = DMcu and V = mcu_vtable and ok = mcu_ok and view = mcu_view, OF _ _ dyn_step_mcu]
lemmas pty_unbox = dyn_trail_unbox [where K = DPty and V = pty_vtable and ok = pty_ok and view = pty_view, OF _ _ dyn_step_pty]

text \<open>The bytes that a channel has taken from its port, and those it has not written yet.\<close>

fun chan_port :: "chan \<Rightarrow> fd option" where
  "chan_port (DMcu ch) = mcu_fd ch"
| "chan_port (DPty ch) = pty_master_fd ch"
| "chan_port _ = None"

fun chan_txbuf :: "chan \<Rightarrow> bytes" where
  "chan_txbuf (DMcu ch) = mcu_txbuf ch"
| "chan_txbuf (DPty ch) = pty_txbuf ch"
| "chan_txbuf _ = []"

fun serial :: "chan \<Rightarrow> bool" where
  "serial (DMcu ch) = True"
| "serial (DPty ch) = True"
| "serial _ = False"

text \<open>Both serial channels in any trail.\<close>

lemma serial_trail:
  assumes "dyn_trail E c ss c'" "env_ok E" "serial c"
  shows "subseq (written (trail_calls ss) @ chan_txbuf c') (chan_txbuf c @ data_in (given ss))"
    and "subseq (data_out (cv_id (dyn_view c)) (trail_calls ss)) (trail_received E chan_port ss)"
proof -
  have "subseq (written (trail_calls ss) @ chan_txbuf c') (chan_txbuf c @ data_in (given ss))
    \<and> subseq (data_out (cv_id (dyn_view c)) (trail_calls ss)) (trail_received E chan_port ss)"
  proof (cases c)
    case (DMcu ch)
    obtain ts ch' where t: "ss = boxed DMcu ts" "c' = DMcu ch'" "trail mcu_vtable mcu_ok mcu_view E ch ts ch'"
      using mcu_unbox [OF assms(1) DMcu] by auto
    show ?thesis using mcu_writing.trail_writes [OF t(3) assms(2)] mcu_sending.trail_sends [OF t(3) assms(2)] by (simp add: DMcu t)
  next
    case (DPty ch)
    obtain ts ch' where t: "ss = boxed DPty ts" "c' = DPty ch'" "trail pty_vtable pty_ok pty_view E ch ts ch'"
      using pty_unbox [OF assms(1) DPty] by auto
    show ?thesis using pty_writing.trail_writes [OF t(3) assms(2)] pty_sending.trail_sends [OF t(3) assms(2)] by (simp add: DPty t)
  qed (use assms(3) in auto)
  then show "subseq (written (trail_calls ss) @ chan_txbuf c') (chan_txbuf c @ data_in (given ss))"
    "subseq (data_out (cv_id (dyn_view c)) (trail_calls ss)) (trail_received E chan_port ss)" by blast+
qed

end
