(* ===== verification/Daemon_Parts.thy ===== *)
theory Daemon_Parts
  imports Handshake Channel_Trail
begin

text \<open>
  The part of one channel in a run of the daemon: every step of the event loop makes some calls to the channel, in
  order and at known points of the run, hands it the frames that are routed to it, and sends no data in its
  name otherwise.
\<close>


section \<open>Parts\<close>

definition later :: "io \<Rightarrow> io \<Rightarrow> bool" where
  "later io io' \<longleftrightarrow> prefix (io_log io) (io_log io') \<and> io_n io \<le> io_n io'"

fun within :: "io \<Rightarrow> 'c chan_call list \<Rightarrow> io \<Rightarrow> bool" where
  "within io [] io' = later io io'"
| "within io ((x, ch, a, b) # ss) io' \<longleftrightarrow> later io a \<and> later a b \<and> within b ss io'"

text \<open>Channel \<open>k\<close> goes through the calls \<open>ss\<close> on the way from one state of the daemon to another, and all data
  enqueued for it on the way is enqueued by these calls.\<close>

definition part :: "env \<Rightarrow> u8 \<Rightarrow> chan chan_call list \<Rightarrow> daemon \<Rightarrow> io \<Rightarrow> daemon \<Rightarrow> io \<Rightarrow> bool" where
  "part E k ss d io d' io' \<longleftrightarrow> (\<exists>c c'. map_of (dm_channels d) k = Some c \<and> map_of (dm_channels d') k = Some c'
     \<and> dyn_trail E c ss c') \<and> within io ss io' \<and> sends k (data_out k (trail_calls ss)) io io'"

definition moves :: "env \<Rightarrow> u8 \<Rightarrow> (u8 \<times> bytes) list \<Rightarrow> daemon \<Rightarrow> io \<Rightarrow> daemon \<Rightarrow> io \<Rightarrow> bool" where
  "moves E k gs d io d' io' \<longleftrightarrow> (map_of (dm_channels d) k \<noteq> None \<longrightarrow> (\<exists>ss. part E k ss d io d' io' \<and> given ss = gs))"

lemma later_trans: "later a b \<Longrightarrow> later b c \<Longrightarrow> later a c"
  unfolding later_def using prefix_order.trans by fastforce

lemma sends_later: "sends k bs io io' \<Longrightarrow> later io io'"
  by (auto simp: sends_def later_def)

lemma within_left: "later a b \<Longrightarrow> within b ss c \<Longrightarrow> within a ss c"
  by (cases ss) (auto intro: later_trans)

lemma within_append: "within a ss b \<Longrightarrow> within b ts c \<Longrightarrow> within a (ss @ ts) c"
  by (induction a ss b rule: within.induct) (auto intro: within_left)

lemma part_trans:
  assumes "part E k ss d io d1 io1" "part E k ts d1 io1 d2 io2"
  shows "part E k (ss @ ts) d io d2 io2"
proof -
  obtain c c1 where a: "map_of (dm_channels d) k = Some c" "map_of (dm_channels d1) k = Some c1" "dyn_trail E c ss c1"
    "within io ss io1" "sends k (data_out k (trail_calls ss)) io io1" using assms(1) unfolding part_def by blast
  obtain c2 where b: "map_of (dm_channels d2) k = Some c2" "dyn_trail E c1 ts c2"
    "within io1 ts io2" "sends k (data_out k (trail_calls ts)) io1 io2" using assms(2) a(2) unfolding part_def by auto
  have "dyn_trail E c (ss @ ts) c2" by (rule trail_append [OF a(3) b(2)])
  then show ?thesis using a(1) b(1) within_append [OF a(4) b(3)] sends_trans [OF a(5) b(4)] unfolding part_def by auto
qed

lemma moves_trans:
  assumes "moves E k gs d io d1 io1" "moves E k hs d1 io1 d2 io2"
  shows "moves E k (gs @ hs) d io d2 io2"
  unfolding moves_def
proof
  assume "map_of (dm_channels d) k \<noteq> None"
  then obtain ss where s: "part E k ss d io d1 io1" "given ss = gs" using assms(1) by (auto simp: moves_def)
  then obtain ts where "part E k ts d1 io1 d2 io2" "given ts = hs" using assms(2) by (auto simp: moves_def part_def)
  with s show "\<exists>us. part E k us d io d2 io2 \<and> given us = gs @ hs"
    using part_trans by (intro exI [of _ "ss @ ts"]) auto
qed

lemmas moves_then = moves_trans [where gs = "[]", simplified] moves_trans [where hs = "[]", simplified]

lemma moves_lookup:
  "map_of (dm_channels d') k = map_of (dm_channels d) k \<Longrightarrow> sends k [] io io' \<Longrightarrow> moves E k [] d io d' io'"
  unfolding moves_def part_def using sends_later by (force intro: trail.trail_Nil)

lemma moves_still: "dm_channels d' = dm_channels d \<Longrightarrow> sends k [] io io' \<Longrightarrow> moves E k [] d io d' io'"
  by (rule moves_lookup) simp_all

lemma moves_channels:
  "moves E k gs (d\<lparr>dm_link_up := b\<rparr>) io d' io' = moves E k gs d io d' io'"
  "moves E k gs (d\<lparr>dm_link_bp := b\<rparr>) io d' io' = moves E k gs d io d' io'"
  by (simp_all add: moves_def part_def)


section \<open>Calls to the channels\<close>

text \<open>One call to channel \<open>k\<close>, and other things before and after it.\<close>

definition called :: "env \<Rightarrow> u8 \<Rightarrow> chan_op \<Rightarrow> chan \<Rightarrow> chan \<Rightarrow> io \<Rightarrow> io \<Rightarrow> bool" where
  "called E k x c c' io io' \<longleftrightarrow> (\<exists>a b. sends k [] io a \<and> dyn_trail E c [(x, c, a, b)] c' \<and> later a b
     \<and> sends k (data_out k (new_calls a b)) a b \<and> sends k [] b io')"

lemma called_then:
  "called E k x c c' io io' \<Longrightarrow> sends k [] io' io'' \<Longrightarrow> called E k x c c' io io''"
  "sends k [] io0 io \<Longrightarrow> called E k x c c' io io' \<Longrightarrow> called E k x c c' io0 io'"
  unfolding called_def using sends_then(1) by blast+

lemma moves_called:
  assumes "map_of (dm_channels d) k = Some c" "map_of (dm_channels d') k = Some c'" "called E k x c c' io io'"
  shows "moves E k (frame_given x) d io d' io'"
proof -
  obtain a b where ab: "sends k [] io a" "dyn_trail E c [(x, c, a, b)] c'" "later a b" "sends k (data_out k (new_calls a b)) a b"
    "sends k [] b io'" using assms(3) unfolding called_def by blast
  have "within io [(x, c, a, b)] io'" using ab sends_later by simp
  moreover have "sends k (data_out k (trail_calls [(x, c, a, b)])) io io'"
    using sends_then(1) [OF ab(1) sends_then(2) [OF ab(4,5)]] by simp
  ultimately have "part E k [(x, c, a, b)] d io d' io'" using assms(1,2) ab(2) unfolding part_def by blast
  then show ?thesis unfolding moves_def by (intro impI exI [of _ "[(x, c, a, b)]"]) simp
qed

lemma chan_step_facts:
  assumes E: "env_ok E" and q: "stream_ok (env_crc E) io" and c: "chan_agrees T up bp down (j, c)"
    and a: "op_allowed (dyn_view c) x" and s: "chan_step dyn_vtable E x c io = Some (c', io')"
  shows "stream_ok (env_crc E) io' \<and> dyn_ok c \<and> later io io' \<and> sends k (data_out k (new_calls io io')) io io'
    \<and> (j \<noteq> k \<longrightarrow> sends k [] io io') \<and> called E k x c c' io io'"
proof -
  have ok: "dyn_ok c" "cv_id (dyn_view c) = j" using c by (auto simp: chan_agrees_def)
  have e: "emits (own E (dyn_view c)) io io'" using dyn.step [OF E ok(1) stream_ok_inv [OF q] a] s by simp
  then have "stream_ok (env_crc E) io'" using stream_emits [OF q e] own_neutral by blast
  moreover obtain cs where cs: "io_log io' = io_log io @ cs" "list_all (own E (dyn_view c)) cs" "io_n io \<le> io_n io'"
    using e by (auto simp: emits_def)
  moreover have "dyn_trail E c [(x, c, io, io')] c'"
    by (rule trail.trail_Cons) (use s ok(1) stream_ok_inv [OF q] a trail.trail_Nil in auto)
  moreover have "later io io'" "sends k (data_out k (new_calls io io')) io io'" using cs by (auto simp: sends_def later_def)
  moreover have "called E k x c c' io io'" unfolding called_def using calculation sends_refl by blast
  ultimately show ?thesis using ok data_out_other [OF cs(2)] by (auto simp: sends_def)
qed

lemma for_channels_facts:
  assumes E: "env_ok E" and x: "\<forall>tk r w. x \<noteq> Event tk r w"
    and "stream_ok (env_crc E) io" "list_all (chan_agrees T up bp down) cs" "distinct (map fst cs)"
    and "for_channels (chan_step dyn_vtable E x) cs io = Some (cs', io')"
  shows "(k \<notin> fst ` set cs \<longrightarrow> sends k [] io io')
    \<and> (\<forall>c. map_of cs k = Some c \<longrightarrow> (\<exists>c'. map_of cs' k = Some c' \<and> called E k x c c' io io'))"
  using assms(3-)
proof (induction cs arbitrary: io cs')
  case (Cons jc cs)
  obtain j c where jc: "jc = (j, c)" by fastforce
  obtain c1 io1 cs1 where s: "chan_step dyn_vtable E x c io = Some (c1, io1)" "for_channels (chan_step dyn_vtable E x) cs io1 = Some (cs1, io')"
    "cs' = (j, c1) # cs1" using Cons.prems(4) jc by (auto split: bind_splits)
  have a: "op_allowed (dyn_view c) x" using x by (cases x) auto
  have c: "chan_agrees T up bp down (j, c)" "list_all (chan_agrees T up bp down) cs" "distinct (map fst cs)"
    using Cons.prems(2,3) jc by simp_all
  note f = chan_step_facts [OF E Cons.prems(1) c(1) a s(1), of k]
  have "stream_ok (env_crc E) io1" using f by blast
  note IH = Cons.IH [OF this c(2,3) s(2)]
  show ?case
  proof (cases "j = k")
    case True
    then have "sends k [] io1 io'" using IH Cons.prems(3) jc by auto
    then show ?thesis using True jc s(3) f called_then(1) by auto
  next
    case False
    then have "sends k [] io io1" using f by blast
    then show ?thesis using IH False jc s(3) sends_then(1) called_then(2) by auto
  qed
qed simp

lemma daemon_all_moves:
  assumes E: "env_ok E" and f: "flags_step x (up, bp) = (up', bp')" and x: "\<forall>tk r w. x \<noteq> Event tk r w"
    and d: "down \<Longrightarrow> spontaneous x" and q: "stream_ok (env_crc E) io" and c: "chans_ok T up bp down (dm_channels d)"
    and s: "daemon_all (chan_step dyn_vtable E x) d io = Some (d', io')"
  shows "moves E k (frame_given x) d io d' io'" "stream_ok (env_crc E) io'" "chans_ok T up' bp' (down \<or> x = LinkDisconnect) (dm_channels d')"
proof -
  show "stream_ok (env_crc E) io'" "chans_ok T up' bp' (down \<or> x = LinkDisconnect) (dm_channels d')"
    using daemon_all_raw [OF E f x d q c] s by auto
  obtain cs' where cs: "for_channels (chan_step dyn_vtable E x) (dm_channels d) io = Some (cs', io')" "d' = d\<lparr>dm_channels := cs'\<rparr>"
    using s by (auto simp: daemon_all_def split: bind_splits)
  have m: "\<exists>c'. map_of cs' k = Some c' \<and> called E k x c0 c' io io'" if "map_of (dm_channels d) k = Some c0" for c0
    using for_channels_facts [OF E x q _ _ cs(1), of T up bp down k] c that by (auto simp: chans_ok_def)
  show "moves E k (frame_given x) d io d' io'"
  proof (cases "map_of (dm_channels d) k")
    case None
    then show ?thesis by (simp add: moves_def)
  next
    case (Some c0)
    then show ?thesis using m moves_called [of d k c0 d'] cs(2) by auto
  qed
qed

lemma daemon_one_moves:
  assumes E: "env_ok E" and inv: "dm_inv E T d io" and t: "\<And>tk r w. x = Event tk r w \<Longrightarrow> tk \<in> T i"
    and s: "daemon_one i (chan_step dyn_vtable E x) d io = Some (d', io')"
  shows "moves E k (if i = k then frame_given x else []) d io d' io'"
proof -
  have q: "stream_ok (env_crc E) io" and cs: "list_all (chan_agrees T (dm_link_up d) (dm_link_bp d) (dm_disconnected d)) (dm_channels d)"
    "distinct (map fst (dm_channels d))" using inv by (auto simp: dm_inv_defs chans_ok_def)
  obtain cs' where w: "with_channel i (chan_step dyn_vtable E x) (dm_channels d) io = Some (cs', io')" "d' = d\<lparr>dm_channels := cs'\<rparr>"
    using s by (auto simp: daemon_one_def split: bind_splits)
  have "(i \<noteq> k \<longrightarrow> sends k [] io io' \<and> map_of cs' k = map_of as k)
      \<and> (i = k \<longrightarrow> (\<forall>c. map_of as k = Some c \<longrightarrow> (\<exists>c'. map_of cs' k = Some c' \<and> called E k x c c' io io')))"
    if "with_channel i (chan_step dyn_vtable E x) as io = Some (cs', io')"
      "list_all (chan_agrees T (dm_link_up d) (dm_link_bp d) (dm_disconnected d)) as" for as
    using that
  proof (induction "as" arbitrary: cs')
    case (Cons jc "as")
    obtain j c where jc: "jc = (j, c)" by fastforce
    have c: "chan_agrees T (dm_link_up d) (dm_link_bp d) (dm_disconnected d) (j, c)" using Cons.prems(2) jc by simp
    show ?case
    proof (cases "j = i")
      case True
      have a: "op_allowed (dyn_view c) x" using c t True by (cases x) (auto simp: chan_agrees_def)
      obtain c1 where s: "chan_step dyn_vtable E x c io = Some (c1, io')" "cs' = (j, c1) # as"
        using Cons.prems(1) jc True by (auto split: bind_splits)
      show ?thesis using chan_step_facts [OF E q c a s(1), of k] True jc s(2) by auto
    next
      case False
      then show ?thesis using Cons jc by (auto split: bind_splits)
    qed
  qed simp
  note m = this [OF w(1) cs(1)]
  show ?thesis
  proof (cases "i = k")
    case True
    then show ?thesis using m moves_called [of d k _ d'] w(2) by (cases "map_of (dm_channels d) k") (auto simp: moves_def)
  next
    case False
    then show ?thesis using m w(2) moves_lookup [of d' k d] by simp
  qed
qed


section \<open>The operations of the daemon\<close>

lemma sends_interest [simp]: "sends k bs io0 io \<Longrightarrow> sends k bs io0 (set_link_write_interest b d io)"
  by (auto simp: set_link_write_interest_def intro: sends_call split: option.split)

lemma sends_close_raw [simp]: "sends k bs io0 io \<Longrightarrow> sends k bs io0 (close_raw f io)"
  by (auto simp: close_raw_def intro: sends_call)

lemma sends_reset [simp]: "sends k bs io0 io \<Longrightarrow> sends k bs io0 (txq_reset_io io)"
  by (auto simp: txq_reset_io_def intro: sends_call)

lemma touch_tx_moves: "touch_tx E d io = (d', io') \<Longrightarrow> moves E k [] d io d' io'"
  by (rule moves_still) (auto simp: touch_tx_def now_def Let_def)

lemma enqueue_frame_moves:
  assumes "enqueue_frame E (build_frame (env_crc E) t c []) d io = Some (d', io')" "dm_inv E T d io"
  shows "moves E k [] d io d' io'"
  by (rule moves_still) (use assms(1) inv_queue [OF assms(2)] in \<open>auto simp: enqueue_frame_def now_def Let_def split: if_splits\<close>)

lemma check_bp_high_moves:
  assumes E: "env_ok E" and inv: "dm_inv E T d io" and s: "check_bp_high d io = Some (d', io')"
  shows "moves E k [] d io d' io'"
proof (cases "\<not> dm_link_bp d \<and> used (io_txq io) \<ge> LINK_HIGH_WATER")
  case True
  then have "daemon_all (chan_step dyn_vtable E Pause) (d\<lparr>dm_link_bp := True\<rparr>) io = Some (d', io')"
    using s by (simp add: check_bp_high_def)
  from daemon_all_moves(1) [OF E _ _ _ _ _ this, of "dm_link_up d" "dm_link_bp d" _ _ "dm_disconnected d" T k] inv
  show ?thesis by (simp add: moves_channels dm_inv_defs)
qed (use s in \<open>auto simp: check_bp_high_def split: if_splits intro: moves_still\<close>)

lemma on_link_up_moves:
  assumes E: "env_ok E" and inv: "dm_inv E T d io" and c: "connected d" and s: "on_link_up E d io = Some (d', io')"
  shows "moves E k [] d io d' io'"
proof (cases "dm_link_up d")
  case True
  then show ?thesis using s by (simp add: on_link_up_def moves_still)
next
  case False
  then obtain d1 io1 where a: "daemon_all (chan_step dyn_vtable E LinkConnect) (d\<lparr>dm_link_up := True\<rparr>) io = Some (d1, io1)"
    "touch_tx E d1 io1 = (d', io')"
    using s by (auto simp: on_link_up_def split: bind_splits)
  have "moves E k [] d io d1 io1"
    using daemon_all_moves(1) [OF E _ _ _ _ _ a(1), of "dm_link_up d" "dm_link_bp d" _ _ False T k] inv c
    by (simp add: moves_channels dm_inv_defs)
  from moves_then(1) [OF this touch_tx_moves [OF a(2)]] show ?thesis .
qed

text \<open>The frames that are routed to a channel.\<close>

fun routed :: "u8 \<Rightarrow> frame \<Rightarrow> (u8 \<times> bytes) list" where
  "routed k (t, c, p) = (if c = k \<and> t \<notin> {F_PING, F_PONG, F_HELLO, F_ACK} then [(t, p)] else [])"

lemma dispatch_frame_moves:
  assumes E: "env_ok E" and inv: "dm_inv E T d io" and c: "connected d"
    and s: "dispatch_frame E (t, i, p) d io = Some (d', io')"
  shows "moves E k (routed k (t, i, p)) d io d' io'"
proof -
  consider "t = F_HELLO" | "t = F_ACK" | "t = F_PING" | "t = F_PONG" | "t \<notin> {F_HELLO, F_ACK, F_PING, F_PONG}" by blast
  then show ?thesis
  proof cases
    case 1
    then obtain d1 io1 where e: "enqueue_frame E (build_frame (env_crc E) F_ACK 0 []) d io = Some (d1, io1)"
      and r: "(if dm_link_up d1
           then do { (d, io) \<leftarrow> daemon_all (vt_on_link_connect dyn_vtable E) d1 io1; Some (touch_tx E d io) }
           else on_link_up E d1 io1) = Some (d', io')"
      using s by (cases "enqueue_frame E (build_frame (env_crc E) F_ACK 0 []) d io") (auto simp: dispatch_frame_def frame_types)
    have inv1: "dm_inv E T d1 io1" "connected d1"
      using enqueue_frame_ok [OF inv ctl_wf [of "env_crc E" F_ACK 0]] e c by (auto simp: runs_def)
    have "moves E k [] d1 io1 d' io'"
    proof (cases "dm_link_up d1")
      case True
      then obtain d2 io2 where a: "daemon_all (chan_step dyn_vtable E LinkConnect) d1 io1 = Some (d2, io2)" "touch_tx E d2 io2 = (d', io')"
        using r by (auto split: bind_splits)
      have "moves E k [] d1 io1 d2 io2"
        using daemon_all_moves(1) [OF E _ _ _ _ _ a(1), of "dm_link_up d1" "dm_link_bp d1" _ _ False T k] inv1 by (simp add: dm_inv_defs)
      from moves_then(1) [OF this touch_tx_moves [OF a(2)]] show ?thesis .
    next
      case False
      then show ?thesis using r on_link_up_moves [OF E inv1] by simp
    qed
    from moves_then(1) [OF enqueue_frame_moves [OF e inv] this] show ?thesis using 1 by simp
  next
    case 2
    then show ?thesis using on_link_up_moves [OF E inv c] s by (simp add: dispatch_frame_def frame_types)
  next
    case 3
    then show ?thesis using enqueue_frame_moves [OF _ inv] s by (auto simp: dispatch_frame_def frame_types)
  next
    case 4
    then show ?thesis using s by (simp add: dispatch_frame_def frame_types moves_still)
  next
    case 5
    then obtain d1 io1 d2 io2 where b: "(if t = F_DATA \<or> t = F_TDATA then check_bp_high d io else Some (d, io)) = Some (d1, io1)"
      and o: "daemon_one i (chan_step dyn_vtable E (OnFrame t p)) d1 io1 = Some (d2, io2)" and f: "touch_tx E d2 io2 = (d', io')"
      using s by (auto simp: dispatch_frame_def split: bind_splits)
    have "moves E k [] d io d1 io1" using b check_bp_high_moves [OF E inv] by (auto split: if_splits intro: moves_still)
    moreover have "dm_inv E T d1 io1" using b inv check_bp_high_ok [OF E inv] by (auto simp: runs_def split: if_splits)
    then have "moves E k (if i = k then [(t, p)] else []) d1 io1 d2 io2" using daemon_one_moves [OF E _ _ o, of T k] by (cases "i = k") auto
    ultimately have "moves E k (if i = k then [(t, p)] else []) d io d' io'"
      using moves_then(1) moves_then(2) touch_tx_moves [OF f] by blast
    then show ?thesis using 5 by simp
  qed
qed

lemma dispatch_frames_moves:
  assumes E: "env_ok E" and "dm_inv E T d io" "connected d" "dispatch_frames E fs d io = Some (d', io')"
  shows "moves E k (concat (map (routed k) fs)) d io d' io'"
  using assms(2-)
proof (induction fs arbitrary: d io)
  case Nil
  then show ?case by (simp add: moves_still)
next
  case (Cons f fs)
  obtain t i p where f: "f = (t, i, p)" by (cases f)
  obtain d1 io1 where s: "dispatch_frame E f d io = Some (d1, io1)" "dispatch_frames E fs d1 io1 = Some (d', io')"
    using Cons.prems(3) by (auto split: bind_splits)
  have inv1: "dm_inv E T d1 io1" "connected d1" using dispatch_frame_ok [OF E Cons.prems(1,2), of f] s(1) by (auto simp: runs_def)
  have "moves E k (routed k f) d io d1 io1" using dispatch_frame_moves [OF E Cons.prems(1,2)] s(1) f by blast
  from moves_trans [OF this Cons.IH [OF inv1 s(2)]] show ?case by simp
qed

lemma schedule_reopen_moves: "schedule_reopen E d io = (d', io') \<Longrightarrow> moves E k [] d io d' io'"
  by (rule moves_still) (auto simp: schedule_reopen_def now_def Let_def)

lemma close_link_moves:
  assumes E: "env_ok E" and inv: "dm_core E T d io" and s: "close_link E d io = Some (d', io')"
  shows "moves E k [] d io d' io'"
proof (cases "dm_disconnected d")
  case True
  then show ?thesis using s by (simp add: close_link_def moves_still)
next
  case False
  obtain f where f: "dm_link_fd d = Some f" using inv False by (auto simp: dm_core_def link_inv_def)
  let ?io = "txq_reset_io (close_raw f (call (Deregister f) io))"
  let ?d = "d\<lparr>dm_disconnected := True, dm_link_up := False, dm_link_fd := None\<rparr>"
  have q: "stream_ok (env_crc E) ?io"
    using inv unfolding close_raw_def by (intro stream_reset stream_call) (auto simp: dm_core_def neutral_def)
  have c: "chans_ok T (dm_link_up d) (dm_link_bp d) False (dm_channels d)" using inv False by (simp add: dm_core_def)
  obtain d1 io1 d2 io2 where r: "(if dm_link_bp d then daemon_all (vt_resume_source_reads dyn_vtable) (?d\<lparr>dm_link_bp := False\<rparr>) ?io
      else Some (?d, ?io)) = Some (d1, io1)" and a: "daemon_all (chan_step dyn_vtable E LinkDisconnect) d1 io1 = Some (d2, io2)"
    and t: "schedule_reopen E d2 io2 = (d', io')"
    using s False f by (auto simp: close_link_def Let_def split: bind_splits)
  have 0: "moves E k [] d io ?d ?io" by (rule moves_still) (simp_all add: sends_call)
  have 1: "moves E k [] ?d ?io d1 io1 \<and> stream_ok (env_crc E) io1 \<and> chans_ok T (dm_link_up d) False False (dm_channels d1)"
  proof (cases "dm_link_bp d")
    case True
    then have a: "daemon_all (chan_step dyn_vtable E Resume) (?d\<lparr>dm_link_bp := False\<rparr>) ?io = Some (d1, io1)" using r by simp
    have f: "flags_step Resume (dm_link_up d, dm_link_bp d) = (dm_link_up d, False)" by simp
    have c': "chans_ok T (dm_link_up d) (dm_link_bp d) False (dm_channels (?d\<lparr>dm_link_bp := False\<rparr>))" using c by simp
    from daemon_all_moves [OF E f _ _ q c' a] show ?thesis by (simp add: moves_channels)
  next
    case False
    then show ?thesis using r q c by (auto intro: moves_still)
  qed
  have 2: "moves E k [] d1 io1 d2 io2"
    using daemon_all_moves(1) [OF E _ _ _ _ _ a, of "dm_link_up d" False False False False T k] 1 by simp
  show ?thesis using moves_then(1) [OF 0 moves_then(1) [OF conjunct1 [OF 1] moves_then(1) [OF 2 schedule_reopen_moves [OF t]]]] .
qed

lemma open_link_moves:
  assumes "open_link E d io = Some (d', io')" "dm_inv E T d io"
  shows "moves E k [] d io d' io'"
proof (rule moves_still)
  obtain dev io1 where r: "resolve_dev E d io = (dev, io1)" by fastforce
  have io1: "sends k [] io io1" "io_txq io1 = io_txq io"
    using r by (auto simp: resolve_dev_def split: option.splits prod.splits)
  have io2: "sends k [] io io2 \<and> txq_inv (io_txq io2)" if "open_serial_fd E dv 115200 io1 = (x, io2)" for dv x io2
  proof -
    have "emits (\<lambda>c. \<not> is_enqueue c) io1 io2" by (rule emits_open_serial [OF that]) simp
    from sends_emits [OF this, of k] show ?thesis using sends_then(1) [OF io1(1)] io1(2) open_serial_txq [OF that] inv_queue [OF assms(2)] by simp
  qed
  have reset: "txq_inv (io_txq (txq_reset_io io3))" if "txq_inv (io_txq io3)" for io3 using that by (simp add: txq_reset_io_def)
  show "sends k [] io io'"
  proof (cases dev)
    case None
    then show ?thesis using assms(1) r io1 by (auto simp: open_link_def schedule_reopen_def now_def)
  next
    case (Some dv)
    obtain x io3 where o: "open_serial_fd E dv 115200 io1 = (x, io3)" by fastforce
    show ?thesis using assms(1) r Some o io2 [OF o] reset
      by (auto simp: open_link_def schedule_reopen_def now_def Let_def sends_call split: sum.splits option.splits)
  qed
  show "dm_channels d' = dm_channels d"
    using assms(1) by (auto simp: open_link_def schedule_reopen_def now_def Let_def split: prod.splits option.splits sum.splits bind_splits)
qed

lemma link_write_moves:
  assumes E: "env_ok E" and inv: "dm_inv E T d io" and s: "link_write E d io = Some (d', io')"
  shows "moves E k [] d io d' io'"
proof (cases "dm_link_fd d")
  case None
  then show ?thesis using s by (simp add: link_write_def moves_still)
next
  case (Some f)
  then have c: "connected d" using inv by (simp add: dm_inv_defs link_inv_def)
  obtain q out r where dr: "drain_to_fd (env_write E (io_n io) f) (io_txq io) = Some (q, out, r)" "txq_inv q"
    "queued (io_txq io) = out @ queued q"
    using drain_to_fd_spec [OF inv_queue [OF inv], of "env_write E (io_n io) f"] env_ok_write [OF E] by blast
  let ?io = "call (LinkWrote f out) (next_call (io\<lparr>io_txq := q\<rparr>))"
  have st: "stream_ok (env_crc E) io" using inv by (simp add: dm_inv_defs)
  have core: "dm_core E T d ?io" using inv c stream_link_write [OF st dr(3,2), of f] by (simp add: dm_inv_defs)
  have 0: "moves E k [] d io d ?io" by (rule moves_still) (auto intro!: sends_call simp: sends_def)
  show ?thesis
  proof (cases r)
    case (Inl e)
    then have "close_link E d ?io = Some (d', io')" using s Some dr(1) by (simp add: link_write_def Let_def)
    from moves_then(1) [OF 0 close_link_moves [OF E core this]] show ?thesis .
  next
    case (Inr b)
    then obtain d1 io1 where r: "(if dm_link_bp d \<and> used (io_txq ?io) \<le> LINK_LOW_WATER
        then daemon_all (vt_resume_source_reads dyn_vtable) (d\<lparr>dm_link_bp := False\<rparr>) ?io else Some (d, ?io)) = Some (d1, io1)"
      "(d', io') = (d1, if is_empty (io_txq io1) then set_link_write_interest False d1 io1 else io1)"
      using s Some dr(1) by (auto simp: link_write_def Let_def split: bind_splits)
    have "moves E k [] d ?io d1 io1"
      using r(1) core c daemon_all_moves(1) [OF E, of Resume "dm_link_up d" "dm_link_bp d" _ _ False ?io T "d\<lparr>dm_link_bp := False\<rparr>" d1 io1 k]
      by (auto simp: dm_core_def moves_channels moves_still split: if_splits)
    moreover have "moves E k [] d1 io1 d' io'" by (rule moves_still) (use r(2) in \<open>auto split: if_splits\<close>)
    ultimately show ?thesis using moves_then(1) [OF 0] moves_then(1) by blast
  qed
qed

lemma tick_keepalive_moves:
  assumes E: "env_ok E" and inv: "dm_inv E T d io" and s: "tick_keepalive E t d io = Some (d', io')"
  shows "moves E k [] d io d' io'"
  using s close_link_moves [OF E] enqueue_frame_moves [OF _ inv] inv
  by (auto simp: tick_keepalive_def dm_inv_def split: if_splits intro: moves_still)

lemma daemon_prepare_moves:
  assumes E: "env_ok E" and inv: "dm_inv E T d io" and s: "daemon_prepare E d io = Some (n, d', io')"
  shows "moves E k [] d io d' io'"
proof -
  let ?t = "env_now E (io_n io)" and ?o = "if dm_disconnected d \<and> env_now E (io_n io) \<ge> dm_reopen_at d
    then open_link E d (next_call io) else Some (d, next_call io)"
  obtain d0 io0 d1 io1 d2 io2 where o: "?o = Some (d0, io0)" and t: "tick_keepalive E ?t d0 io0 = Some (d1, io1)"
    and a: "daemon_all (chan_step dyn_vtable E (Tick ?t)) d1 io1 = Some (d2, io2)"
    and r: "(d', io') = (if \<not> is_empty (io_txq io2)
       then (d2\<lparr>dm_last_tx := Some (env_now E (io_n io2))\<rparr>,
             next_call (set_link_write_interest True (d2\<lparr>dm_last_tx := Some (env_now E (io_n io2))\<rparr>) (next_call io2)))
       else (d2, next_call io2))"
    using s by (auto simp: daemon_prepare_def now_def Let_def split: bind_splits if_splits)
  have inv': "dm_inv E T d (next_call io)" using inv by (simp add: dm_inv_defs)
  have n: "moves E k [] d io d (next_call io)" by (rule moves_still) simp_all
  have 0: "moves E k [] d io d0 io0"
    using o open_link_moves [OF _ inv'] n moves_then(1) [OF n] by (auto split: if_splits)
  have "runs E T (\<lambda>_. True) ?o" using inv open_link_ok [OF E, of T d "next_call io"] by (auto simp: dm_inv_defs)
  then have inv0: "dm_inv E T d0 io0" using o by (simp add: runs_def)
  have inv1: "dm_inv E T d1 io1" using tick_keepalive_ok [OF E inv0, of ?t] t by (simp add: runs_def)
  have 1: "moves E k [] d1 io1 d2 io2"
    using daemon_all_moves(1) [OF E _ _ _ _ _ a, of "dm_link_up d1" "dm_link_bp d1" _ _ "dm_disconnected d1" T k] inv1
    by (simp add: dm_inv_defs)
  have 2: "moves E k [] d2 io2 d' io'" by (rule moves_still) (use r in \<open>auto split: if_splits\<close>)
  show ?thesis using moves_then(1) [OF 0 moves_then(1) [OF tick_keepalive_moves [OF E inv0 t] moves_then(1) [OF 1 2]]] .
qed

lemma channel_event_moves:
  assumes E: "env_ok E" and inv: "dm_inv E T d io" and ev: "event_ok T (tk, r, w)" "tk \<noteq> TOKEN_LINK"
    and s: "daemon_event E (tk, r, w) d io = Some (d', io')"
  shows "moves E k [] d io d' io'"
proof (cases "channel_id_for_token tk")
  case None
  then show ?thesis using s ev(2) by (simp add: daemon_event_def moves_still)
next
  case (Some i)
  then obtain d1 io1 d2 io2 where a: "daemon_one i (chan_step dyn_vtable E (Event tk r w)) d io = Some (d1, io1)"
    "check_bp_high d1 io1 = Some (d2, io2)" "touch_tx E d2 io2 = (d', io')"
    using s ev(2) by (auto simp: daemon_event_def split: bind_splits)
  have t: "tk \<in> T i" using ev(1) Some by (simp add: event_ok_def)
  have 1: "moves E k [] d io d1 io1" using daemon_one_moves [OF E inv _ a(1), of k] t by (cases "i = k") auto
  have "runs E T (\<lambda>x. dm_disconnected x = dm_disconnected d) (daemon_one i (chan_step dyn_vtable E (Event tk r w)) d io)"
    using daemon_one_ok [OF E inv, of "Event tk r w" i] t by auto
  then have "dm_inv E T d1 io1" using a(1) by (simp add: runs_def)
  from moves_then(1) [OF 1 moves_then(1) [OF check_bp_high_moves [OF E this a(2)] touch_tx_moves [OF a(3)]]] show ?thesis .
qed

end
