(* ===== verification/Serial_Relay.thy ===== *)
theory Serial_Relay
  imports Daemon_Parts
begin

text \<open>
  From port to port: what a serial channel of one daemon reads arrives, through its transmit queue, the link, the parser
  and the dispatch of the other daemon, at the serial channel with the same id.
\<close>


section \<open>The part of a channel in a session\<close>

text \<open>A read of the link that brings nothing.\<close>

lemma idle_read_moves:
  assumes "\<forall>f p. dm_link_fd d = Some f \<longrightarrow> env_read E (io_n io) f 65536 = ReadData p \<longrightarrow> p = []" "link_read E d io = Some (d', io')"
    and E: "env_ok E" and inv: "dm_inv E T d io"
  shows "moves E k [] d io d' io'"
proof -
  have n: "moves E k [] d io d (next_call io)" by (rule moves_still) simp_all
  have core: "dm_core E T d (next_call io)" using inv by (simp add: dm_inv_defs)
  have c: "moves E k [] d io d' io'" if "close_link E d (next_call io) = Some (d', io')"
    by (rule moves_then(1) [OF n close_link_moves [OF E core that]])
  show ?thesis using assms(1,2) n c
    by (auto simp: link_read_def read_nonblock_def moves_still split: option.splits read_result.splits if_splits sum.splits list.splits)
qed

lemma link_read_moves:
  assumes E: "env_ok E" and inv: "dm_inv E T d io" and f: "dm_link_fd d = Some f"
    and r: "env_read E (io_n io) f 65536 = ReadData p" "p \<noteq> []" and p: "feed (env_crc E) p (dm_parser d) = Some (fp, gs)"
    and s: "link_read E d io = Some (d', io')"
  shows "moves E k (concat (map (routed k) gs)) d io d' io'"
proof -
  note r = link_read_data [OF assms]
  have "moves E k [] d io (d\<lparr>dm_last_rx := Some (env_now E (Suc (io_n io))), dm_parser := fp\<rparr>) (next_call (next_call io))"
    by (rule moves_still) simp_all
  from moves_then(1) [OF this dispatch_frames_moves [OF E r(1) _ r(2)]] r(3) show ?thesis by simp
qed

lemma quiet_step_moves:
  assumes "quiet_step E T d io d' io'" "env_ok E" "dm_inv E T d io"
  shows "moves E k [] d io d' io'"
  using assms(1)
proof cases
  case idle_read
  show ?thesis by (rule idle_read_moves [OF idle_read(2,1) assms(2,3)])
qed (auto intro: link_write_moves daemon_prepare_moves channel_event_moves assms(2,3))

lemma link_run_moves:
  assumes "link_run E T ps fs d io d' io'" "env_ok E" "dm_inv E T d io" "connected d"
  shows "moves E k (concat (map (routed k) fs)) d io d' io'"
  using assms
proof (induction rule: link_run.induct)
  case (run_Nil d io)
  then show ?case by (simp add: moves_still)
next
  case (run_quiet d io d1 io1 ps fs d2 io2)
  have "dm_inv E T d1 io1" using quiet_step_keeps [OF run_quiet(1) run_quiet.prems run_quiet(2)] by blast
  from moves_then(1) [OF quiet_step_moves [OF run_quiet(1) run_quiet.prems(1,2)] run_quiet.IH [OF run_quiet.prems(1) this run_quiet(2)]]
  show ?case .
next
  case (run_read d f io p fp gs d1 io1 ps fs d2 io2)
  have "dm_inv E T d1 io1" "connected d1" using link_read_dispatches [OF run_read.prems(1,2) run_read(1-5)] by auto
  from moves_trans [OF link_read_moves [OF run_read.prems(1,2) run_read(1-5)] run_read.IH [OF run_read.prems(1) this]]
  show ?case by simp
qed


section \<open>The part of a channel in a run\<close>

definition goes :: "env \<Rightarrow> u8 \<Rightarrow> daemon \<Rightarrow> io \<Rightarrow> daemon \<Rightarrow> io \<Rightarrow> bool" where
  "goes E k d io d' io' \<longleftrightarrow> (\<exists>gs. moves E k gs d io d' io')"

lemma goes_trans: "goes E k d io d1 io1 \<Longrightarrow> goes E k d1 io1 d2 io2 \<Longrightarrow> goes E k d io d2 io2"
  unfolding goes_def using moves_trans by blast

lemma goesI: "moves E k gs d io d' io' \<Longrightarrow> goes E k d io d' io'"
  unfolding goes_def by blast

lemma goes_refl [simp]: "goes E k d io d io"
  by (rule goesI [OF moves_still]) simp_all

lemma link_read_goes:
  assumes E: "env_ok E" and inv: "dm_inv E T d io" and s: "link_read E d io = Some (d', io')"
  shows "goes E k d io d' io'"
proof (cases "\<forall>f p. dm_link_fd d = Some f \<longrightarrow> env_read E (io_n io) f 65536 = ReadData p \<longrightarrow> p = []")
  case True
  from idle_read_moves [OF this s E inv] show ?thesis by (rule goesI)
next
  case False
  then obtain f p where f: "dm_link_fd d = Some f" "env_read E (io_n io) f 65536 = ReadData p" "p \<noteq> []" by blast
  have "fp_inv (dm_parser d)" "fp_settled (env_crc E) (fp_view (dm_parser d))" using inv f(1) by (auto simp: dm_inv_defs link_inv_def)
  then obtain fp gs where "feed (env_crc E) p (dm_parser d) = Some (fp, gs)" using feed_settled by blast
  from link_read_moves [OF E inv f this s] show ?thesis by (rule goesI)
qed

lemma daemon_event_goes:
  assumes E: "env_ok E" and inv: "dm_inv E T d io" and ev: "event_ok T (tk, r, w)"
    and s: "daemon_event E (tk, r, w) d io = Some (d', io')"
  shows "goes E k d io d' io'"
proof (cases "tk = TOKEN_LINK \<and> dm_link_fd d \<noteq> None")
  case True
  then obtain d1 io1 where a: "(if r then link_read E d io else Some (d, io)) = Some (d1, io1)"
    "(if w \<and> dm_link_fd d1 \<noteq> None then link_write E d1 io1 else Some (d1, io1)) = Some (d', io')"
    using s by (auto simp: daemon_event_def split: bind_splits)
  have "goes E k d io d1 io1" using a(1) link_read_goes [OF E inv] by (auto split: if_splits)
  moreover have "dm_inv E T d1 io1" using a(1) link_read_ok [OF E inv] inv by (auto simp: runs_def split: if_splits)
  then have "goes E k d1 io1 d' io'" using a(2) link_write_moves [OF E, THEN goesI] by (auto split: if_splits)
  ultimately show ?thesis by (rule goes_trans)
next
  case False
  show ?thesis
  proof (cases "tk = TOKEN_LINK")
    case True
    then show ?thesis using False s by (simp add: daemon_event_def)
  next
    case tk: False
    from channel_event_moves [OF E inv ev tk s] show ?thesis by (rule goesI)
  qed
qed

lemma daemon_events_goes:
  assumes E: "env_ok E" and "dm_inv E T d io" "list_all (event_ok T) es" "daemon_events E es d io = Some (d', io')"
  shows "goes E k d io d' io'"
  using assms(2-)
proof (induction es arbitrary: d io)
  case (Cons e es)
  obtain tk r w where e: "e = (tk, r, w)" by (cases e)
  obtain d1 io1 where s: "daemon_event E e d io = Some (d1, io1)" "daemon_events E es d1 io1 = Some (d', io')"
    using Cons.prems(3) by (auto split: bind_splits)
  have ev: "event_ok T (tk, r, w)" "list_all (event_ok T) es" using Cons.prems(2) e by simp_all
  have "dm_inv E T d1 io1" using daemon_event_ok [OF E Cons.prems(1) ev(1)] s(1) e by (simp add: runs_def)
  from goes_trans [OF daemon_event_goes [OF E Cons.prems(1) ev(1) s(1) [unfolded e]] Cons.IH [OF this ev(2) s(2)]] show ?case .
qed simp

lemma daemon_iter_goes:
  assumes E: "env_ok E" and inv: "dm_inv E T d io" and es: "list_all (event_ok T) es" and s: "daemon_iter E es d io = Some (d', io')"
  shows "goes E k d io d' io'"
proof -
  obtain n d1 io1 where a: "daemon_prepare E d io = Some (n, d1, io1)" "daemon_events E es d1 io1 = Some (d', io')"
    using s by (auto simp: daemon_iter_def split: bind_splits)
  have "dm_inv E T d1 io1" using daemon_prepare_ok [OF E inv] a(1) by auto
  from goes_trans [OF goesI [OF daemon_prepare_moves [OF E inv a(1)]] daemon_events_goes [OF E this es a(2)]] show ?thesis .
qed

text \<open>The run of a daemon from the beginning.\<close>

lemma started_goes:
  assumes "started E d0 io0 d io" "env_ok E"
  shows "goes E k d0 io0 d io"
  using assms
proof (induction rule: started.induct)
  case (start_run cs io mode dev usb d io1)
  have "dm_inv E (tokens_of (dm_channels d0)) d0 io0" by (rule daemon_new_ok [OF start_run(1-3)])
  then show ?case using start_run(4) open_link_moves goesI by (fastforce simp: daemon_start_def split: if_splits)
next
  case (run_iter d io es d' io')
  note inv = reachable_inv [OF run_iter.prems started_reachable [OF run_iter(1)]]
  from goes_trans [OF run_iter.IH [OF run_iter.prems] daemon_iter_goes [OF run_iter.prems inv run_iter(2,3)]] show ?case .
qed

lemma started_new:
  assumes "started E d0 io0 d io"
  shows "data_out k (io_log io0) = []" "dm_inv E (tokens_of (dm_channels d0)) d0 io0"
proof -
  have "data_out k (io_log io0) = [] \<and> dm_inv E (tokens_of (dm_channels d0)) d0 io0" using assms
  proof (induction rule: started.induct)
    case (start_run cs io mode dev usb d io1)
    have "io_log io0 = io_log io" using start_run(3) by (auto simp: daemon_new_def now_def)
    then show ?case using offline_calls(1) [OF start_run(2)] daemon_new_ok [OF start_run(1-3)] by (simp add: data_out_def)
  qed
  then show "data_out k (io_log io0) = []" "dm_inv E (tokens_of (dm_channels d0)) d0 io0" by blast+
qed


section \<open>From port to port\<close>

fun frame_data :: "u8 \<Rightarrow> frame \<Rightarrow> bytes" where
  "frame_data k (t, c, p) = (if t = F_DATA \<and> c = k then p else [])"

lemma routed_data: "data_in (concat (map (routed k) fs)) = concat (map (frame_data k) fs)"
proof (induction fs)
  case (Cons f fs)
  then show ?case by (cases f) (auto simp: frame_types)
qed simp

lemma enc_data:
  "\<forall>(t, c, p) \<in> set fs. length p \<le> MAX_PAYLOAD \<Longrightarrow> concat (map (data_of k) (map (enc crc) fs)) = concat (map (frame_data k) fs)"
  by (induction fs) (auto simp: data_of_frame)

lemma subseq_concat_map: "subseq xs ys \<Longrightarrow> subseq (concat (map f xs)) (concat (map f ys))"
  by (induction rule: list_emb.induct) (auto simp: subseq_append' intro: subseq_order.trans)

lemma data_session: "subseq (concat (map (data_of k) (enqueued (session cs)))) (data_out k cs)"
proof -
  obtain ys where "cs = ys @ session cs" using session_suffix by blast
  then have "data_out k cs = data_out k ys @ concat (map (data_of k) (enqueued (session cs)))"
    by (metis data_out_simps(4) data_out_def)
  then show ?thesis by (simp add: list_emb_append2)
qed

text \<open>What a serial channel of a running daemon has enqueued is part of what it has read.\<close>

lemma started_part:
  assumes E: "env_ok E" and s: "started E d0 io0 d io" and c: "map_of (dm_channels d0) k = Some c" "serial c"
  shows "\<exists>ss. part E k ss d0 io0 d io \<and> subseq (data_out k (io_log io)) (trail_received E chan_port ss)"
proof -
  obtain ss where p: "part E k ss d0 io0 d io" using started_goes [OF s E, of k] c(1) by (auto simp: goes_def moves_def)
  have "cv_id (dyn_view c) = k" using started_new(2) [OF s] c(1)
    by (auto simp: dm_inv_defs chans_ok_def chan_agrees_def list_all_iff dest!: map_of_SomeD)
  moreover obtain c' where "dyn_trail E c ss c'" using p c(1) by (auto simp: part_def)
  ultimately have "subseq (data_out k (trail_calls ss)) (trail_received E chan_port ss)" using serial_trail(2) [OF _ E c(2)] by blast
  moreover have "data_out k (io_log io) = data_out k (trail_calls ss)" using p started_new(1) [OF s] by (auto simp: part_def sends_def)
  ultimately show ?thesis using p by auto
qed

text \<open>C2: from port to port.  Two daemons run, each with a serial channel (a UART or a PTY) under the same id,
  and the second has read, with a fresh parser, in any pieces and between any other steps of its loop, some of
  the bytes that the first has written to the link in this session.  Then the calls that the run makes to the second
  channel hand it exactly the frames dispatched with its id, and the bytes they write to its port and those it
  still holds are in order a part of the bytes it held before, followed by the bytes that the first channel has read from
  its own port since its daemon was built: nothing is invented, repeated or reordered, nothing of another
  channel or of the protocol gets between them, whatever the system calls return, however often the link was lost
  before, and whatever the other channels do.\<close>

theorem serial_relayed:
  assumes "env_ok A" "started A da0 ioa0 da ioa" "dm_link_fd da \<noteq> None"
    and "env_ok B" "reachable B db iob" "dm_link_fd db \<noteq> None" "fp_view (dm_parser db) = []" "env_crc A = env_crc B"
    and "link_run B (tokens_of (dm_channels db)) ps fs db iob db' iob'" "prefix (concat ps) (link_out (session (io_log ioa)))"
    and "map_of (dm_channels da0) k = Some ca" "serial ca" "map_of (dm_channels db) k = Some cb" "serial cb"
  shows "\<exists>sa sb cb'. part A k sa da0 ioa0 da ioa \<and> part B k sb db iob db' iob' \<and> given sb = concat (map (routed k) fs)
    \<and> map_of (dm_channels db') k = Some cb'
    \<and> subseq (written (trail_calls sb) @ chan_txbuf cb') (chan_txbuf cb @ trail_received A chan_port sa)"
proof -
  obtain sa where sa: "part A k sa da0 ioa0 da ioa" "subseq (data_out k (io_log ioa)) (trail_received A chan_port sa)"
    using started_part [OF assms(1,2,11,12)] by blast
  have inv: "dm_inv B (tokens_of (dm_channels db)) db iob" by (rule reachable_inv [OF assms(4,5)])
  then have "connected db" using assms(6) by (auto simp: dm_inv_defs link_inv_def)
  then obtain sb where sb: "part B k sb db iob db' iob'" "given sb = concat (map (routed k) fs)"
    using link_run_moves [OF assms(9,4) inv, of k] assms(13) by (auto simp: moves_def)
  then obtain cb' where cb: "map_of (dm_channels db') k = Some cb'" "dyn_trail B cb sb cb'" using assms(13) by (auto simp: part_def)
  have w: "subseq (written (trail_calls sb) @ chan_txbuf cb') (chan_txbuf cb @ concat (map (frame_data k) fs))"
    using serial_trail(1) [OF cb(2) assms(4,14)] by (simp add: sb(2) routed_data)
  obtain frames where f: "prefix fs frames" "\<forall>(t, c, p) \<in> set frames. length p \<le> MAX_PAYLOAD"
    "subseq (map (enc (env_crc A)) frames) (enqueued (session (io_log ioa)))"
    using read_frames [OF assms(1) started_reachable [OF assms(2)] assms(3-10)] link_taken_subseq by metis
  have "subseq (concat (map (frame_data k) fs)) (concat (map (frame_data k) frames))"
    using f(1) by (intro subseq_concat_map prefix_imp_subseq)
  moreover have "subseq (concat (map (frame_data k) frames)) (data_out k (io_log ioa))"
    using subseq_order.trans [OF subseq_concat_map [OF f(3), of "data_of k"] data_session] enc_data [OF f(2)] by simp
  ultimately have "subseq (concat (map (frame_data k) fs)) (trail_received A chan_port sa)"
    using sa(2) subseq_order.trans by blast
  then have "subseq (chan_txbuf cb @ concat (map (frame_data k) fs)) (chan_txbuf cb @ trail_received A chan_port sa)"
    by (simp add: subseq_append')
  from subseq_order.trans [OF w this] sa(1) sb cb(1) show ?thesis by blast
qed

text \<open>A daemon with a PTY that has written its hello, and one with a PTY of the same id that has read it.\<close>

theorem serial_relayed_witness:
  "\<exists>da ioa db iob fs db' iob'. started example_env (fst example_daemon) (snd example_daemon) da ioa \<and> reachable hello_env db iob
     \<and> link_run hello_env (tokens_of (dm_channels db)) [link_out (session (io_log ioa))] fs db iob db' iob' \<and> fs \<noteq> []
     \<and> (\<exists>sa sb cb'. part example_env 2 sa (fst example_daemon) (snd example_daemon) da ioa \<and> part hello_env 2 sb db iob db' iob'
          \<and> given sb = concat (map (routed 2) fs) \<and> map_of (dm_channels db') 2 = Some cb'
          \<and> subseq (written (trail_calls sb) @ chan_txbuf cb') (trail_received example_env chan_port sa))"
proof -
  let ?c = "DPty (fst (pty_new 2 ''/tmp/k1'' 115200 io_new))"
  obtain da ioa where a: "started example_env (fst example_daemon) (snd example_daemon) da ioa" "dm_link_fd da \<noteq> None"
    "link_out (session (io_log ioa)) = build_frame crc32_buf F_HELLO 0 []" using hello_written by blast
  obtain db iob fs db' iob' where b: "reachable hello_env db iob" "dm_link_fd db \<noteq> None" "fp_view (dm_parser db) = []"
    "link_run hello_env (tokens_of (dm_channels db)) [link_out (session (io_log ioa))] fs db iob db' iob'" "fs \<noteq> []"
    "dm_channels db = collect_channels example_channels"
    using hello_run unfolding a(3) by blast
  have crc: "env_crc example_env = env_crc hello_env" by (simp add: hello_crc example_env_def)
  have p: "prefix (concat [link_out (session (io_log ioa))]) (link_out (session (io_log ioa)))" by simp
  have c: "map_of (dm_channels (fst example_daemon)) 2 = Some ?c" "map_of (dm_channels db) 2 = Some ?c" "serial ?c" "chan_txbuf ?c = []"
    using b(6) by (simp_all add: daemon_new_def now_def pty_new_def Let_def)
  from serial_relayed [OF example_env_ok a(1,2) hello_env_ok b(1-3) crc b(4) p c(1,3,2,3)]
  have "\<exists>sa sb cb'. part example_env 2 sa (fst example_daemon) (snd example_daemon) da ioa \<and> part hello_env 2 sb db iob db' iob'
          \<and> given sb = concat (map (routed 2) fs) \<and> map_of (dm_channels db') 2 = Some cb'
          \<and> subseq (written (trail_calls sb) @ chan_txbuf cb') (trail_received example_env chan_port sa)"
    unfolding c(4) append_Nil .
  with a(1) b(1,4,5) show ?thesis by blast
qed

end
