(* ===== verification/Rust_Str.thy ===== *)
theory Rust_Str
  imports Prelude
begin

text \<open>
  The functions of Rust's \<open>str\<close> that the command lines use.  A string is the list of its UTF-8
  bytes; every function here only looks for ASCII characters, for which that makes no
  difference.
\<close>

text \<open>\<open>str::split\<close> at a character, and \<open>str::split_once\<close>.\<close>

fun split_on :: "char \<Rightarrow> string \<Rightarrow> string list" where
  "split_on sep [] = [[]]"
| "split_on sep (c # cs) =
     (if c = sep then [] # split_on sep cs
      else (c # hd (split_on sep cs)) # tl (split_on sep cs))"

definition split_once :: "char \<Rightarrow> string \<Rightarrow> (string \<times> string) option" where
  "split_once sep s = map_option (\<lambda>i. (take i s, drop (i + 1) s)) (position sep s)"

text \<open>\<open>str::parse\<close> at an unsigned integer type with the largest value \<open>m\<close>: an optional \<open>+\<close>, then
  at least one decimal digit; the value is computed with checked multiplication and addition.\<close>

definition to_digit :: "char \<Rightarrow> nat option" where
  "to_digit c = (let n = of_char c in if 48 \<le> n \<and> n \<le> 57 then Some (n - 48) else None)"

fun parse_digits :: "nat \<Rightarrow> nat \<Rightarrow> string \<Rightarrow> nat option" where
  "parse_digits m acc [] = Some acc"
| "parse_digits m acc (c # cs) = do {
     d \<leftarrow> to_digit c;
     if acc * 10 > m then None
     else if acc * 10 + d > m then None
     else parse_digits m (acc * 10 + d) cs
   }"

definition parse_uint :: "nat \<Rightarrow> string \<Rightarrow> nat option" where
  "parse_uint m s =
     (if s = [] \<or> s = ''+'' \<or> s = ''-'' then None
      else if hd s = CHR ''+'' then parse_digits m 0 (tl s)
      else parse_digits m 0 s)"

definition parse_u8 :: "string \<Rightarrow> u8 option" where
  "parse_u8 s = map_option of_nat (parse_uint 255 s)"

definition parse_u16 :: "string \<Rightarrow> u16 option" where
  "parse_u16 s = map_option of_nat (parse_uint 65535 s)"

definition parse_u32 :: "string \<Rightarrow> u32 option" where
  "parse_u32 s = map_option of_nat (parse_uint 4294967295 s)"

definition is_ascii_hexdigit :: "char \<Rightarrow> bool" where
  "is_ascii_hexdigit c \<longleftrightarrow>
     (let n = of_char c :: nat in 48 \<le> n \<and> n \<le> 57 \<or> 65 \<le> n \<and> n \<le> 70 \<or> 97 \<le> n \<and> n \<le> 102)"

definition to_lowercase :: "char \<Rightarrow> char" where
  "to_lowercase c = (let n = of_char c :: nat in if 65 \<le> n \<and> n \<le> 90 then char_of (n + 32) else c)"


section \<open>Splitting and joining\<close>

fun join :: "char \<Rightarrow> string list \<Rightarrow> string" where
  "join sep [] = []"
| "join sep [x] = x"
| "join sep (x # y # xs) = x @ sep # join sep (y # xs)"

lemma split_on_ne [simp]: "split_on sep s \<noteq> []"
  by (cases s) auto

lemma split_on_plain: "sep \<notin> set s \<Longrightarrow> split_on sep s = [s]"
  by (induction s) auto

lemma split_on_append: "sep \<notin> set s \<Longrightarrow> split_on sep (s @ sep # t) = s # split_on sep t"
  by (induction s) auto

lemma split_join: "ps \<noteq> [] \<Longrightarrow> \<forall>p \<in> set ps. sep \<notin> set p \<Longrightarrow> split_on sep (join sep ps) = ps"
  by (induction ps rule: join.induct) (simp_all add: split_on_plain split_on_append)

lemma join_Cons: "ps \<noteq> [] \<Longrightarrow> join sep ((c # p) # ps) = c # join sep (p # ps)"
  by (cases ps) auto

lemma join_split: "join sep (split_on sep s) = s"
proof (induction s)
  case (Cons c s)
  obtain p ps where "split_on sep s = p # ps" by (cases "split_on sep s") auto
  then show ?case using Cons by (cases ps) auto
qed simp

lemma split_on_parts: "p \<in> set (split_on sep s) \<Longrightarrow> sep \<notin> set p"
proof (induction s arbitrary: p)
  case (Cons c s)
  then show ?case by (cases "split_on sep s") (auto split: if_splits)
qed auto

lemma split_once_Some:
  "split_once sep s = Some (a, b) \<longleftrightarrow> s = a @ sep # b \<and> sep \<notin> set a"
proof
  assume "split_once sep s = Some (a, b)"
  then obtain i where "position sep s = Some i" "a = take i s" "b = drop (Suc i) s"
    by (auto simp: split_once_def)
  with position_split [of sep s i] show "s = a @ sep # b \<and> sep \<notin> set a" by simp
next
  assume "s = a @ sep # b \<and> sep \<notin> set a"
  then have "position sep s = Some (length a)" "s = a @ sep # b"
    by (auto simp: position_Some_iff nth_append)
  then show "split_once sep s = Some (a, b)" by (simp add: split_once_def)
qed


section \<open>Printing and parsing of numbers\<close>

definition digit :: "nat \<Rightarrow> char" where
  "digit d = char_of (48 + d)"

function show_nat :: "nat \<Rightarrow> string" where
  "show_nat n = (if n < 10 then [digit n] else show_nat (n div 10) @ [digit (n mod 10)])"
  by pat_completeness auto
termination
  by (relation "measure id") auto

declare show_nat.simps [simp del]

lemma of_char_digit: "d < 10 \<Longrightarrow> of_char (digit d) = 48 + d"
  by (simp add: digit_def)

lemma to_digit_digit [simp]: "d < 10 \<Longrightarrow> to_digit (digit d) = Some d"
  by (simp add: to_digit_def of_char_digit)

lemma parse_digits_append:
  "parse_digits m acc (xs @ ys) = parse_digits m acc xs \<bind> (\<lambda>a. parse_digits m a ys)"
  by (induction xs arbitrary: acc) (auto split: bind_splits)

lemma parse_digits_show: "n \<le> m \<Longrightarrow> parse_digits m 0 (show_nat n) = Some n"
proof (induction n rule: show_nat.induct)
  case (1 n)
  show ?case
  proof (cases "n < 10")
    case True
    then show ?thesis using 1 by (subst show_nat.simps) simp
  next
    case False
    with 1 have "parse_digits m 0 (show_nat (n div 10)) = Some (n div 10)" by simp
    then show ?thesis using 1 False by (subst show_nat.simps) (simp add: parse_digits_append)
  qed
qed

lemma show_nat_digits: "c \<in> set (show_nat n) \<Longrightarrow> \<exists>d < 10. c = digit d"
proof (induction n rule: show_nat.induct)
  case (1 n)
  show ?case
  proof (cases "n < 10")
    case True
    then show ?thesis using 1 by (auto simp: show_nat.simps [of n])
  next
    case False
    then have "c \<in> set (show_nat (n div 10)) \<or> c = digit (n mod 10)"
      using 1(2) by (auto simp: show_nat.simps [of n])
    moreover have "n mod 10 < 10" by simp
    ultimately show ?thesis using 1(1) [OF False] by blast
  qed
qed

lemma digit_not:
  assumes "\<not> (48 \<le> (of_char c :: nat) \<and> (of_char c :: nat) \<le> 57)"
  shows "c \<notin> set (show_nat n)"
proof
  assume "c \<in> set (show_nat n)"
  from show_nat_digits [OF this] obtain d where d: "d < 10" "c = digit d" by blast
  with assms of_char_digit [OF d(1)] show False by simp
qed

lemma show_nat_ne [simp]: "show_nat n \<noteq> []"
  by (subst show_nat.simps) auto

lemma show_nat_plain [simp]: "CHR '':'' \<notin> set (show_nat n)" "CHR ''+'' \<notin> set (show_nat n)" "CHR ''-'' \<notin> set (show_nat n)"
  by (simp_all add: digit_not)

lemma parse_uint_show: "n \<le> m \<Longrightarrow> parse_uint m (show_nat n) = Some n"
proof -
  have "hd (show_nat n) \<in> set (show_nat n)" by simp
  then have "hd (show_nat n) \<noteq> CHR ''+''" "hd (show_nat n) \<noteq> CHR ''-''" using show_nat_plain by metis+
  then have "show_nat n \<noteq> ''+''" "show_nat n \<noteq> ''-''" by (metis list.sel(1))+
  then show "n \<le> m \<Longrightarrow> ?thesis" using \<open>hd (show_nat n) \<noteq> CHR ''+''\<close> by (simp add: parse_uint_def parse_digits_show)
qed

lemma parse_digits_le: "parse_digits m acc s = Some n \<Longrightarrow> acc \<le> m \<Longrightarrow> n \<le> m"
  by (induction s arbitrary: acc) (auto split: bind_splits if_splits)

lemma parse_uint_le: "parse_uint m s = Some n \<Longrightarrow> n \<le> m"
  by (auto simp: parse_uint_def dest: parse_digits_le split: if_splits)

text \<open>The printed form of a word is parsed back.\<close>

lemma parse_show [simp]:
  "parse_u8 (show_nat (unat (a :: u8))) = Some a"
  "parse_u16 (show_nat (unat (b :: u16))) = Some b"
  "parse_u32 (show_nat (unat (c :: u32))) = Some c"
  using unsigned_less [of a, where 'a = nat] unsigned_less [of b, where 'a = nat] unsigned_less [of c, where 'a = nat]
  by (simp_all add: parse_u8_def parse_u16_def parse_u32_def parse_uint_show)

section \<open>What the parsers of numbers accept\<close>

text \<open>A number is an optional \<open>+\<close> and at least one decimal digit; there may be leading zeros.\<close>

lemma to_digit_Some: "to_digit c = Some d \<longleftrightarrow> d < 10 \<and> c = digit d"
proof
  assume "to_digit c = Some d"
  then have "48 \<le> (of_char c :: nat)" "(of_char c :: nat) \<le> 57" "d = of_char c - 48" by (auto simp: to_digit_def Let_def split: if_splits)
  then have "d < 10" "48 + d = of_char c" by auto
  then show "d < 10 \<and> c = digit d" by (simp add: digit_def)
qed simp

abbreviation digits_value :: "nat \<Rightarrow> nat list \<Rightarrow> nat" where
  "digits_value \<equiv> foldl (\<lambda>a d. 10 * a + d)"

definition decimal :: "string \<Rightarrow> nat \<Rightarrow> bool" where
  "decimal s n \<longleftrightarrow> (\<exists>ds. ds \<noteq> [] \<and> (\<forall>d \<in> set ds. d < 10) \<and> (s = map digit ds \<or> s = CHR ''+'' # map digit ds)
     \<and> n = digits_value 0 ds)"

lemma digits_value_ge: "a \<le> digits_value a ds"
proof (induction ds arbitrary: a)
  case (Cons d ds)
  from Cons [of "10 * a + d"] show ?case by simp
qed simp

lemma parse_digits_digits:
  "\<forall>d \<in> set ds. d < 10 \<Longrightarrow> digits_value acc ds \<le> m \<Longrightarrow> parse_digits m acc (map digit ds) = Some (digits_value acc ds)"
proof (induction ds arbitrary: acc)
  case (Cons d ds)
  have "acc * 10 + d \<le> m" using digits_value_ge [of "10 * acc + d" ds] Cons.prems(2) by (simp add: mult.commute)
  then show ?case using Cons by (simp add: mult.commute)
qed simp

lemma parse_digits_Some:
  "parse_digits m acc s = Some n \<Longrightarrow> acc \<le> m \<Longrightarrow>
   \<exists>ds. s = map digit ds \<and> (\<forall>d \<in> set ds. d < 10) \<and> n = digits_value acc ds \<and> n \<le> m"
proof (induction s arbitrary: acc)
  case (Cons c s)
  then obtain d where d: "to_digit c = Some d" "acc * 10 + d \<le> m" "parse_digits m (acc * 10 + d) s = Some n"
    by (auto split: bind_splits if_splits)
  from Cons.IH [OF d(3,2)] obtain ds where "s = map digit ds" "\<forall>d \<in> set ds. d < 10" "n = digits_value (acc * 10 + d) ds" "n \<le> m"
    by blast
  then show ?case using d(1) by (intro exI [of _ "d # ds"]) (auto simp: to_digit_Some mult.commute)
qed simp

lemma digit_not_sign: "d < 10 \<Longrightarrow> digit d \<noteq> CHR ''+'' \<and> digit d \<noteq> CHR ''-'' \<and> digit d \<noteq> CHR '':''"
  using of_char_digit [of d] by auto

lemma parse_uint_iff: "parse_uint m s = Some n \<longleftrightarrow> decimal s n \<and> n \<le> m"
proof
  assume p: "parse_uint m s = Some n"
  then have ne: "s \<noteq> []" "s \<noteq> ''+''" by (auto simp: parse_uint_def)
  show "decimal s n \<and> n \<le> m"
  proof (cases "hd s = CHR ''+''")
    case True
    then have s: "s = CHR ''+'' # tl s" "tl s \<noteq> []" using ne by (cases s; simp)+
    have "parse_digits m 0 (tl s) = Some n" using p True by (auto simp: parse_uint_def split: if_splits)
    from parse_digits_Some [OF this] s show ?thesis by (force simp: decimal_def)
  next
    case False
    then have "parse_digits m 0 s = Some n" using p by (auto simp: parse_uint_def split: if_splits)
    from parse_digits_Some [OF this] ne(1) show ?thesis by (force simp: decimal_def)
  qed
next
  assume d: "decimal s n \<and> n \<le> m"
  then obtain ds where ds: "ds \<noteq> []" "\<forall>d \<in> set ds. d < 10" "s = map digit ds \<or> s = CHR ''+'' # map digit ds"
    "n = digits_value 0 ds" unfolding decimal_def by blast
  obtain e es where e: "ds = e # es" using ds(1) by (cases ds) auto
  have "digit e \<noteq> CHR ''+'' \<and> digit e \<noteq> CHR ''-''" using digit_not_sign [of e] ds(2) e by simp
  moreover have "parse_digits m 0 (map digit ds) = Some n" using parse_digits_digits [OF ds(2), of 0 m] ds(4) d by simp
  ultimately show "parse_uint m s = Some n" using ds(3) unfolding e by (auto simp: parse_uint_def simp del: parse_digits.simps)
qed

lemma parse_word_iff:
  "parse_u8 s = Some a \<longleftrightarrow> decimal s (unat a)" "parse_u16 s = Some b \<longleftrightarrow> decimal s (unat b)"
  "parse_u32 s = Some c \<longleftrightarrow> decimal s (unat c)"
proof -
  have *: "(\<exists>n. parse_uint (2 ^ LENGTH('l::len) - 1) s = Some n \<and> w = of_nat n) \<longleftrightarrow> decimal s (unat w)" for w :: "'l::len word"
  proof
    assume "\<exists>n. parse_uint (2 ^ LENGTH('l) - 1) s = Some n \<and> w = of_nat n"
    then obtain n where n: "decimal s n" "n \<le> 2 ^ LENGTH('l) - 1" "w = of_nat n" by (auto simp: parse_uint_iff)
    have "0 < (2 :: nat) ^ LENGTH('l)" by simp
    then have "n < 2 ^ LENGTH('l)" using n(2) by linarith
    then have "unat w = n" using n(3) by (simp add: unat_of_nat)
    then show "decimal s (unat w)" using n by simp
  next
    assume "decimal s (unat w)"
    moreover have "unat w \<le> 2 ^ LENGTH('l) - 1" using unsigned_less [of w, where 'a = nat] by linarith
    ultimately show "\<exists>n. parse_uint (2 ^ LENGTH('l) - 1) s = Some n \<and> w = of_nat n"
      by (intro exI [of _ "unat w"]) (simp add: parse_uint_iff)
  qed
  show "parse_u8 s = Some a \<longleftrightarrow> decimal s (unat a)" "parse_u16 s = Some b \<longleftrightarrow> decimal s (unat b)"
    "parse_u32 s = Some c \<longleftrightarrow> decimal s (unat c)"
    using * [of a] * [of b] * [of c] by (auto simp: parse_u8_def parse_u16_def parse_u32_def)
qed

end
