(* ===== verification/Discovery.thy ===== *)
theory Discovery
  imports Serial
begin

text \<open>
  \<open>wait_for_acm\<close> (\<^verbatim>\<open>serial.rs\<close> and, with an asynchronous sleep, \<^verbatim>\<open>windlass/mod.rs\<close>): look for the USB
  device every half second until it is there.  The loop may run for ever, so it is a
  \<open>partial_function\<close> whose value \<open>None\<close> is not returning.  The times of its log messages are
  part of the result.  The sleep of half a second between two looks is not an operation of the model: it shows only in
  how far the clock of the environment has moved on.
\<close>

partial_function (option) wait_loop ::
  "env \<Rightarrow> string \<Rightarrow> string \<Rightarrow> int \<Rightarrow> instant list \<Rightarrow> io \<Rightarrow> (string \<times> instant list \<times> io) option" where
  "wait_loop E vid pid last_log logs io =
     (case find_acm_by_usb_id (env_sysfs E (io_n io)) vid pid of
        Some dev \<Rightarrow> Some (dev, logs, next_call io)
      | None \<Rightarrow>
          let (t, io) = now E (next_call io) in
          if int t - last_log \<ge> int (from_secs 10)
          then wait_loop E vid pid (int t) (logs @ [t]) io
          else wait_loop E vid pid last_log logs io)"

definition wait_for_acm :: "env \<Rightarrow> string \<Rightarrow> string \<Rightarrow> io \<Rightarrow> (string \<times> instant list \<times> io) option" where
  "wait_for_acm E vid pid io =
     (let (t, io) = now E io in wait_loop E vid pid (int t - int (from_secs 11)) [] io)"


section \<open>The loop returns the first device\<close>

text \<open>What the \<open>k\<close>-th look at the file system finds, for a loop entered at call \<open>n\<close>: each turn
  makes two calls.\<close>

definition looked_up :: "env \<Rightarrow> string \<Rightarrow> string \<Rightarrow> nat \<Rightarrow> nat \<Rightarrow> string option" where
  "looked_up E vid pid n k = find_acm_by_usb_id (env_sysfs E (n + 2 * k)) vid pid"

lemma wait_loop_step:
  "looked_up E vid pid (io_n io) 0 = Some dev \<Longrightarrow>
     wait_loop E vid pid last_log logs io = Some (dev, logs, next_call io)"
  "looked_up E vid pid (io_n io) 0 = None \<Longrightarrow> t = env_now E (io_n io + 1) \<Longrightarrow>
     wait_loop E vid pid last_log logs io =
       (if int t - last_log \<ge> int (from_secs 10)
        then wait_loop E vid pid (int t) (logs @ [t]) (next_call (next_call io))
        else wait_loop E vid pid last_log logs (next_call (next_call io)))"
  by (subst wait_loop.simps; simp add: looked_up_def now_def)+

text \<open>Messages at least ten seconds apart.\<close>

definition spaced :: "instant list \<Rightarrow> bool" where
  "spaced ts \<longleftrightarrow> sorted_wrt (\<lambda>a b. a + from_secs 10 \<le> b) ts"

lemma wait_loop_returns:
  assumes "looked_up E vid pid (io_n io) k = Some dev" "\<forall>j < k. looked_up E vid pid (io_n io) j = None"
    and "spaced logs" "\<forall>t \<in> set logs. int t \<le> last_log"
  shows "\<exists>logs' io'. wait_loop E vid pid last_log logs io = Some (dev, logs @ logs', io')
     \<and> io_log io' = io_log io \<and> io_txq io' = io_txq io \<and> spaced (logs @ logs')
     \<and> io_n io' = io_n io + 2 * k + 1"
  using assms
proof (induction k arbitrary: io last_log logs)
  case 0
  then show ?case by (intro exI [of _ "[]"]) (simp add: wait_loop_step)
next
  case (Suc k)
  let ?io = "next_call (next_call io)" and ?t = "env_now E (io_n io + 1)"
  have shift: "looked_up E vid pid (io_n ?io) j = looked_up E vid pid (io_n io) (Suc j)" for j
    by (simp add: looked_up_def)
  have first: "looked_up E vid pid (io_n io) 0 = None" using Suc.prems(2) by simp
  have found: "looked_up E vid pid (io_n ?io) k = Some dev" "\<forall>j < k. looked_up E vid pid (io_n ?io) j = None"
    using Suc.prems(1,2) unfolding shift by simp_all
  show ?case
  proof (cases "int ?t - last_log \<ge> int (from_secs 10)")
    case True
    then have "\<forall>s \<in> set logs. s + from_secs 10 \<le> ?t" using Suc.prems(4) by force
    then have sp: "spaced (logs @ [?t])" using Suc.prems(3) by (simp add: spaced_def sorted_wrt_append)
    have "\<forall>s \<in> set (logs @ [?t]). int s \<le> int ?t" using \<open>\<forall>s \<in> set logs. s + from_secs 10 \<le> ?t\<close> by force
    from Suc.IH [OF found sp this] show ?thesis
      using wait_loop_step(2) [OF first refl] True by fastforce
  next
    case False
    with Suc.IH [OF found Suc.prems(3,4)] show ?thesis
      using wait_loop_step(2) [OF first refl] by fastforce
  qed
qed

lemma wait_loop_found:
  "wait_loop E vid pid last_log logs io = Some r \<Longrightarrow> \<exists>k. looked_up E vid pid (io_n io) k \<noteq> None"
proof (induction rule: wait_loop.raw_induct [rotated, consumes 1])
  case (1 f E vid pid last_log logs io r)
  show ?case
  proof (cases "looked_up E vid pid (io_n io) 0")
    case None
    let ?io = "next_call (next_call io)"
    from None 1(2) obtain l ls where "f E vid pid l ls ?io = Some r"
      by (auto simp: looked_up_def now_def split: if_splits)
    from 1(1) [OF this] obtain k where "looked_up E vid pid (io_n ?io) k \<noteq> None" by blast
    moreover have "looked_up E vid pid (io_n ?io) k = looked_up E vid pid (io_n io) (Suc k)"
      by (simp add: looked_up_def)
    ultimately show ?thesis by metis
  qed (metis option.distinct(1))
qed

lemma first_look:
  assumes "looked_up E vid pid n k \<noteq> None"
  obtains j dev where "looked_up E vid pid n j = Some dev" "\<forall>i < j. looked_up E vid pid n i = None"
  using exists_least_iff [of "\<lambda>k. looked_up E vid pid n k \<noteq> None"] assms by auto

lemma wait_for_acm_ends:
  assumes "looked_up E vid pid (io_n io + 1) k = Some dev" "\<forall>j < k. looked_up E vid pid (io_n io + 1) j = None"
  shows "\<exists>logs io'. wait_for_acm E vid pid io = Some (dev, logs, io') \<and> spaced logs
     \<and> io_log io' = io_log io \<and> io_txq io' = io_txq io \<and> io_n io' = io_n io + 2 * k + 2"
proof -
  have "looked_up E vid pid (io_n (next_call io)) k = Some dev"
    "\<forall>j < k. looked_up E vid pid (io_n (next_call io)) j = None" using assms by simp_all
  from wait_loop_returns [OF this, of "[]"] show ?thesis
    by (fastforce simp: wait_for_acm_def now_def spaced_def)
qed

text \<open>Not returning is waiting for a device that never appears.\<close>

lemma wait_for_acm_None_iff:
  "wait_for_acm E vid pid io = None \<longleftrightarrow> (\<forall>k. looked_up E vid pid (io_n io + 1) k = None)"
proof -
  have "wait_for_acm E vid pid io \<noteq> None" if "looked_up E vid pid (io_n io + 1) k \<noteq> None" for k
    using first_look [OF that] wait_for_acm_ends [of E vid pid io] by (metis option.distinct(1))
  moreover have "\<exists>k. looked_up E vid pid (io_n io + 1) k \<noteq> None" if "wait_for_acm E vid pid io = Some r" for r
    using that wait_loop_found [of E vid pid _ _ "next_call io" r] by (auto simp: wait_for_acm_def now_def)
  ultimately show ?thesis by (metis not_Some_eq)
qed

text \<open>C25: waiting for the USB device ends as soon as it is there: if the \<open>k\<close>-th look is the first
  that finds a device, \<open>wait_for_acm\<close> returns that device after exactly \<open>k + 1\<close> looks, has made
  no other call, and its log messages are at least ten seconds apart.\<close>

theorem wait_for_acm_returns:
  assumes "looked_up E vid pid (io_n io + 1) k = Some dev"
    and "\<forall>j < k. looked_up E vid pid (io_n io + 1) j = None"
  shows "\<exists>logs io'. wait_for_acm E vid pid io = Some (dev, logs, io') \<and> spaced logs
     \<and> io_log io' = io_log io \<and> io_txq io' = io_txq io \<and> io_n io' = io_n io + 2 * k + 2"
  by (rule wait_for_acm_ends [OF assms])

text \<open>A machine on which the device appears at the third look.\<close>

definition example_usb :: sysfs where
  "example_usb = \<lparr>
     read_dir = (\<lambda>p. Some [Some ''tty0'', Some ''ttyACM0'']),
     canonicalize = (\<lambda>p. Some [''sys'', ''usb1'', ''tty'', ''ttyACM0'']),
     read_to_string = (\<lambda>p.
       if p = [''sys'', ''usb1'', ''idVendor''] then Some ''1d6b''
       else if p = [''sys'', ''usb1'', ''idProduct''] then Some ''0104'' else None)\<rparr>"

definition usb_env :: env where
  "usb_env = example_env\<lparr>env_sysfs := \<lambda>n. if n < 5 then env_sysfs example_env n else example_usb\<rparr>"

lemma usb_env_found:
  "looked_up usb_env ''1d6b'' ''0104'' 1 2 = Some ''/dev/ttyACM0''"
  "\<forall>j < 2. looked_up usb_env ''1d6b'' ''0104'' 1 j = None"
proof -
  show "looked_up usb_env ''1d6b'' ''0104'' 1 2 = Some ''/dev/ttyACM0''" by code_simp
  have "find_acm_by_usb_id (env_sysfs example_env n) ''1d6b'' ''0104'' = None" for n
    by (simp add: find_acm_by_usb_id_def example_env_def)
  then show "\<forall>j < 2. looked_up usb_env ''1d6b'' ''0104'' 1 j = None"
    by (simp add: looked_up_def usb_env_def)
qed

theorem wait_for_acm_returns_witness:
  "\<exists>logs io'. wait_for_acm usb_env ''1d6b'' ''0104'' io_new = Some (''/dev/ttyACM0'', logs, io') \<and> io_n io' = 6"
  using wait_for_acm_returns [of usb_env "''1d6b''" "''0104''" io_new 2 "''/dev/ttyACM0''"] usb_env_found
  by auto

end
