(* ===== verification/Cli.thy ===== *)
theory Cli
  imports Rust_Str Discovery Daemon
begin

text \<open>
  The command line of \<^verbatim>\<open>serialmux\<close> (\<^verbatim>\<open>main.rs\<close>): the parsers of the USB id and of the channel
  specifications, the check of the channel ids, the construction of the channels, and \<open>main\<close>.

  \<open>clap\<close> splits the command line; what it gives the program is the record \<open>cli_args\<close>, in which the
  USB id and the channel specifications are still the strings it runs the value parsers on.  The
  error texts are the constructors of \<open>cli_error\<close>.
\<close>

datatype channel_spec =
    McuExporter u8 string u32
  | McuHost u8 string u32
  | TcpExporter u8 string u16
  | TcpHost u8 string u16

datatype cli_error =
    UsbNotPair | UsbNotHex string
  | SpecTooShort | UnknownChannelType string | BadChannelId | ChannelIdTooLarge u8
  | NeedExporterMcu | NeedHostMcu | NeedTcp
  | BaudNotNumber | BaudNotStandard u32 | BadPort
  | DuplicateChannelId u8

record args =
  ar_mode :: string
  ar_link_dev :: "string option"
  ar_usb_id :: "(string \<times> string) option"
  ar_channels :: "channel_spec list"


section \<open>Value parsers\<close>

fun check_hex :: "(string \<times> string) list \<Rightarrow> cli_error option" where
  "check_hex [] = None"
| "check_hex ((part, name) # rest) =
     (if part = [] \<or> \<not> list_all is_ascii_hexdigit part then Some (UsbNotHex name) else check_hex rest)"

definition parse_usb_id :: "string \<Rightarrow> cli_error + (string \<times> string)" where
  "parse_usb_id val =
     (case split_once (CHR '':'') val of
        None \<Rightarrow> Inl UsbNotPair
      | Some (vid, pid) \<Rightarrow>
          (case check_hex [(vid, ''VID''), (pid, ''PID'')] of
             Some e \<Rightarrow> Inl e
           | None \<Rightarrow> Inr (map to_lowercase vid, map to_lowercase pid)))"

definition parse_standard_baud :: "string \<Rightarrow> u32 list \<Rightarrow> cli_error + u32" where
  "parse_standard_baud raw valid_bauds =
     (case parse_u32 raw of
        None \<Rightarrow> Inl BaudNotNumber
      | Some baud \<Rightarrow> if \<not> List.member valid_bauds baud then Inl (BaudNotStandard baud) else Inr baud)"

definition parse_tcp_port :: "string option \<Rightarrow> cli_error + u16" where
  "parse_tcp_port raw =
     (case raw of
        None \<Rightarrow> Inl NeedTcp
      | Some raw \<Rightarrow>
          (case parse_u16 raw of
             None \<Rightarrow> Inl BadPort
           | Some port \<Rightarrow> if port = 0 then Inl BadPort else Inr port))"

definition valid_bauds :: "u32 list" where
  "valid_bauds = [1200, 2400, 4800, 9600, 19200, 38400, 57600, 115200, 230400, 460800, 921600]"

text \<open>\<open>parts.get(i)\<close>\<close>

definition get :: "'a list \<Rightarrow> nat \<Rightarrow> 'a option" where
  "get xs i = (if i < length xs then Some (xs ! i) else None)"

text \<open>The modes are the two strings the callers pass; the last branch is \<open>unreachable!()\<close>.\<close>

definition parse_channel_spec :: "string \<Rightarrow> string \<Rightarrow> (cli_error + channel_spec) option" where
  "parse_channel_spec mode spec =
     (let parts = split_on (CHR '':'') spec in
      if length parts < 3 then Some (Inl SpecTooShort)
      else let kind = parts ! 0 in
      if kind \<noteq> ''mcu'' \<and> kind \<noteq> ''tcp'' then Some (Inl (UnknownChannelType kind))
      else case parse_u8 (parts ! 1) of
        None \<Rightarrow> Some (Inl BadChannelId)
      | Some cid \<Rightarrow>
          if cid > MAX_CHANNEL_ID then Some (Inl (ChannelIdTooLarge cid))
          else if kind = ''mcu'' \<and> mode = ''exporter'' then
            (if length parts \<noteq> 4 then Some (Inl NeedExporterMcu)
             else case parse_standard_baud (parts ! 3) valid_bauds of
               Inl e \<Rightarrow> Some (Inl e)
             | Inr baud \<Rightarrow> Some (Inr (McuExporter cid (parts ! 2) baud)))
          else if kind = ''mcu'' \<and> mode = ''host'' then
            (if length parts < 3 \<or> length parts > 4 then Some (Inl NeedHostMcu)
             else case (if length parts = 4 then parse_standard_baud (parts ! 3) valid_bauds else Inr 230400) of
               Inl e \<Rightarrow> Some (Inl e)
             | Inr baud \<Rightarrow> Some (Inr (McuHost cid (parts ! 2) baud)))
          else if kind = ''tcp'' \<and> mode = ''exporter'' then
            (case get parts 2 of
               None \<Rightarrow> Some (Inl NeedTcp)
             | Some addr \<Rightarrow>
                 (case parse_tcp_port (get parts 3) of
                    Inl e \<Rightarrow> Some (Inl e)
                  | Inr port \<Rightarrow> Some (Inr (TcpExporter cid addr port))))
          else if kind = ''tcp'' \<and> mode = ''host'' then
            (case get parts 2 of
               None \<Rightarrow> Some (Inl NeedTcp)
             | Some addr \<Rightarrow>
                 (case parse_tcp_port (get parts 3) of
                    Inl e \<Rightarrow> Some (Inl e)
                  | Inr port \<Rightarrow> Some (Inr (TcpHost cid addr port))))
          else None)"

definition parse_exporter_channel_spec :: "string \<Rightarrow> (cli_error + channel_spec) option" where
  "parse_exporter_channel_spec spec = parse_channel_spec ''exporter'' spec"

definition parse_host_channel_spec :: "string \<Rightarrow> (cli_error + channel_spec) option" where
  "parse_host_channel_spec spec = parse_channel_spec ''host'' spec"


section \<open>parse\_args\<close>

fun spec_id :: "channel_spec \<Rightarrow> u8" where
  "spec_id (McuExporter i _ _) = i"
| "spec_id (McuHost i _ _) = i"
| "spec_id (TcpExporter i _ _) = i"
| "spec_id (TcpHost i _ _) = i"

fun unique_ids :: "u8 set \<Rightarrow> channel_spec list \<Rightarrow> cli_error option" where
  "unique_ids seen_ids [] = None"
| "unique_ids seen_ids (ch # chs) =
     (if spec_id ch \<in> seen_ids then Some (DuplicateChannelId (spec_id ch))
      else unique_ids (insert (spec_id ch) seen_ids) chs)"

definition validate_unique_channel_ids :: "channel_spec list \<Rightarrow> cli_error option" where
  "validate_unique_channel_ids channels = unique_ids {} channels"

text \<open>What \<open>clap\<close> has read: the two subcommands have the same arguments.\<close>

record cli_args =
  ca_link_dev :: "string option"
  ca_usb_id :: "string option"
  ca_channels :: "string list"

datatype command = Exporter cli_args | Host cli_args

text \<open>The value parser of a repeated argument runs on each value; the first error ends the program.\<close>

fun parse_all :: "(string \<Rightarrow> (cli_error + 'a) option) \<Rightarrow> string list \<Rightarrow> (cli_error + 'a list) option" where
  "parse_all f [] = Some (Inr [])"
| "parse_all f (s # ss) = do {
     r \<leftarrow> f s;
     (case r of
        Inl e \<Rightarrow> Some (Inl e)
      | Inr x \<Rightarrow> do {
          rs \<leftarrow> parse_all f ss;
          Some (case rs of Inl e \<Rightarrow> Inl e | Inr xs \<Rightarrow> Inr (x # xs))
        })
   }"

definition parse_usb :: "string option \<Rightarrow> cli_error + (string \<times> string) option" where
  "parse_usb usb =
     (case usb of
        None \<Rightarrow> Inr None
      | Some s \<Rightarrow> (case parse_usb_id s of Inl e \<Rightarrow> Inl e | Inr u \<Rightarrow> Inr (Some u)))"

definition parse_command ::
  "string \<Rightarrow> (string \<Rightarrow> (cli_error + channel_spec) option) \<Rightarrow> cli_args \<Rightarrow> (cli_error + args) option" where
  "parse_command mode spec_parser a =
     (case parse_usb (ca_usb_id a) of
        Inl e \<Rightarrow> Some (Inl e)
      | Inr usb \<Rightarrow> do {
          cs \<leftarrow> parse_all spec_parser (ca_channels a);
          Some (case cs of
             Inl e \<Rightarrow> Inl e
           | Inr cs \<Rightarrow>
               (case validate_unique_channel_ids cs of
                  Some e \<Rightarrow> Inl e
                | None \<Rightarrow> Inr \<lparr>ar_mode = mode, ar_link_dev = ca_link_dev a, ar_usb_id = usb, ar_channels = cs\<rparr>))
        })"

fun parse_args :: "command \<Rightarrow> (cli_error + args) option" where
  "parse_args (Exporter a) = parse_command ''exporter'' parse_exporter_channel_spec a"
| "parse_args (Host a) = parse_command ''host'' parse_host_channel_spec a"


section \<open>Construction and main\<close>

datatype exit_reason = UsageError cli_error | PollFailed errno | BindFailed io_error

definition build_channel :: "env \<Rightarrow> channel_spec \<Rightarrow> io \<Rightarrow> ((exit_reason + chan) \<times> io) option" where
  "build_channel E spec io =
     (case spec of
        McuExporter i device baud \<Rightarrow> do {
          (ch, io) \<leftarrow> mcu_new E i device baud io;
          Some (Inr (DMcu ch), io)
        }
      | McuHost i symlink baud \<Rightarrow>
          (let (ch, io) = pty_new i symlink baud io in Some (Inr (DPty ch), io))
      | TcpExporter i bind_addr port \<Rightarrow> do {
          (r, io) \<leftarrow> src_new E i bind_addr port io;
          Some (case r of Inr ch \<Rightarrow> (Inr (DSrc ch), io) | Inl e \<Rightarrow> (Inl (BindFailed e), io))
        }
      | TcpHost i dest_addr port \<Rightarrow> Some (Inr (DDst (dst_new i dest_addr port)), io))"

fun build_channels :: "env \<Rightarrow> channel_spec list \<Rightarrow> io \<Rightarrow> ((exit_reason + chan list) \<times> io) option" where
  "build_channels E [] io = Some (Inr [], io)"
| "build_channels E (spec # specs) io = do {
     (r, io) \<leftarrow> build_channel E spec io;
     (case r of
        Inl e \<Rightarrow> Some (Inl e, io)
      | Inr ch \<Rightarrow> do {
          (rs, io) \<leftarrow> build_channels E specs io;
          Some (case rs of Inl e \<Rightarrow> Inl e | Inr chs \<Rightarrow> Inr (ch # chs), io)
        })
   }"

text \<open>The first look for the USB device and, when it is not there, the wait.\<close>

definition await_usb :: "env \<Rightarrow> (string \<times> string) option \<Rightarrow> io \<Rightarrow> io option" where
  "await_usb E usb io =
     (case usb of
        None \<Rightarrow> Some io
      | Some (vid, pid) \<Rightarrow>
          (case find_acm_by_usb_id (env_sysfs E (io_n io)) vid pid of
             Some dev \<Rightarrow> Some (next_call io)
           | None \<Rightarrow> do { (dev, logs, io) \<leftarrow> wait_for_acm E vid pid (next_call io); Some io }))"

text \<open>\<open>main\<close> up to the event loop; \<open>poll_new\<close> is the error of \<open>Poll::new\<close>, if any.  \<open>None\<close> is a
  panic or a wait that does not end.\<close>

definition main :: "env \<Rightarrow> errno option \<Rightarrow> command \<Rightarrow> io \<Rightarrow> ((exit_reason + daemon) \<times> io) option" where
  "main E poll_new cmd io = do {
     a \<leftarrow> parse_args cmd;
     (case a of
        Inl e \<Rightarrow> Some (Inl (UsageError e), io)
      | Inr a \<Rightarrow> do {
          io \<leftarrow> await_usb E (ar_usb_id a) io;
          (case poll_new of
             Some e \<Rightarrow> Some (Inl (PollFailed e), io)
           | None \<Rightarrow> do {
               (r, io) \<leftarrow> build_channels E (ar_channels a) io;
               (case r of
                  Inl e \<Rightarrow> Some (Inl e, io)
                | Inr channels \<Rightarrow> do {
                    let (d, io) = daemon_new E (ar_mode a) (ar_link_dev a) (ar_usb_id a) channels io;
                    (d, io) \<leftarrow> daemon_start E d io;
                    Some (Inr d, io)
                  })
             })
        })
   }"

end
