(* ===== verification/Cli_Props.thy ===== *)
theory Cli_Props
  imports Cli Daemon_Props
begin

text \<open>
  What the command line of \<^verbatim>\<open>serialmux\<close> guarantees to the daemon: exactly the valid channel
  specifications are accepted, the channels built from them satisfy what the event loop starts
  from, and \<open>main\<close> ends with a reported error or enters the event loop with every configured
  channel.
\<close>


section \<open>Channel specifications\<close>

text \<open>The specifications a mode can express: an id in the token range, a baud rate the serial layer
  supports, a port other than 0, and a name that the separator does not cut.\<close>

fun spec_valid :: "string \<Rightarrow> channel_spec \<Rightarrow> bool" where
  "spec_valid mode (McuExporter i device baud) \<longleftrightarrow>
     mode = ''exporter'' \<and> id_ok i \<and> CHR '':'' \<notin> set device \<and> baud_to_speed baud \<noteq> None"
| "spec_valid mode (McuHost i symlink baud) \<longleftrightarrow>
     mode = ''host'' \<and> id_ok i \<and> CHR '':'' \<notin> set symlink \<and> baud_to_speed baud \<noteq> None"
| "spec_valid mode (TcpExporter i addr port) \<longleftrightarrow>
     mode = ''exporter'' \<and> id_ok i \<and> CHR '':'' \<notin> set addr \<and> port \<noteq> 0"
| "spec_valid mode (TcpHost i addr port) \<longleftrightarrow>
     mode = ''host'' \<and> id_ok i \<and> CHR '':'' \<notin> set addr \<and> port \<noteq> 0"

fun print_spec :: "channel_spec \<Rightarrow> string" where
  "print_spec (McuExporter i device baud) =
     join (CHR '':'') [''mcu'', show_nat (unat i), device, show_nat (unat baud)]"
| "print_spec (McuHost i symlink baud) =
     join (CHR '':'') [''mcu'', show_nat (unat i), symlink, show_nat (unat baud)]"
| "print_spec (TcpExporter i addr port) =
     join (CHR '':'') [''tcp'', show_nat (unat i), addr, show_nat (unat port)]"
| "print_spec (TcpHost i addr port) =
     join (CHR '':'') [''tcp'', show_nat (unat i), addr, show_nat (unat port)]"

text \<open>The two tables of baud rates agree.\<close>

lemma valid_bauds_supported: "baud \<in> set valid_bauds \<longleftrightarrow> baud_to_speed baud \<noteq> None"
  by (auto simp: valid_bauds_def baud_to_speed_def)

lemma parse_standard_baud_Inr:
  "parse_standard_baud raw valid_bauds = Inr baud \<longleftrightarrow> decimal raw (unat baud) \<and> baud_to_speed baud \<noteq> None"
  by (auto simp: parse_standard_baud_def valid_bauds_supported parse_word_iff(3) [symmetric] split: option.splits if_splits)

lemma parse_tcp_port_Inr:
  "parse_tcp_port raw = Inr port \<longleftrightarrow> (\<exists>s. raw = Some s \<and> decimal s (unat port)) \<and> port \<noteq> 0"
  by (auto simp: parse_tcp_port_def parse_word_iff(2) [symmetric] split: option.splits if_splits)

text \<open>The syntax of the specifications that a mode accepts: fields joined by colons, none of which holds a colon.  A TCP
  specification may be followed by further fields, which are ignored.\<close>

inductive spec_syntax :: "string \<Rightarrow> string \<Rightarrow> channel_spec \<Rightarrow> bool" where
  mcu_exporter:
    "decimal i (unat c) \<Longrightarrow> unat c \<le> 62 \<Longrightarrow> CHR '':'' \<notin> set device \<Longrightarrow> decimal b (unat baud) \<Longrightarrow> baud_to_speed baud \<noteq> None
     \<Longrightarrow> spec_syntax ''exporter'' (join (CHR '':'') [''mcu'', i, device, b]) (McuExporter c device baud)"
| mcu_host:
    "decimal i (unat c) \<Longrightarrow> unat c \<le> 62 \<Longrightarrow> CHR '':'' \<notin> set symlink \<Longrightarrow> decimal b (unat baud) \<Longrightarrow> baud_to_speed baud \<noteq> None
     \<Longrightarrow> spec_syntax ''host'' (join (CHR '':'') [''mcu'', i, symlink, b]) (McuHost c symlink baud)"
| mcu_host_default:
    "decimal i (unat c) \<Longrightarrow> unat c \<le> 62 \<Longrightarrow> CHR '':'' \<notin> set symlink
     \<Longrightarrow> spec_syntax ''host'' (join (CHR '':'') [''mcu'', i, symlink]) (McuHost c symlink 230400)"
| tcp_exporter:
    "decimal i (unat c) \<Longrightarrow> unat c \<le> 62 \<Longrightarrow> CHR '':'' \<notin> set addr \<Longrightarrow> decimal p (unat port) \<Longrightarrow> port \<noteq> 0
     \<Longrightarrow> \<forall>x \<in> set ignored. CHR '':'' \<notin> set x
     \<Longrightarrow> spec_syntax ''exporter'' (join (CHR '':'') ([''tcp'', i, addr, p] @ ignored)) (TcpExporter c addr port)"
| tcp_host:
    "decimal i (unat c) \<Longrightarrow> unat c \<le> 62 \<Longrightarrow> CHR '':'' \<notin> set addr \<Longrightarrow> decimal p (unat port) \<Longrightarrow> port \<noteq> 0
     \<Longrightarrow> \<forall>x \<in> set ignored. CHR '':'' \<notin> set x
     \<Longrightarrow> spec_syntax ''host'' (join (CHR '':'') ([''tcp'', i, addr, p] @ ignored)) (TcpHost c addr port)"

lemma decimal_plain: "decimal s n \<Longrightarrow> CHR '':'' \<notin> set s"
  using digit_not_sign by (fastforce simp: decimal_def)

lemma channel_id_max: "\<not> MAX_CHANNEL_ID < c \<longleftrightarrow> unat c \<le> 62"
  by (simp add: MAX_CHANNEL_ID_def word_less_nat_alt not_less)

lemma spec_syntax_parsed:
  assumes "spec_syntax mode s c"
  shows "parse_channel_spec mode s = Some (Inr c)"
  using assms
proof (induction rule: spec_syntax.induct)
  case (mcu_exporter i c device b baud)
  then have "split_on (CHR '':'') (join (CHR '':'') [''mcu'', i, device, b]) = [''mcu'', i, device, b]"
    by (intro split_join) (auto dest: decimal_plain)
  then show ?case using mcu_exporter parse_standard_baud_Inr [of b baud] channel_id_max [of c]
    by (simp add: parse_channel_spec_def parse_word_iff(1) [symmetric] Let_def del: join.simps)
next
  case (mcu_host i c symlink b baud)
  then have "split_on (CHR '':'') (join (CHR '':'') [''mcu'', i, symlink, b]) = [''mcu'', i, symlink, b]"
    by (intro split_join) (auto dest: decimal_plain)
  then show ?case using mcu_host parse_standard_baud_Inr [of b baud] channel_id_max [of c]
    by (simp add: parse_channel_spec_def parse_word_iff(1) [symmetric] Let_def del: join.simps)
next
  case (mcu_host_default i c symlink)
  then have "split_on (CHR '':'') (join (CHR '':'') [''mcu'', i, symlink]) = [''mcu'', i, symlink]"
    by (intro split_join) (auto dest: decimal_plain)
  then show ?case using mcu_host_default channel_id_max [of c]
    by (simp add: parse_channel_spec_def parse_word_iff(1) [symmetric] Let_def del: join.simps)
next
  case (tcp_exporter i c addr p port ignored)
  then have "split_on (CHR '':'') (join (CHR '':'') ([''tcp'', i, addr, p] @ ignored)) = [''tcp'', i, addr, p] @ ignored"
    by (intro split_join) (auto dest: decimal_plain)
  then show ?case using tcp_exporter parse_tcp_port_Inr [of "Some p" port] channel_id_max [of c]
    by (simp add: parse_channel_spec_def get_def parse_word_iff(1) [symmetric] Let_def del: join.simps)
next
  case (tcp_host i c addr p port ignored)
  then have "split_on (CHR '':'') (join (CHR '':'') ([''tcp'', i, addr, p] @ ignored)) = [''tcp'', i, addr, p] @ ignored"
    by (intro split_join) (auto dest: decimal_plain)
  then show ?case using tcp_host parse_tcp_port_Inr [of "Some p" port] channel_id_max [of c]
    by (simp add: parse_channel_spec_def get_def parse_word_iff(1) [symmetric] Let_def del: join.simps)
qed

lemma parts_of:
  assumes "length ps = n" "3 \<le> n"
  shows "ps = [ps ! 0, ps ! 1, ps ! 2] @ drop 3 ps" "4 \<le> n \<Longrightarrow> ps = [ps ! 0, ps ! 1, ps ! 2, ps ! 3] @ drop 4 ps"
  using assms by (auto intro!: nth_equalityI simp: nth_Cons nth_append numeral_eq_Suc split: nat.splits)

lemma parsed_spec_syntax:
  assumes "parse_channel_spec mode s = Some (Inr c)"
  shows "spec_syntax mode s c"
proof -
  let ?ps = "split_on (CHR '':'') s"
  have s: "s = join (CHR '':'') ?ps" by (simp add: join_split)
  have plain: "CHR '':'' \<notin> set x" if "x \<in> set ?ps" for x using that by (rule split_on_parts)
  obtain cid where c: "3 \<le> length ?ps" "?ps ! 0 = ''mcu'' \<or> ?ps ! 0 = ''tcp''" "decimal (?ps ! 1) (unat cid)" "unat cid \<le> 62"
    and cases: "(?ps ! 0 = ''mcu'' \<and> mode = ''exporter'' \<and> length ?ps = 4
        \<and> (\<exists>baud. parse_standard_baud (?ps ! 3) valid_bauds = Inr baud \<and> c = McuExporter cid (?ps ! 2) baud))
      \<or> (?ps ! 0 = ''mcu'' \<and> mode = ''host'' \<and> length ?ps = 4
        \<and> (\<exists>baud. parse_standard_baud (?ps ! 3) valid_bauds = Inr baud \<and> c = McuHost cid (?ps ! 2) baud))
      \<or> (?ps ! 0 = ''mcu'' \<and> mode = ''host'' \<and> length ?ps = 3 \<and> c = McuHost cid (?ps ! 2) 230400)
      \<or> (?ps ! 0 = ''tcp'' \<and> mode = ''exporter'' \<and> (\<exists>port. parse_tcp_port (get ?ps 3) = Inr port \<and> c = TcpExporter cid (?ps ! 2) port))
      \<or> (?ps ! 0 = ''tcp'' \<and> mode = ''host'' \<and> (\<exists>port. parse_tcp_port (get ?ps 3) = Inr port \<and> c = TcpHost cid (?ps ! 2) port))"
  proof -
    have l: "3 \<le> length ?ps" "?ps ! 0 = ''mcu'' \<or> ?ps ! 0 = ''tcp''"
      using assms by (auto simp: parse_channel_spec_def Let_def split: if_splits)
    moreover obtain cid where i: "parse_u8 (?ps ! 1) = Some cid" "\<not> MAX_CHANNEL_ID < cid"
      using assms l by (auto simp: parse_channel_spec_def Let_def split: if_splits option.splits)
    ultimately have "mode = ''exporter'' \<or> mode = ''host''"
      using assms by (elim disjE) (auto simp: parse_channel_spec_def Let_def split: if_splits)
    with l(2) consider "?ps ! 0 = ''mcu''" "mode = ''exporter''" | "?ps ! 0 = ''mcu''" "mode = ''host''"
      | "?ps ! 0 = ''tcp''" "mode = ''exporter''" | "?ps ! 0 = ''tcp''" "mode = ''host''" by blast
    then show thesis
      by cases (rule that [of cid, OF l(1,2)],
         use assms i l(1) in \<open>auto simp: parse_channel_spec_def Let_def get_def [of _ 2] parse_word_iff(1) [symmetric]
           channel_id_max [symmetric] split: if_splits sum.splits\<close>)+
  qed
  have three: "?ps = [?ps ! 0, ?ps ! 1, ?ps ! 2] @ drop 3 ?ps" using parts_of(1) [OF refl c(1)] .
  have p2: "CHR '':'' \<notin> set (?ps ! 2)" using c(1) by (intro plain nth_mem) simp
  have four: "?ps = [?ps ! 0, ?ps ! 1, ?ps ! 2, ?ps ! 3] @ drop 4 ?ps" if "4 \<le> length ?ps" using parts_of(2) [OF refl c(1) that] .
  have rest: "\<forall>x \<in> set (drop 4 ?ps). CHR '':'' \<notin> set x" using plain by (meson in_set_dropD)
  consider (me) baud where "?ps ! 0 = ''mcu''" "mode = ''exporter''" "length ?ps = 4" "decimal (?ps ! 3) (unat baud)"
      "baud_to_speed baud \<noteq> None" "c = McuExporter cid (?ps ! 2) baud"
    | (mh) baud where "?ps ! 0 = ''mcu''" "mode = ''host''" "length ?ps = 4" "decimal (?ps ! 3) (unat baud)"
      "baud_to_speed baud \<noteq> None" "c = McuHost cid (?ps ! 2) baud"
    | (md) "?ps ! 0 = ''mcu''" "mode = ''host''" "length ?ps = 3" "c = McuHost cid (?ps ! 2) 230400"
    | (te) port where "?ps ! 0 = ''tcp''" "mode = ''exporter''" "4 \<le> length ?ps" "decimal (?ps ! 3) (unat port)" "port \<noteq> 0"
      "c = TcpExporter cid (?ps ! 2) port"
    | (th) port where "?ps ! 0 = ''tcp''" "mode = ''host''" "4 \<le> length ?ps" "decimal (?ps ! 3) (unat port)" "port \<noteq> 0"
      "c = TcpHost cid (?ps ! 2) port"
    using cases unfolding parse_standard_baud_Inr parse_tcp_port_Inr get_def by (fastforce split: if_splits)
  then show ?thesis
  proof cases
    case me
    then have "s = join (CHR '':'') [''mcu'', ?ps ! 1, ?ps ! 2, ?ps ! 3]" using s four by simp
    then show ?thesis using mcu_exporter [OF c(3,4) p2 me(4,5)] me(2,6) by simp
  next
    case mh
    then have "s = join (CHR '':'') [''mcu'', ?ps ! 1, ?ps ! 2, ?ps ! 3]" using s four by simp
    then show ?thesis using mcu_host [OF c(3,4) p2 mh(4,5)] mh(2,6) by simp
  next
    case md
    then have "s = join (CHR '':'') [''mcu'', ?ps ! 1, ?ps ! 2]" using s three by simp
    then show ?thesis using mcu_host_default [OF c(3,4) p2] md(2,4) by simp
  next
    case te
    then have "s = join (CHR '':'') ([''tcp'', ?ps ! 1, ?ps ! 2, ?ps ! 3] @ drop 4 ?ps)" using s four by simp
    then show ?thesis using tcp_exporter [OF c(3,4) p2 te(4,5) rest] te(2,6) by simp
  next
    case th
    then have "s = join (CHR '':'') ([''tcp'', ?ps ! 1, ?ps ! 2, ?ps ! 3] @ drop 4 ?ps)" using s four by simp
    then show ?thesis using tcp_host [OF c(3,4) p2 th(4,5) rest] th(2,6) by simp
  qed
qed

lemma spec_part: "i < length (split_on sep s) \<Longrightarrow> sep \<notin> set (split_on sep s ! i)"
  by (rule split_on_parts [of _ sep s]) simp

lemma parse_channel_spec_total:
  "mode \<in> {''exporter'', ''host''} \<Longrightarrow> parse_channel_spec mode spec \<noteq> None"
  by (auto simp: parse_channel_spec_def Let_def split: option.splits sum.splits)

lemma parse_channel_spec_syntax: "parse_channel_spec mode s = Some (Inr c) \<longleftrightarrow> spec_syntax mode s c"
  using spec_syntax_parsed parsed_spec_syntax by blast

lemma spec_syntax_valid: "spec_syntax mode s c \<Longrightarrow> spec_valid mode c"
  by (induction rule: spec_syntax.induct) (simp_all add: id_ok_unat baud_to_speed_def [of 230400])

lemma parse_channel_spec_valid: "parse_channel_spec mode s = Some (Inr c) \<Longrightarrow> spec_valid mode c"
  using spec_syntax_valid by (simp add: parse_channel_spec_syntax)

lemma decimal_show: "decimal (show_nat (unat (a :: u8))) (unat a)" "decimal (show_nat (unat (b :: u16))) (unat b)"
  "decimal (show_nat (unat (c :: u32))) (unat c)"
  using parse_show(1) [of a] parse_show(2) [of b] parse_show(3) [of c] by (simp_all only: parse_word_iff)

lemma parse_print_spec: "spec_valid mode c \<Longrightarrow> parse_channel_spec mode (print_spec c) = Some (Inr c)"
proof (cases c)
  case (TcpExporter i addr port)
  assume "spec_valid mode c"
  then show ?thesis using TcpExporter tcp_exporter [OF decimal_show(1) _ _ decimal_show(2), of i addr port "[]"]
    by (simp add: parse_channel_spec_syntax id_ok_unat)
next
  case (TcpHost i addr port)
  assume "spec_valid mode c"
  then show ?thesis using TcpHost tcp_host [OF decimal_show(1) _ _ decimal_show(2), of i addr port "[]"]
    by (simp add: parse_channel_spec_syntax id_ok_unat)
qed (use mcu_exporter mcu_host decimal_show in \<open>simp_all add: parse_channel_spec_syntax id_ok_unat del: join.simps\<close>)

lemma example_print: "print_spec (TcpHost 2 ''127.0.0.1'' 7125) = ''tcp:2:127.0.0.1:7125''"
  by (simp add: show_nat.simps digit_def char_of_def bit_Suc_0_iff)

text \<open>C24: a mode accepts exactly its syntax.  On every string \<open>parse_channel_spec\<close> returns a result, and this is a channel
  specification if and only if the string is written by the rules of \<open>spec_syntax\<close> for the mode and for this
  specification: the right kind, the right number of fields (of which a TCP specification may have more, which
  are ignored), an id of at most 62, a baud rate that the serial layer supports (the two tables agree) or the default
  230400 where it may be left out, a port other than 0, and numbers of decimal digits with an optional sign \<open>+\<close>.  Every
  other string is refused.  Every specification that the mode can express is accepted in its printed form and read back
  unchanged.\<close>

theorem channel_specs_exact:
  assumes "mode \<in> {''exporter'', ''host''}"
  shows "(\<exists>r. parse_channel_spec mode s = Some r)
   \<and> (parse_channel_spec mode s = Some (Inr c) \<longleftrightarrow> spec_syntax mode s c)
   \<and> (parse_channel_spec mode s = Some (Inr c) \<longrightarrow> spec_valid mode c)
   \<and> (spec_valid mode c \<longrightarrow> parse_channel_spec mode (print_spec c) = Some (Inr c))"
  using parse_channel_spec_total [OF assms, of s] parse_channel_spec_syntax parse_channel_spec_valid parse_print_spec by blast

theorem channel_specs_exact_witness:
  "parse_channel_spec ''host'' ''tcp:2:127.0.0.1:7125'' = Some (Inr (TcpHost 2 ''127.0.0.1'' 7125))
   \<and> spec_syntax ''host'' ''tcp:2:127.0.0.1:7125'' (TcpHost 2 ''127.0.0.1'' 7125)"
proof -
  have v: "spec_valid ''host'' (TcpHost 2 ''127.0.0.1'' 7125)" by (simp add: id_ok_unat)
  have m: "''host'' \<in> {''exporter'', ''host''}" by simp
  have "parse_channel_spec ''host'' ''tcp:2:127.0.0.1:7125'' = Some (Inr (TcpHost 2 ''127.0.0.1'' 7125))"
    using channel_specs_exact [OF m] v unfolding example_print [symmetric] by blast
  then show ?thesis using channel_specs_exact [OF m] by blast
qed


section \<open>Distinct ids\<close>

lemma unique_ids_None:
  "unique_ids seen cs = None \<longleftrightarrow> distinct (map spec_id cs) \<and> spec_id ` set cs \<inter> seen = {}"
  by (induction cs arbitrary: seen) auto

lemma validate_unique_iff: "validate_unique_channel_ids cs = None \<longleftrightarrow> distinct (map spec_id cs)"
  by (simp add: validate_unique_channel_ids_def unique_ids_None)

lemma update_new: "k \<notin> fst ` set m \<Longrightarrow> AList.update k v m = m @ [(k, v)]"
  by (induction m) auto

lemma collect_distinct:
  assumes "distinct (map dyn_channel_id cs)"
  shows "collect_channels cs = map (\<lambda>c. (dyn_channel_id c, c)) cs"
proof -
  have "fold (\<lambda>c m. AList.update (dyn_channel_id c) c m) cs m = m @ map (\<lambda>c. (dyn_channel_id c, c)) cs"
    if "distinct (map dyn_channel_id cs)" "dyn_channel_id ` set cs \<inter> fst ` set m = {}" for m
    using that
  proof (induction cs arbitrary: m)
    case (Cons c cs)
    have "AList.update (dyn_channel_id c) c m = m @ [(dyn_channel_id c, c)]"
      using Cons.prems(2) by (intro update_new) auto
    then show ?case using Cons by (auto simp: image_iff)
  qed simp
  from this [of "[]"] assms show ?thesis by (simp add: collect_channels_def)
qed


section \<open>Construction\<close>

lemma quiet_offline: "quiet_call c x \<Longrightarrow> offline_call x"
  by (cases x) (auto simp: quiet_call_def)

lemma emits_offline:
  "emits (quiet_call c) io io' \<Longrightarrow> list_all offline_call (io_log io) \<Longrightarrow> list_all offline_call (io_log io')"
  by (auto simp: emits_def list_all_iff intro: quiet_offline)

lemma mcu_new_ok:
  assumes "id_ok c"
  shows "\<exists>ch io'. mcu_new E c dev baud io = Some (ch, io') \<and> emits (quiet_call c) io io' \<and> mcu_ch_id ch = c"
proof -
  define ch where "ch = \<lparr>mcu_ch_id = c, mcu_device = dev, mcu_baud = baud, mcu_state = Init, mcu_fd = None,
     mcu_fd_in_sel = False, mcu_txbuf = [], mcu_last_rx = None, mcu_reopen_at = None,
     mcu_bp_paused = False, mcu_link_up = False\<rparr>"
  obtain r io1 where o: "open_serial_fd E dev baud io = (r, io1)" by fastforce
  have e: "emits (quiet_call c) io io1" by (rule emits_open_serial [OF o]) (simp add: quiet_call_def)
  show ?thesis
  proof (cases r)
    case (Inl err)
    then show ?thesis using o e by (simp add: mcu_new_def mcu_open_uart_def now_def)
  next
    case (Inr f)
    let ?ch = "ch\<lparr>mcu_fd := Some f, mcu_fd_in_sel := False\<rparr>"
    have "mcu_base ?ch" "cv_id (mcu_view ?ch) = c" using assms by (simp_all add: ch_def mcu_base_def mcu_view_def)
    with mcu_update_interest_ok [of ?ch io1] obtain ch' io' where
      "mcu_update_interest ?ch io1 = Some (ch', io')" "mcu_view ch' = mcu_view ?ch" "emits (quiet_call c) io1 io'"
      by (auto simp: handles_def)
    then show ?thesis using o Inr e emits_trans [of _ io io1 io']
      by (auto simp: mcu_new_def mcu_open_uart_def ch_def mcu_view_def)
  qed
qed

lemma src_new_ok:
  assumes "id_ok c"
  shows "\<exists>r io'. src_new E c addr port io = Some (r, io') \<and> emits (quiet_call c) io io'
     \<and> (\<forall>ch. r = Inr ch \<longrightarrow> src_ch_id ch = c)"
proof (cases "env_parse_addr E addr (unat port)")
  case (Some a)
  note addr = Some
  have t: "channel_id_for_token (Suc (unat c)) = Some c"
    using primary_token_routes [OF primary_token_ok [OF assms]] by simp
  show ?thesis
  proof (cases "env_bind E (io_n io) a")
    case (Inr l)
    show ?thesis
    proof (cases "env_register E (Suc (io_n io)) l (Suc (unat c))")
      case None
      then show ?thesis using addr Inr t
        by (simp add: src_new_def primary_token_ok [OF assms] quiet_call_def emits_call)
    next
      case (Some e)
      then show ?thesis using addr Inr t
        by (simp add: src_new_def primary_token_ok [OF assms] quiet_call_def emits_call)
    qed
  qed (simp add: src_new_def addr)
qed (simp add: src_new_def)

lemma build_channel_ok:
  assumes "id_ok (spec_id s)" "list_all offline_call (io_log io)"
  shows "\<exists>r io'. build_channel E s io = Some (r, io') \<and> list_all offline_call (io_log io')
     \<and> (\<forall>c. r = Inr c \<longrightarrow> fresh c \<and> dyn_channel_id c = spec_id s)"
proof (cases s)
  case (McuExporter i device baud)
  with assms(1) obtain ch io' where "mcu_new E i device baud io = Some (ch, io')"
    "emits (quiet_call i) io io'" "mcu_ch_id ch = i" using mcu_new_ok by fastforce
  then show ?thesis using McuExporter assms mcu_new_fresh emits_offline
    by (auto simp: build_channel_def mcu_vtable_def)
next
  case (McuHost i symlink baud)
  then show ?thesis using assms pty_new_fresh [of i symlink baud io]
    by (simp add: build_channel_def pty_new_def pty_remove_symlink_def pty_vtable_def Let_def)
next
  case (TcpExporter i addr port)
  with assms(1) obtain r io' where "src_new E i addr port io = Some (r, io')"
    "emits (quiet_call i) io io'" "\<forall>ch. r = Inr ch \<longrightarrow> src_ch_id ch = i" using src_new_ok by fastforce
  then show ?thesis using TcpExporter assms src_new_fresh emits_offline
    by (cases r) (auto simp: build_channel_def src_vtable_def)
next
  case (TcpHost i addr port)
  then show ?thesis using assms dst_new_fresh by (simp add: build_channel_def dst_new_def dst_vtable_def)
qed

lemma build_channels_ok:
  assumes "list_all (\<lambda>s. id_ok (spec_id s)) specs" "list_all offline_call (io_log io)"
  shows "\<exists>r io'. build_channels E specs io = Some (r, io') \<and> list_all offline_call (io_log io')
     \<and> (\<forall>cs. r = Inr cs \<longrightarrow> list_all fresh cs \<and> map dyn_channel_id cs = map spec_id specs)"
  using assms
proof (induction specs arbitrary: io)
  case (Cons s specs)
  then obtain r io1 where s: "build_channel E s io = Some (r, io1)" "list_all offline_call (io_log io1)"
    "\<forall>c. r = Inr c \<longrightarrow> fresh c \<and> dyn_channel_id c = spec_id s" using build_channel_ok [of s io E] by auto
  from Cons.IH [OF _ s(2)] Cons.prems obtain rs io2 where rs: "build_channels E specs io1 = Some (rs, io2)"
    "list_all offline_call (io_log io2)"
    "\<forall>cs. rs = Inr cs \<longrightarrow> list_all fresh cs \<and> map dyn_channel_id cs = map spec_id specs" by auto
  from s rs show ?case by (cases r; cases rs) auto
qed simp


section \<open>main\<close>

lemma parse_all_total: "(\<And>s. f s \<noteq> None) \<Longrightarrow> parse_all f ss \<noteq> None"
  by (induction ss) (auto split: bind_splits sum.splits)

lemma parse_all_Inr: "parse_all f ss = Some (Inr xs) \<Longrightarrow> list_all2 (\<lambda>s x. f s = Some (Inr x)) ss xs"
  by (induction ss arbitrary: xs) (auto split: bind_splits sum.splits)

lemma spec_parsers_total:
  "parse_all parse_exporter_channel_spec ss \<noteq> None" "parse_all parse_host_channel_spec ss \<noteq> None"
  by (rule parse_all_total;
      simp add: parse_exporter_channel_spec_def parse_host_channel_spec_def parse_channel_spec_total del: not_None_eq)+

lemma parse_args_total: "parse_args cmd \<noteq> None"
  by (cases cmd) (auto simp: parse_command_def elim: spec_parsers_total [THEN notE] split: sum.splits bind_splits)

lemma parse_all_valid: "parse_all (parse_channel_spec mode) ss = Some (Inr xs) \<Longrightarrow> list_all (spec_valid mode) xs"
  using parse_channel_spec_valid
  by (auto simp: list_all2_conv_all_nth list_all_length dest!: parse_all_Inr) metis

lemma parse_args_specs:
  assumes "parse_args cmd = Some (Inr a)"
  shows "list_all (spec_valid (ar_mode a)) (ar_channels a) \<and> distinct (map spec_id (ar_channels a))"
proof -
  have "parse_exporter_channel_spec = parse_channel_spec ''exporter''"
    "parse_host_channel_spec = parse_channel_spec ''host''"
    by (simp_all add: parse_exporter_channel_spec_def parse_host_channel_spec_def fun_eq_iff)
  then show ?thesis using assms parse_all_valid
    by (cases cmd) (auto simp: parse_command_def validate_unique_iff split: sum.splits bind_splits option.splits)
qed

lemma spec_valid_id: "spec_valid mode s \<Longrightarrow> id_ok (spec_id s)"
  by (cases s) auto

text \<open>The USB device, where one is asked for, is there at some look.\<close>

definition usb_shows_up :: "env \<Rightarrow> (string \<times> string) option \<Rightarrow> io \<Rightarrow> bool" where
  "usb_shows_up E usb io \<longleftrightarrow>
     (case usb of
        None \<Rightarrow> True
      | Some (vid, pid) \<Rightarrow> find_acm_by_usb_id (env_sysfs E (io_n io)) vid pid \<noteq> None
          \<or> (\<exists>k. looked_up E vid pid (io_n io + 2) k \<noteq> None))"

lemma wait_for_acm_log: "wait_for_acm E vid pid io = Some (dev, logs, io') \<Longrightarrow> io_log io' = io_log io"
  using wait_for_acm_None_iff [of E vid pid io] wait_for_acm_ends [of E vid pid io]
  by (metis first_look option.inject option.distinct(1) prod.inject)

lemma await_usb_ok:
  assumes "usb_shows_up E usb io"
  shows "\<exists>io'. await_usb E usb io = Some io' \<and> io_log io' = io_log io"
proof (cases usb)
  case (Some u)
  obtain vid pid where u: "u = (vid, pid)" by fastforce
  show ?thesis
  proof (cases "find_acm_by_usb_id (env_sysfs E (io_n io)) vid pid")
    case None
    with assms Some u have "wait_for_acm E vid pid (next_call io) \<noteq> None"
      by (auto simp: usb_shows_up_def wait_for_acm_None_iff)
    then obtain dev logs io' where w: "wait_for_acm E vid pid (next_call io) = Some (dev, logs, io')" by auto
    from wait_for_acm_log [OF w] w None Some u show ?thesis by (simp add: await_usb_def)
  qed (simp add: await_usb_def Some u)
qed (simp add: await_usb_def)

lemma daemon_start_channels: "daemon_start E d io = Some (d', io') \<Longrightarrow> dm_channels d' = dm_channels d"
  by (auto simp: daemon_start_def open_link_def schedule_reopen_def now_def Let_def
      split: if_splits prod.splits option.splits sum.splits bind_splits)

text \<open>C23: whatever the command line, \<open>main\<close> does not panic: it ends with a reported error, or it
  enters the event loop with a daemon that serves exactly the configured channels, each under
  its own id, from a state of which everything proved of reachable states holds, and any number of
  iterations on any events succeed.  Where a USB device is named this needs the device to appear,
  or \<open>main\<close> waits for ever.\<close>

theorem main_starts:
  assumes "env_ok E" "io_log io = []"
    "\<And>a. parse_args cmd = Some (Inr a) \<Longrightarrow> usb_shows_up E (ar_usb_id a) io"
  shows "\<exists>r io'. main E poll_new cmd io = Some (r, io')
    \<and> (\<forall>d. r = Inr d \<longrightarrow> reachable E d io'
        \<and> (\<exists>a. parse_args cmd = Some (Inr a) \<and> map fst (dm_channels d) = map spec_id (ar_channels a))
        \<and> (\<forall>polls. list_all (list_all (event_ok (tokens_of (dm_channels d)))) polls \<longrightarrow>
             daemon_run E polls d io' \<noteq> None))"
proof -
  obtain x where p: "parse_args cmd = Some x" using parse_args_total by blast
  show ?thesis
  proof (cases x)
    case (Inl e)
    then show ?thesis using p by (simp add: main_def)
  next
    case a: (Inr a)
    then have specs: "list_all (spec_valid (ar_mode a)) (ar_channels a)" "distinct (map spec_id (ar_channels a))"
      using parse_args_specs p by blast+
    then have ids: "list_all (\<lambda>s. id_ok (spec_id s)) (ar_channels a)"
      by (auto simp: list_all_iff dest: spec_valid_id)
    obtain io1 where u: "await_usb E (ar_usb_id a) io = Some io1" "list_all offline_call (io_log io1)"
      using await_usb_ok assms(2,3) p a by fastforce
    obtain r io2 where b: "build_channels E (ar_channels a) io1 = Some (r, io2)" "list_all offline_call (io_log io2)"
      "\<forall>cs. r = Inr cs \<longrightarrow> list_all fresh cs \<and> map dyn_channel_id cs = map spec_id (ar_channels a)"
      using build_channels_ok [OF ids u(2)] by blast
    show ?thesis
    proof (cases poll_new)
      case (Some e)
      then show ?thesis using p a u by (simp add: main_def)
    next
      case poll: None
      show ?thesis
      proof (cases r)
        case (Inl e)
        then show ?thesis using p a u b poll by (simp add: main_def)
      next
        case (Inr cs)
        then have cs: "list_all fresh cs" "map dyn_channel_id cs = map spec_id (ar_channels a)" using b(3) by auto
        obtain d0 io3 where d0: "daemon_new E (ar_mode a) (ar_link_dev a) (ar_usb_id a) cs io2 = (d0, io3)"
          by fastforce
        obtain d io4 where s: "daemon_start E d0 io3 = Some (d, io4)"
          using daemon_start_ok [OF assms(1) daemon_new_ok [OF cs(1) b(2) d0]] by (auto simp: runs_def)
        have r: "reachable E d io4" by (rule reachable.start [OF cs(1) b(2) d0 s])
        have "dm_channels d0 = collect_channels cs" using d0 by (auto simp: daemon_new_def Let_def split: prod.splits)
        then have keys: "map fst (dm_channels d) = map spec_id (ar_channels a)"
          using daemon_start_channels [OF s] collect_distinct [of cs] cs(2) specs(2) by (simp add: comp_def)
        have "daemon_run E polls d io4 \<noteq> None"
          if "list_all (list_all (event_ok (tokens_of (dm_channels d)))) polls" for polls
          using daemon_run_ok [OF assms(1) reachable_inv [OF assms(1) r] that] by (auto simp: runs_def)
        then show ?thesis using p a u b poll Inr d0 s r keys by (auto simp: main_def)
      qed
    qed
  qed
qed

abbreviation example_command :: command where
  "example_command \<equiv> Host \<lparr>ca_link_dev = None, ca_usb_id = Some ''1D6B:0104'', ca_channels = [''tcp:2:127.0.0.1:7125'']\<rparr>"

lemma example_command_args:
  "parse_args example_command =
     Some (Inr \<lparr>ar_mode = ''host'', ar_link_dev = None, ar_usb_id = Some (''1d6b'', ''0104''),
        ar_channels = [TcpHost 2 ''127.0.0.1'' 7125]\<rparr>)"
proof -
  have "parse_usb_id ''1D6B:0104'' = Inr (''1d6b'', ''0104'')" by code_simp
  moreover have "parse_host_channel_spec ''tcp:2:127.0.0.1:7125'' = Some (Inr (TcpHost 2 ''127.0.0.1'' 7125))"
    using parse_print_spec [of "''host''" "TcpHost 2 ''127.0.0.1'' 7125"]
    by (simp add: parse_host_channel_spec_def example_print id_ok_unat del: print_spec.simps)
  ultimately show ?thesis by (simp add: parse_command_def parse_usb_def validate_unique_channel_ids_def)
qed

theorem main_starts_witness:
  "\<exists>d io'. main usb_env None example_command io_new = Some (Inr d, io') \<and> reachable usb_env d io'
     \<and> map fst (dm_channels d) = [2]"
proof -
  have ok: "env_ok usb_env" using example_env_ok by (simp add: env_ok_def read_ok_def usb_env_def)
  have "looked_up usb_env ''1d6b'' ''0104'' 2 2 \<noteq> None" by code_simp
  then have "usb_shows_up usb_env (Some (''1d6b'', ''0104'')) io_new"
    by (auto simp: usb_shows_up_def numeral_2_eq_2)
  then obtain r io' where r: "main usb_env None example_command io_new = Some (r, io')"
    "\<forall>d. r = Inr d \<longrightarrow> reachable usb_env d io' \<and> map fst (dm_channels d) = [2]"
    using main_starts [OF ok, of io_new example_command None]
    by (auto simp: example_command_args simp del: parse_args.simps)
  then have "\<exists>d. r = Inr d"
    by (auto simp: main_def example_command_args build_channel_def simp del: parse_args.simps split: bind_splits prod.splits)
  with r show ?thesis by blast
qed

end
