(* ===== verification/Codec.thy ===== *)
theory Codec
  imports Stream_Decoder
begin

text \<open>
  Decoders in the style of \<open>tokio_util::codec::Decoder\<close>: \<open>decode\<close> is given the buffer of the bytes
  not yet decoded and takes at most one item from its front; it is called until it has no item to
  give, and again when more bytes have been appended.

  The reference of such a decoder is a machine that looks at the front of the buffer and waits,
  skips some bytes, or emits an item.  When its decision does not depend on bytes that have not
  arrived yet, the items of a stream do not depend on how it is cut, which the locale \<open>codec\<close>
  proves once, as an instance of \<open>buffered_decoder\<close>.
\<close>

datatype ('s, 'f) action = Wait | Skip nat 's | Emit nat 'f 's

text \<open>All the items in a buffer, with the machine state and the bytes that are left.\<close>

function mparse :: "('s \<Rightarrow> 'b list \<Rightarrow> ('s, 'f) action) \<Rightarrow> 's \<Rightarrow> 'b list \<Rightarrow> ('s \<times> 'b list) \<times> 'f list" where
  "mparse micro s buf =
     (case micro s buf of
        Wait \<Rightarrow> ((s, buf), [])
      | Skip n s' \<Rightarrow>
          if 0 < n \<and> n \<le> length buf then mparse micro s' (drop n buf) else ((s, buf), [])
      | Emit n f s' \<Rightarrow>
          if 0 < n \<and> n \<le> length buf
          then (let (r, fs) = mparse micro s' (drop n buf) in (r, f # fs)) else ((s, buf), []))"
  by pat_completeness auto
termination
  by (relation "measure (\<lambda>(micro, s, buf). length buf)") auto

text \<open>Up to the first item: the reference of one call of \<open>decode\<close>.\<close>

function mnext :: "('s \<Rightarrow> 'b list \<Rightarrow> ('s, 'f) action) \<Rightarrow> 's \<Rightarrow> 'b list \<Rightarrow> 'f option \<times> 's \<times> 'b list" where
  "mnext micro s buf =
     (case micro s buf of
        Wait \<Rightarrow> (None, s, buf)
      | Skip n s' \<Rightarrow>
          if 0 < n \<and> n \<le> length buf then mnext micro s' (drop n buf) else (None, s, buf)
      | Emit n f s' \<Rightarrow>
          if 0 < n \<and> n \<le> length buf then (Some f, s', drop n buf) else (None, s, buf))"
  by pat_completeness auto
termination
  by (relation "measure (\<lambda>(micro, s, buf). length buf)") auto

declare mparse.simps [simp del] mnext.simps [simp del]

text \<open>Calls of \<open>decode\<close> until it returns no item, at most \<open>n\<close> of them, and the same after a chunk
  has been appended to the buffer.  Every item takes at least one byte from the buffer, so one
  more call than there are bytes is enough.\<close>

fun codec_calls ::
  "('s \<Rightarrow> 'b list \<Rightarrow> ('f option \<times> 's \<times> 'b list) option) \<Rightarrow> nat \<Rightarrow> 's \<Rightarrow> 'b list
   \<Rightarrow> (('s \<times> 'b list) \<times> 'f list) option" where
  "codec_calls dec 0 s buf = Some ((s, buf), [])"
| "codec_calls dec (Suc n) s buf = do {
     (r, s, buf) \<leftarrow> dec s buf;
     (case r of
        None \<Rightarrow> Some ((s, buf), [])
      | Some f \<Rightarrow> do { (r, fs) \<leftarrow> codec_calls dec n s buf; Some (r, f # fs) })
   }"

definition codec_feed ::
  "('s \<Rightarrow> 'b list \<Rightarrow> ('f option \<times> 's \<times> 'b list) option) \<Rightarrow> 's \<times> 'b list \<Rightarrow> 'b list
   \<Rightarrow> (('s \<times> 'b list) \<times> 'f list) option" where
  "codec_feed dec c data = codec_calls dec (Suc (length (snd c @ data))) (fst c) (snd c @ data)"

definition mstep ::
  "('s \<Rightarrow> 'b list \<Rightarrow> ('s, 'f) action) \<Rightarrow> 's \<times> 'b list \<Rightarrow> 'b list \<Rightarrow> ('s \<times> 'b list) \<times> 'f list" where
  "mstep micro c data = mparse micro (fst c) (snd c @ data)"

locale codec =
  fixes micro :: "'s \<Rightarrow> 'b list \<Rightarrow> ('s, 'f) action"
    and dec :: "'s \<Rightarrow> 'b list \<Rightarrow> ('f option \<times> 's \<times> 'b list) option"
  assumes skip_some: "micro s buf = Skip n s' \<Longrightarrow> 0 < n \<and> n \<le> length buf"
    and emit_some: "micro s buf = Emit n f s' \<Longrightarrow> 0 < n \<and> n \<le> length buf"
    and stable: "micro s buf \<noteq> Wait \<Longrightarrow> micro s (buf @ more) = micro s buf"
    and dec_next: "dec s buf = Some (mnext micro s buf)"
begin

lemma mparse_simps:
  "micro s buf = Wait \<Longrightarrow> mparse micro s buf = ((s, buf), [])"
  "micro s buf = Skip n s' \<Longrightarrow> mparse micro s buf = mparse micro s' (drop n buf)"
  "micro s buf = Emit n f s' \<Longrightarrow>
     mparse micro s buf = (fst (mparse micro s' (drop n buf)), f # snd (mparse micro s' (drop n buf)))"
  using skip_some [of s buf n s'] emit_some [of s buf n f s']
  by (subst mparse.simps; simp split: prod.split)+

lemma mnext_simps:
  "micro s buf = Wait \<Longrightarrow> mnext micro s buf = (None, s, buf)"
  "micro s buf = Skip n s' \<Longrightarrow> mnext micro s buf = mnext micro s' (drop n buf)"
  "micro s buf = Emit n f s' \<Longrightarrow> mnext micro s buf = (Some f, s', drop n buf)"
  using skip_some [of s buf n s'] emit_some [of s buf n f s']
  by (subst mnext.simps; simp)+

text \<open>Induction over the progress of the machine.\<close>

lemma progress_induct [case_names Wait Skip Emit]:
  assumes "\<And>s buf. micro s buf = Wait \<Longrightarrow> P s buf"
    and "\<And>s buf n s'. micro s buf = Skip n s' \<Longrightarrow> 0 < n \<Longrightarrow> n \<le> length buf \<Longrightarrow> P s' (drop n buf) \<Longrightarrow> P s buf"
    and "\<And>s buf n f s'. micro s buf = Emit n f s' \<Longrightarrow> 0 < n \<Longrightarrow> n \<le> length buf \<Longrightarrow> P s' (drop n buf) \<Longrightarrow> P s buf"
  shows "P s buf"
proof (induction "length buf" arbitrary: s buf rule: less_induct)
  case less
  show ?case
  proof (cases "micro s buf")
    case (Skip n s')
    then show ?thesis using skip_some [OF Skip] less by (intro assms(2) [OF Skip]) auto
  next
    case (Emit n f s')
    then show ?thesis using emit_some [OF Emit] less by (intro assms(3) [OF Emit]) auto
  qed (rule assms(1))
qed

lemma mparse_waits: "micro (fst (fst (mparse micro s buf))) (snd (fst (mparse micro s buf))) = Wait"
  by (induction s buf rule: progress_induct) (simp_all add: mparse_simps)

lemma mparse_append:
  "mparse micro s (xs @ ys) =
     (let ((s1, r1), fs1) = mparse micro s xs; ((s2, r2), fs2) = mparse micro s1 (r1 @ ys)
      in ((s2, r2), fs1 @ fs2))"
proof (induction s xs rule: progress_induct)
  case (Wait s buf)
  then show ?case by (simp add: mparse_simps split: prod.split)
next
  case (Skip s buf n s')
  have "micro s (buf @ ys) = Skip n s'" using stable [of s buf ys] Skip by simp
  then show ?case using Skip by (simp add: mparse_simps)
next
  case (Emit s buf n f s')
  have "micro s (buf @ ys) = Emit n f s'" using stable [of s buf ys] Emit by simp
  then show ?case using Emit by (simp add: mparse_simps split: prod.splits)
qed

text \<open>One call of \<open>decode\<close> takes the first item of the rest of the stream.\<close>

lemma mnext_mparse:
  "mparse micro s buf =
     (case mnext micro s buf of
        (None, s', r) \<Rightarrow> ((s', r), [])
      | (Some f, s', r) \<Rightarrow> (fst (mparse micro s' r), f # snd (mparse micro s' r)))"
  by (induction s buf rule: progress_induct) (auto simp: mparse_simps mnext_simps)

lemma mnext_waits: "mnext micro s buf = (None, s', r) \<Longrightarrow> micro s' r = Wait"
  by (induction s buf rule: progress_induct) (auto simp: mnext_simps)

lemma mnext_shorter: "mnext micro s buf = (Some f, s', r) \<Longrightarrow> length r < length buf"
  by (induction s buf rule: progress_induct) (auto simp: mnext_simps)

lemma codec_calls_mparse: "length buf < n \<Longrightarrow> codec_calls dec n s buf = Some (mparse micro s buf)"
proof (induction n arbitrary: s buf)
  case (Suc n)
  obtain x s' r where m: "mnext micro s buf = (x, s', r)" by (cases "mnext micro s buf")
  show ?case
  proof (cases x)
    case None
    then show ?thesis using m mnext_mparse [of s buf] by (simp add: dec_next)
  next
    case (Some f)
    then have "length r < n" using mnext_shorter [of s buf f s' r] m Suc.prems by simp
    from Suc.IH [OF this] show ?thesis using m Some mnext_mparse [of s buf]
      by (simp add: dec_next split: prod.split)
  qed
qed simp

lemma codec_feed_step: "codec_feed dec c data = Some (mstep micro c data)"
  by (simp add: codec_feed_def mstep_def codec_calls_mparse del: codec_calls.simps)

end

sublocale codec \<subseteq> stream: buffered_decoder "mstep micro" "\<lambda>(s, buf). micro s buf = Wait"
  "codec_feed dec" id "\<lambda>_. True"
proof (unfold_locales, goal_cases)
  case (1 c xs ys)
  then show ?case
    using mparse_append [of "fst c" "snd c @ xs" ys] by (simp add: mstep_def split: prod.split)
next
  case (2 c)
  then show ?case by (auto simp: mstep_def mparse_simps)
next
  case (3 c xs)
  show ?case using mparse_waits [of "fst c" "snd c @ xs"] by (simp add: mstep_def case_prod_beta)
next
  case (4 c xs)
  show ?case by (intro exI [of _ "fst (mstep micro c xs)"]) (simp add: codec_feed_step)
qed

end
