(* ===== verification/Tunnel_Codec.thy ===== *)
theory Tunnel_Codec
  imports Codec
begin

text \<open>
  The framing codecs of the windlass bridge (\<^verbatim>\<open>windlass/framing.rs\<close>): \<open>TunnelCodec\<close> for raw Klipper
  frames with a channel id in front, \<open>PayloadTunnelCodec\<close> for decoded payloads with an explicit
  length, and \<open>KlipperFramer\<close>, which cuts the byte stream of a UART or a socket into Klipper frames.

  A \<open>BytesMut\<close> is the list of its bytes; \<open>reserve\<close> has no effect on it.  \<open>advance\<close> and \<open>split_to\<close>
  panic beyond the end of the buffer.
\<close>

definition MESSAGE_LENGTH_MIN :: nat where "MESSAGE_LENGTH_MIN = 5"
definition MESSAGE_LENGTH_MAX :: nat where "MESSAGE_LENGTH_MAX = 64"
definition MESSAGE_VALUE_SYNC :: u8 where "MESSAGE_VALUE_SYNC = 0x7E"

lemma message_consts [mux_consts]:
  "MESSAGE_LENGTH_MIN = 5" "MESSAGE_LENGTH_MAX = 64" "MESSAGE_VALUE_SYNC = 0x7E"
  by (simp_all add: MESSAGE_LENGTH_MIN_def MESSAGE_LENGTH_MAX_def MESSAGE_VALUE_SYNC_def)

definition advance :: "nat \<Rightarrow> bytes \<Rightarrow> bytes option" where
  "advance n src = (if n \<le> length src then Some (drop n src) else None)"

definition split_to :: "nat \<Rightarrow> bytes \<Rightarrow> (bytes \<times> bytes) option" where
  "split_to n src = (if n \<le> length src then Some (take n src, drop n src) else None)"

lemma advance_ok [panic_free]: "n \<le> length src \<Longrightarrow> advance n src = Some (drop n src)"
  by (simp add: advance_def)

lemma split_to_ok [panic_free]: "n \<le> length src \<Longrightarrow> split_to n src = Some (take n src, drop n src)"
  by (simp add: split_to_def)

lemma advance_shorter: "advance (Suc n) src = Some src' \<Longrightarrow> length src' < length src"
  by (auto simp: advance_def split: if_splits)


section \<open>TunnelCodec\<close>

record tunnel_frame =
  tf_ch_id :: u8
  tf_frame :: bytes

function tunnel_decode :: "bytes \<Rightarrow> (tunnel_frame option \<times> bytes) option" where
  "tunnel_decode src =
     (if length src < 2 then Some (None, src)
      else do {
        ch_id \<leftarrow> idx src 0;
        l \<leftarrow> idx src 1;
        let frame_len = unat l;
        if frame_len < MESSAGE_LENGTH_MIN \<or> frame_len > MESSAGE_LENGTH_MAX
        then do { src \<leftarrow> advance 1 src; tunnel_decode src }
        else do {
          let total = 1 + frame_len;
          if length src < total then Some (None, src)
          else do {
            b \<leftarrow> idx src (total - 1);
            if b \<noteq> MESSAGE_VALUE_SYNC
            then do { src \<leftarrow> advance 1 src; tunnel_decode src }
            else do {
              src \<leftarrow> advance 1 src;
              (frame, src) \<leftarrow> split_to frame_len src;
              Some (Some \<lparr>tf_ch_id = ch_id, tf_frame = frame\<rparr>, src)
            }
          }
        }
      })"
  by pat_completeness auto
termination
  by (relation "measure length") (auto dest: advance_shorter)

declare tunnel_decode.simps [simp del]

definition tunnel_encode :: "tunnel_frame \<Rightarrow> bytes \<Rightarrow> bytes" where
  "tunnel_encode item dst = (dst @ [tf_ch_id item]) @ tf_frame item"


section \<open>PayloadTunnelCodec\<close>

definition CTRL_CH :: u8 where "CTRL_CH = 0xFF"
definition CTRL_DICT_FRAG :: u8 where "CTRL_DICT_FRAG = 0x01"
definition CTRL_DICT_DONE :: u8 where "CTRL_DICT_DONE = 0x02"
definition DICT_FRAG_MAX :: nat where "DICT_FRAG_MAX = 253"

record payload_frame =
  pf_ch_id :: u8
  pf_payload :: bytes

definition payload_decode :: "bytes \<Rightarrow> (payload_frame option \<times> bytes) option" where
  "payload_decode src =
     (if length src < 2 then Some (None, src)
      else do {
        ch_id \<leftarrow> idx src 0;
        l \<leftarrow> idx src 1;
        let payload_len = unat l;
        let total = 2 + payload_len;
        if length src < total then Some (None, src)
        else do {
          src \<leftarrow> advance 2 src;
          (payload, src) \<leftarrow> split_to payload_len src;
          Some (Some \<lparr>pf_ch_id = ch_id, pf_payload = payload\<rparr>, src)
        }
      })"

text \<open>The error of \<open>encode\<close> carries the length of the payload.\<close>

datatype encode_error = PayloadTooLong nat

definition payload_encode :: "payload_frame \<Rightarrow> bytes \<Rightarrow> encode_error + bytes" where
  "payload_encode item dst =
     (let len = length (pf_payload item) in
      if len > 255 then Inl (PayloadTooLong len)
      else Inr (((dst @ [pf_ch_id item]) @ [of_nat len]) @ pf_payload item))"


section \<open>KlipperFramer\<close>

text \<open>The state of the framer is its flag \<open>synced\<close>.\<close>

function klipper_decode :: "bool \<Rightarrow> bytes \<Rightarrow> (bytes option \<times> bool \<times> bytes) option" where
  "klipper_decode synced src =
     (if src = [] then Some (None, synced, src)
      else if \<not> synced
      then (case position MESSAGE_VALUE_SYNC src of
          Some pos \<Rightarrow> do { src \<leftarrow> advance (pos + 1) src; klipper_decode True src }
        | None \<Rightarrow> Some (None, synced, []))
      else do {
        b \<leftarrow> idx src 0;
        if b = MESSAGE_VALUE_SYNC then do { src \<leftarrow> advance 1 src; klipper_decode synced src }
        else do {
          let frame_len = unat b;
          if frame_len < MESSAGE_LENGTH_MIN \<or> frame_len > MESSAGE_LENGTH_MAX
          then do { src \<leftarrow> advance 1 src; klipper_decode False src }
          else if length src < frame_len then Some (None, synced, src)
          else do {
            e \<leftarrow> idx src (frame_len - 1);
            if e \<noteq> MESSAGE_VALUE_SYNC
            then do { src \<leftarrow> advance 1 src; klipper_decode False src }
            else do {
              (frame, src) \<leftarrow> split_to frame_len src;
              Some (Some frame, synced, src)
            }
          }
        }
      })"
  by pat_completeness auto
termination
  by (relation "measure (\<lambda>(synced, src). length src)") (auto dest: advance_shorter)

declare klipper_decode.simps [simp del]


section \<open>The reference machines\<close>

text \<open>Without the loops and the scan: what is done with the front of the buffer.\<close>

definition frame_len_ok :: "u8 \<Rightarrow> bool" where
  "frame_len_ok l \<longleftrightarrow> MESSAGE_LENGTH_MIN \<le> unat l \<and> unat l \<le> MESSAGE_LENGTH_MAX"

definition tunnel_micro :: "unit \<Rightarrow> bytes \<Rightarrow> (unit, tunnel_frame) action" where
  "tunnel_micro u src =
     (case src of
        c # l # rest \<Rightarrow>
          if \<not> frame_len_ok l then Skip 1 ()
          else if length rest + 1 < unat l then Wait
          else if (l # rest) ! (unat l - 1) \<noteq> MESSAGE_VALUE_SYNC then Skip 1 ()
          else Emit (1 + unat l) \<lparr>tf_ch_id = c, tf_frame = take (unat l) (l # rest)\<rparr> ()
      | _ \<Rightarrow> Wait)"

definition payload_micro :: "unit \<Rightarrow> bytes \<Rightarrow> (unit, payload_frame) action" where
  "payload_micro u src =
     (case src of
        c # l # rest \<Rightarrow>
          if length rest < unat l then Wait
          else Emit (2 + unat l) \<lparr>pf_ch_id = c, pf_payload = take (unat l) rest\<rparr> ()
      | _ \<Rightarrow> Wait)"

definition klipper_micro :: "bool \<Rightarrow> bytes \<Rightarrow> (bool, bytes) action" where
  "klipper_micro synced src =
     (case src of
        [] \<Rightarrow> Wait
      | b # rest \<Rightarrow>
          if \<not> synced then Skip 1 (b = MESSAGE_VALUE_SYNC)
          else if b = MESSAGE_VALUE_SYNC then Skip 1 True
          else if \<not> frame_len_ok b then Skip 1 False
          else if length src < unat b then Wait
          else if src ! (unat b - 1) \<noteq> MESSAGE_VALUE_SYNC then Skip 1 False
          else Emit (unat b) (take (unat b) src) True)"

text \<open>The stateless codecs as decoders with a trivial state.\<close>

definition stateless :: "(bytes \<Rightarrow> ('f option \<times> bytes) option) \<Rightarrow> unit \<Rightarrow> bytes \<Rightarrow> ('f option \<times> unit \<times> bytes) option" where
  "stateless dec u src = do { (r, src) \<leftarrow> dec src; Some (r, (), src) }"

section \<open>The codecs implement the machines\<close>

lemma front_stable:
  "n \<le> length xs \<Longrightarrow> xs \<noteq> [] \<Longrightarrow> (xs @ ys) ! (n - 1) = xs ! (n - 1) \<and> take n (xs @ ys) = take n xs"
  by (cases n) (simp_all add: nth_append)

lemma tunnel_micro_cases:
  "tunnel_micro u [] = Wait" "tunnel_micro u [c] = Wait"
  "tunnel_micro u (c # l # rest) =
     (if \<not> frame_len_ok l then Skip 1 ()
      else if length rest + 1 < unat l then Wait
      else if (l # rest) ! (unat l - 1) \<noteq> MESSAGE_VALUE_SYNC then Skip 1 ()
      else Emit (1 + unat l) \<lparr>tf_ch_id = c, tf_frame = take (unat l) (l # rest)\<rparr> ())"
  by (simp_all add: tunnel_micro_def)

lemma tunnel_decode_cons:
  "tunnel_decode (c # l # rest) =
     (if \<not> frame_len_ok l then tunnel_decode (l # rest)
      else if length rest + 1 < unat l then Some (None, c # l # rest)
      else if (l # rest) ! (unat l - 1) \<noteq> MESSAGE_VALUE_SYNC then tunnel_decode (l # rest)
      else Some (Some \<lparr>tf_ch_id = c, tf_frame = take (unat l) (l # rest)\<rparr>, drop (unat l) (l # rest)))"
proof (cases "frame_len_ok l")
  case True
  then have pos: "0 < unat l" by (simp add: frame_len_ok_def mux_consts)
  then have "(c # l # rest) ! unat l = (l # rest) ! (unat l - 1)" by simp
  with True pos show ?thesis
    by (subst tunnel_decode.simps) (simp add: idx_def advance_def split_to_def frame_len_ok_def Let_def)
next
  case False
  then show ?thesis
    by (subst tunnel_decode.simps) (auto simp: idx_def advance_def frame_len_ok_def Let_def)
qed

lemma tunnel_decode_next: "stateless tunnel_decode u buf = Some (mnext tunnel_micro u buf)"
proof (induction "length buf" arbitrary: buf rule: less_induct)
  case less
  consider "buf = []" | c where "buf = [c]" | c l rest where "buf = c # l # rest"
    by (metis list.exhaust)
  then show ?case
  proof cases
    case (3 c l rest)
    have ih: "stateless tunnel_decode u (l # rest) = Some (mnext tunnel_micro u (l # rest))"
      using less 3 by simp
    then show ?thesis unfolding 3 stateless_def tunnel_decode_cons
      by (subst mnext.simps) (auto simp: tunnel_micro_cases frame_len_ok_def)
  qed (simp_all add: stateless_def tunnel_decode.simps mnext.simps tunnel_micro_cases)
qed

interpretation tunnel: codec tunnel_micro "stateless tunnel_decode"
proof
  show "tunnel_micro s buf = Skip n s' \<Longrightarrow> 0 < n \<and> n \<le> length buf" for s buf n s'
    by (auto simp: tunnel_micro_def split: list.splits if_splits)
  show "tunnel_micro s buf = Emit n f s' \<Longrightarrow> 0 < n \<and> n \<le> length buf" for s buf n f s'
    by (auto simp: tunnel_micro_def split: list.splits if_splits)
  show "tunnel_micro s (buf @ more) = tunnel_micro s buf" if w: "tunnel_micro s buf \<noteq> Wait" for s buf more
  proof -
    obtain c l rest where b: "buf = c # l # rest" using w by (auto simp: tunnel_micro_def split: list.splits)
    have "(l # rest @ more) ! (unat l - 1) = (l # rest) ! (unat l - 1)" "take (unat l) (l # rest @ more) = take (unat l) (l # rest)"
      if "unat l \<le> length rest + 1" using front_stable [of "unat l" "l # rest" more] that by simp_all
    then show ?thesis using w by (auto simp: b tunnel_micro_cases split: if_splits)
  qed
qed (rule tunnel_decode_next)

lemma payload_micro_cases:
  "payload_micro u [] = Wait" "payload_micro u [c] = Wait"
  "payload_micro u (c # l # rest) =
     (if length rest < unat l then Wait
      else Emit (2 + unat l) \<lparr>pf_ch_id = c, pf_payload = take (unat l) rest\<rparr> ())"
  by (simp_all add: payload_micro_def)

lemma payload_decode_next: "stateless payload_decode u buf = Some (mnext payload_micro u buf)"
proof -
  consider "length buf < 2" | c l rest where "buf = c # l # rest"
    by (cases buf; cases "tl buf") auto
  then show ?thesis
  proof cases
    case 1
    then have "payload_micro u buf = Wait" by (cases buf; cases "tl buf") (auto simp: payload_micro_def)
    then show ?thesis using 1 by (subst mnext.simps) (simp add: stateless_def payload_decode_def)
  next
    case (2 c l rest)
    show ?thesis unfolding 2
      by (subst mnext.simps)
         (simp add: payload_micro_cases stateless_def payload_decode_def idx_def advance_def split_to_def Let_def)
  qed
qed

interpretation payload: codec payload_micro "stateless payload_decode"
proof
  show "payload_micro s buf = Skip n s' \<Longrightarrow> 0 < n \<and> n \<le> length buf" for s buf n s'
    by (auto simp: payload_micro_def split: list.splits if_splits)
  show "payload_micro s buf = Emit n f s' \<Longrightarrow> 0 < n \<and> n \<le> length buf" for s buf n f s'
    by (auto simp: payload_micro_def split: list.splits if_splits)
  show "payload_micro s buf \<noteq> Wait \<Longrightarrow> payload_micro s (buf @ more) = payload_micro s buf" for s buf more
    by (auto simp: payload_micro_def split: list.splits if_splits)
qed (rule payload_decode_next)

text \<open>The scan for the sync byte is the byte-wise skipping of the machine.\<close>

lemma klipper_scan:
  "mnext klipper_micro False src =
     (case position MESSAGE_VALUE_SYNC src of
        Some pos \<Rightarrow> mnext klipper_micro True (drop (pos + 1) src)
      | None \<Rightarrow> (None, False, []))"
proof (induction src)
  case Nil
  show ?case by (subst mnext.simps) (simp add: klipper_micro_def)
next
  case (Cons b src)
  have "mnext klipper_micro False (b # src) = mnext klipper_micro (b = MESSAGE_VALUE_SYNC) src"
    by (subst mnext.simps) (simp add: klipper_micro_def)
  then show ?case using Cons.IH by (cases "b = MESSAGE_VALUE_SYNC") (auto split: option.splits)
qed

lemma klipper_synced:
  "mnext klipper_micro True (b # src) =
     (if b = MESSAGE_VALUE_SYNC then mnext klipper_micro True src
      else if \<not> frame_len_ok b then mnext klipper_micro False src
      else if length (b # src) < unat b then (None, True, b # src)
      else if (b # src) ! (unat b - 1) \<noteq> MESSAGE_VALUE_SYNC then mnext klipper_micro False src
      else (Some (take (unat b) (b # src)), True, drop (unat b) (b # src)))"
proof -
  have "0 < unat b" if "frame_len_ok b" using that by (simp add: frame_len_ok_def mux_consts)
  then show ?thesis by (subst mnext.simps) (auto simp: klipper_micro_def)
qed

lemma klipper_decode_next: "klipper_decode synced buf = Some (mnext klipper_micro synced buf)"
proof (induction "length buf" arbitrary: synced buf rule: less_induct)
  case less
  show ?case
  proof (cases buf)
    case Nil
    show ?thesis unfolding Nil by (subst klipper_decode.simps, subst mnext.simps) (simp add: klipper_micro_def)
  next
    case (Cons b src)
    have ih: "klipper_decode s xs = Some (mnext klipper_micro s xs)" if "length xs < length buf" for s xs
      using less that by blast
    show ?thesis
    proof (cases synced)
      case True
      have rest: "klipper_decode s src = Some (mnext klipper_micro s src)" for s using ih Cons by simp
      show ?thesis unfolding Cons using True klipper_synced [of b src]
        by (subst klipper_decode.simps)
           (auto simp: idx_def advance_def split_to_def frame_len_ok_def Let_def rest mux_consts)
    next
      case False
      show ?thesis
      proof (cases "position MESSAGE_VALUE_SYNC buf")
        case None
        then show ?thesis using False Cons klipper_scan [of buf] by (subst klipper_decode.simps) simp
      next
        case (Some pos)
        then have p: "pos < length buf" by (simp add: position_Some_iff)
        then have "klipper_decode True (drop (pos + 1) buf) = Some (mnext klipper_micro True (drop (pos + 1) buf))"
          by (intro ih) simp
        then show ?thesis using False Cons Some p klipper_scan [of buf]
          by (subst klipper_decode.simps) (simp add: advance_def)
      qed
    qed
  qed
qed

interpretation framer: codec klipper_micro klipper_decode
proof
  show "klipper_micro s buf = Skip n s' \<Longrightarrow> 0 < n \<and> n \<le> length buf" for s buf n s'
    by (auto simp: klipper_micro_def split: list.splits if_splits)
  show "klipper_micro s buf = Emit n f s' \<Longrightarrow> 0 < n \<and> n \<le> length buf" for s buf n f s'
    by (auto simp: klipper_micro_def frame_len_ok_def mux_consts split: list.splits if_splits)
  show "klipper_micro s (buf @ more) = klipper_micro s buf" if w: "klipper_micro s buf \<noteq> Wait" for s buf more
  proof -
    obtain b rest where b: "buf = b # rest" using w by (auto simp: klipper_micro_def split: list.splits)
    have "(b # rest @ more) ! (unat b - 1) = (b # rest) ! (unat b - 1)" "take (unat b) (b # rest @ more) = take (unat b) (b # rest)"
      if "unat b \<le> length rest + 1" using front_stable [of "unat b" "b # rest" more] that by simp_all
    then show ?thesis using w by (auto simp: b klipper_micro_def split: if_splits)
  qed
qed (rule klipper_decode_next)

end
