(* ===== verification/Tunnel_Props.thy ===== *)
theory Tunnel_Props
  imports Tunnel_Codec
begin

text \<open>
  What the framing codecs of the windlass bridge promise: encoded frames come back under any
  cutting of the stream, only well-formed frames are delivered, the buffers stay bounded, and
  \<open>KlipperFramer\<close> finds the frames again after noise.  Everything rests on the interpretations
  \<open>tunnel\<close>, \<open>payload\<close> and \<open>framer\<close> of the locale \<open>codec\<close>.
\<close>

text \<open>A complete Klipper frame: its own length in front and the sync byte at the end.\<close>

definition klipper_frame :: "bytes \<Rightarrow> bool" where
  "klipper_frame f \<longleftrightarrow>
     f \<noteq> [] \<and> frame_len_ok (hd f) \<and> unat (hd f) = length f \<and> last f = MESSAGE_VALUE_SYNC"

lemma klipper_frameE:
  assumes "klipper_frame f"
  obtains l rest where "f = l # rest" "frame_len_ok l" "unat l = Suc (length rest)"
    "\<And>more. (l # rest @ more) ! length rest = MESSAGE_VALUE_SYNC" "l \<noteq> MESSAGE_VALUE_SYNC"
proof (cases f)
  case (Cons l rest)
  moreover have "l \<noteq> MESSAGE_VALUE_SYNC" if "frame_len_ok l"
    using that by (auto simp: frame_len_ok_def mux_consts)
  moreover have "(l # rest @ more) ! length rest = last f" for more
    using nth_append [of f more "length rest"] Cons by (simp add: last_conv_nth)
  ultimately show thesis using assms by (intro that [of l rest]) (simp_all add: klipper_frame_def)
qed (use assms in \<open>simp add: klipper_frame_def\<close>)

lemma klipper_frame_take:
  "frame_len_ok l \<Longrightarrow> unat l \<le> Suc (length rest) \<Longrightarrow> (l # rest) ! (unat l - 1) = MESSAGE_VALUE_SYNC \<Longrightarrow>
   klipper_frame (take (unat l) (l # rest))"
  by (cases "unat l") (auto simp: klipper_frame_def frame_len_ok_def mux_consts last_conv_nth min_def nth_Cons')

text \<open>The items of a stream stand in it, in order and disjoint, with \<open>r\<close> left at its end.\<close>

inductive stands :: "('f \<Rightarrow> 'b list) \<Rightarrow> 'b list \<Rightarrow> 'f list \<Rightarrow> 'b list \<Rightarrow> bool"
  for enc :: "'f \<Rightarrow> 'b list" where
  stands_rest: "stands enc (noise @ r) [] r"
| stands_item: "stands enc xs fs r \<Longrightarrow> stands enc (noise @ enc f @ xs) (f # fs) r"

lemma stands_noise: "stands enc xs fs r \<Longrightarrow> stands enc (ys @ xs) fs r"
proof (induction rule: stands.induct)
  case (stands_rest noise r)
  show ?case using stands.stands_rest [of enc "ys @ noise" r] by simp
next
  case (stands_item xs fs r noise f)
  show ?case using stands.stands_item [OF stands_item.hyps, of "ys @ noise" f] by simp
qed

lemma stands_drop: "stands enc (drop n buf) fs r \<Longrightarrow> stands enc buf fs r"
  using stands_noise [of enc "drop n buf" fs r "take n buf"] by simp

text \<open>The items of a codec whose items are the encodings of what it takes off the buffer.\<close>

context codec
begin

lemma mparse_stands:
  assumes emit: "\<And>s buf n f s'. micro s buf = Emit n f s' \<Longrightarrow> take n buf = encode f \<and> good f"
  shows "stands encode buf (snd (mparse micro s buf)) (snd (fst (mparse micro s buf)))
     \<and> list_all good (snd (mparse micro s buf))"
proof (induction s buf rule: progress_induct)
  case (Wait s buf)
  show ?case using stands_rest [of encode "[]" buf] Wait by (simp add: mparse_simps)
next
  case (Skip s buf n s')
  then show ?case by (auto simp: mparse_simps intro: stands_drop)
next
  case (Emit s buf n f s')
  have "buf = encode f @ drop n buf" using emit [OF Emit(1)] append_take_drop_id [of n buf] by simp
  then show ?case using Emit emit [OF Emit(1)] stands_item [of encode "drop n buf" _ _ "[]" f]
    by (simp add: mparse_simps)
qed

lemma micro_Nil: "micro s [] = Wait"
  using skip_some [of s "[]"] emit_some [of s "[]"] by (cases "micro s []") auto

text \<open>From an empty buffer, calls of the decoder on any pieces of a stream parse the stream.\<close>

lemma run_mparse: "run_chunks (codec_feed dec) (s, []) pieces = Some (mparse micro s (concat pieces))"
  using stream.impl_run [of "(s, [])" pieces] by (auto simp: micro_Nil mstep_def)

text \<open>A stream that begins with encodings.\<close>

lemma mparse_wire:
  assumes "\<And>f rest. f \<in> set fs \<Longrightarrow> micro s (encode f @ rest) = Emit (length (encode f)) f s"
  shows "mparse micro s (concat (map encode fs) @ rest) =
     (fst (mparse micro s rest), fs @ snd (mparse micro s rest))"
  using assms by (induction fs) (simp_all add: mparse_simps(3))

end


section \<open>TunnelCodec\<close>

text \<open>Frames written one after the other to the same buffer.\<close>

definition tunnel_wire :: "tunnel_frame list \<Rightarrow> bytes" where
  "tunnel_wire fs = fold tunnel_encode fs []"

lemma tunnel_wire_concat: "tunnel_wire fs = concat (map (\<lambda>f. tunnel_encode f []) fs)"
proof -
  have "fold tunnel_encode fs dst = dst @ concat (map (\<lambda>f. tunnel_encode f []) fs)" for dst
    by (induction fs arbitrary: dst) (simp_all add: tunnel_encode_def)
  then show ?thesis by (simp add: tunnel_wire_def)
qed

lemma tunnel_micro_encode:
  "klipper_frame (tf_frame f) \<Longrightarrow>
   tunnel_micro u (tunnel_encode f [] @ rest) = Emit (length (tunnel_encode f [])) f ()"
  by (erule klipper_frameE) (auto simp: tunnel_encode_def tunnel_micro_cases)

lemma tunnel_micro_emits:
  "tunnel_micro u buf = Emit n f u' \<Longrightarrow> take n buf = tunnel_encode f [] \<and> klipper_frame (tf_frame f)"
  by (auto simp: tunnel_micro_def tunnel_encode_def intro!: klipper_frame_take split: list.splits if_splits)

lemma tunnel_waits_short: "tunnel_micro u buf = Wait \<Longrightarrow> length buf \<le> MESSAGE_LENGTH_MAX"
  by (auto simp: tunnel_micro_def frame_len_ok_def mux_consts split: list.splits if_splits)

text \<open>C26: complete Klipper frames of any channels, encoded one after the other and received in pieces
  of any sizes, are decoded to exactly those frames with their channel ids, and nothing is left
  in the buffer.\<close>

theorem tunnel_roundtrip:
  assumes "\<forall>f \<in> set fs. klipper_frame (tf_frame f)" "concat pieces = tunnel_wire fs"
  shows "run_chunks (codec_feed (stateless tunnel_decode)) ((), []) pieces = Some (((), []), fs)"
  using assms tunnel.mparse_wire [of fs "()" "\<lambda>f. tunnel_encode f []" "[]"] tunnel.micro_Nil
  by (simp add: tunnel.run_mparse tunnel_wire_concat tunnel_micro_encode tunnel.mparse_simps)

theorem tunnel_roundtrip_witness:
  "run_chunks (codec_feed (stateless tunnel_decode)) ((), [])
     [[0x07, 0x05], [0x10, 0xAA, 0xBB, 0x7E, 0x09], [0x06, 0x11, 0x7E, 0xCC], [0xDD, 0x7E]]
   = Some (((), []), [\<lparr>tf_ch_id = 7, tf_frame = [0x05, 0x10, 0xAA, 0xBB, 0x7E]\<rparr>,
       \<lparr>tf_ch_id = 9, tf_frame = [0x06, 0x11, 0x7E, 0xCC, 0xDD, 0x7E]\<rparr>])"
  by (rule tunnel_roundtrip)
     (simp_all add: klipper_frame_def frame_len_ok_def tunnel_wire_def tunnel_encode_def mux_consts)

text \<open>C27: on any bytes cut into any pieces the tunnel decoder returns without panic; every frame it
  delivers is a complete Klipper frame of at most 64 bytes whose encoding, channel id included,
  stands in the stream, in order and disjoint from the others; the bytes it keeps are the end of
  the stream and are never more than 64.\<close>

theorem tunnel_sound:
  "\<exists>r fs. run_chunks (codec_feed (stateless tunnel_decode)) ((), []) pieces = Some (((), r), fs)
     \<and> stands (\<lambda>f. tunnel_encode f []) (concat pieces) fs r
     \<and> list_all (\<lambda>f. klipper_frame (tf_frame f)) fs \<and> length r \<le> MESSAGE_LENGTH_MAX"
proof -
  obtain r fs where p: "mparse tunnel_micro () (concat pieces) = (((), r), fs)"
    by (metis old.unit.exhaust prod.exhaust)
  have "stands (\<lambda>f. tunnel_encode f []) (concat pieces) fs r \<and> list_all (\<lambda>f. klipper_frame (tf_frame f)) fs"
    using tunnel.mparse_stands [of "\<lambda>f. tunnel_encode f []" "\<lambda>f. klipper_frame (tf_frame f)" "concat pieces" "()"]
      tunnel_micro_emits p by simp
  moreover have "length r \<le> MESSAGE_LENGTH_MAX"
    using tunnel.mparse_waits [of "()" "concat pieces"] p by (auto intro: tunnel_waits_short)
  ultimately show ?thesis by (simp add: tunnel.run_mparse p)
qed


section \<open>PayloadTunnelCodec\<close>

fun payload_encode_all :: "payload_frame list \<Rightarrow> bytes \<Rightarrow> encode_error + bytes" where
  "payload_encode_all [] dst = Inr dst"
| "payload_encode_all (f # fs) dst =
     (case payload_encode f dst of Inl e \<Rightarrow> Inl e | Inr dst \<Rightarrow> payload_encode_all fs dst)"

definition payload_bytes :: "payload_frame \<Rightarrow> bytes" where
  "payload_bytes f = pf_ch_id f # of_nat (length (pf_payload f)) # pf_payload f"

lemma payload_encode_all_eq:
  "payload_encode_all fs dst =
     (case find (\<lambda>f. 255 < length (pf_payload f)) fs of
        Some f \<Rightarrow> Inl (PayloadTooLong (length (pf_payload f)))
      | None \<Rightarrow> Inr (dst @ concat (map payload_bytes fs)))"
  by (induction fs arbitrary: dst)
     (auto simp: payload_encode_def payload_bytes_def Let_def split: option.split)

lemma payload_encode_all_Inr:
  "payload_encode_all fs dst = Inr w \<longleftrightarrow>
     (\<forall>f \<in> set fs. length (pf_payload f) \<le> 255) \<and> w = dst @ concat (map payload_bytes fs)"
  by (auto simp: payload_encode_all_eq find_None_iff find_Some_iff not_less split: option.splits)
     (meson nth_mem not_less)+

lemma payload_micro_encode:
  "length (pf_payload f) \<le> 255 \<Longrightarrow>
   payload_micro u (payload_bytes f @ rest) = Emit (length (payload_bytes f)) f ()"
  by (simp add: payload_bytes_def payload_micro_cases unat_of_nat take_bit_nat_eq_self)

lemma payload_micro_emits:
  "payload_micro u buf = Emit n f u' \<Longrightarrow>
   take n buf = payload_bytes f \<and> length (pf_payload f) \<le> 255 \<and> n = length (payload_bytes f)"
  using unat_u8_le [of "buf ! 1"]
  by (auto simp: payload_micro_def payload_bytes_def min_def split: list.splits if_splits)

text \<open>No byte is skipped.\<close>

lemma payload_mparse_lossless:
  "buf = concat (map payload_bytes (snd (mparse payload_micro u buf))) @ snd (fst (mparse payload_micro u buf))
   \<and> (\<forall>f \<in> set (snd (mparse payload_micro u buf)). length (pf_payload f) \<le> 255)"
proof (induction u buf rule: payload.progress_induct)
  case (Wait s buf)
  then show ?case by (simp add: payload.mparse_simps)
next
  case (Skip s buf n s')
  then show ?case by (auto simp: payload_micro_def split: list.splits if_splits)
next
  case (Emit s buf n f s')
  then have "buf = payload_bytes f @ drop n buf" "length (pf_payload f) \<le> 255"
    using payload_micro_emits [OF Emit(1)] by (metis append_take_drop_id)+
  then show ?case using Emit by (simp add: payload.mparse_simps)
qed

text \<open>C29: payload frames that the encoder accepts, written one after the other and received in pieces
  of any sizes, are decoded to exactly those frames with nothing left over; the encoder accepts
  them unless one payload exceeds 255 bytes, and then reports the length of the first such.\<close>

theorem payload_roundtrip:
  assumes "payload_encode_all fs [] = Inr w" "concat pieces = w"
  shows "run_chunks (codec_feed (stateless payload_decode)) ((), []) pieces = Some (((), []), fs)"
  using assms payload.mparse_wire [of fs "()" payload_bytes "[]"] payload.micro_Nil
  by (simp add: payload.run_mparse payload_encode_all_Inr payload_micro_encode payload.mparse_simps)

theorem payload_roundtrip_witness:
  "run_chunks (codec_feed (stateless payload_decode)) ((), []) [[0x02, 0x03, 0x61], [0x62, 0x63, 0xFF], [0x00]]
   = Some (((), []), [\<lparr>pf_ch_id = 2, pf_payload = [0x61, 0x62, 0x63]\<rparr>, \<lparr>pf_ch_id = CTRL_CH, pf_payload = []\<rparr>])"
  by (rule payload_roundtrip [where w = "[0x02, 0x03, 0x61, 0x62, 0x63, 0xFF, 0x00]"])
     (simp_all add: payload_encode_def CTRL_CH_def)

text \<open>The payload decoder loses nothing: on any bytes cut into any pieces it returns without
  panic, and the frames it delivers encode again, without error, to the bytes received, up to
  the incomplete frame at the end that it keeps, which is never more than 256 bytes.\<close>

lemma payload_lossless:
  "\<exists>r fs w. run_chunks (codec_feed (stateless payload_decode)) ((), []) pieces = Some (((), r), fs)
     \<and> payload_encode_all fs [] = Inr w \<and> concat pieces = w @ r \<and> length r \<le> 256"
proof -
  obtain r fs where p: "mparse payload_micro () (concat pieces) = (((), r), fs)"
    by (metis old.unit.exhaust prod.exhaust)
  have "length r \<le> 256" using payload.mparse_waits [of "()" "concat pieces"] p unat_u8_le [of "r ! 1"]
    by (auto simp: payload_micro_def split: list.splits if_splits)
  with p payload_mparse_lossless [of "concat pieces" "()"] show ?thesis
    by (simp add: payload.run_mparse payload_encode_all_Inr)
qed


section \<open>KlipperFramer\<close>

text \<open>Frames with idle sync bytes in front of each.\<close>

definition framer_wire :: "(nat \<times> bytes) list \<Rightarrow> bytes" where
  "framer_wire items = concat (map (\<lambda>(k, f). replicate k MESSAGE_VALUE_SYNC @ f) items)"

lemma klipper_micro_emits:
  "klipper_micro s buf = Emit n f s' \<Longrightarrow> take n buf = f \<and> klipper_frame f"
  by (auto simp: klipper_micro_def intro!: klipper_frame_take split: list.splits if_splits)

lemma klipper_idle: "mparse klipper_micro True (replicate k MESSAGE_VALUE_SYNC @ xs) = mparse klipper_micro True xs"
proof (induction k)
  case (Suc k)
  have "klipper_micro True (MESSAGE_VALUE_SYNC # replicate k MESSAGE_VALUE_SYNC @ xs) = Skip 1 True"
    by (simp add: klipper_micro_def)
  then show ?case using Suc by (simp add: framer.mparse_simps(2))
qed simp

lemma klipper_micro_frame: "klipper_frame f \<Longrightarrow> klipper_micro True (f @ xs) = Emit (length f) f True"
  by (erule klipper_frameE) (auto simp: klipper_micro_def)

lemma klipper_wire:
  "\<forall>(k, f) \<in> set items. klipper_frame f \<Longrightarrow>
   mparse klipper_micro True (framer_wire items) = ((True, []), map snd items)"
proof (induction items)
  case Nil
  show ?case by (simp add: framer_wire_def framer.mparse_simps framer.micro_Nil)
next
  case (Cons item items)
  obtain k f where i: "item = (k, f)" by fastforce
  with Cons have "klipper_frame f" "mparse klipper_micro True (framer_wire items) = ((True, []), map snd items)"
    by auto
  then show ?case
    using framer.mparse_simps(3) [OF klipper_micro_frame, of f "framer_wire items"]
    by (simp add: framer_wire_def i klipper_idle)
qed

text \<open>What the framer holds back is empty or the start of a frame of at most 64 bytes.\<close>

lemma klipper_waits:
  "klipper_micro s buf = Wait \<Longrightarrow>
   buf = [] \<or> s \<and> hd buf \<noteq> MESSAGE_VALUE_SYNC \<and> frame_len_ok (hd buf) \<and> length buf < unat (hd buf)"
  by (auto simp: klipper_micro_def split: list.splits if_splits)

text \<open>A run of sync bytes brings it back to a frame boundary, with at most one more frame.\<close>

lemma klipper_gap:
  assumes "klipper_micro s buf = Wait" "64 \<le> j \<or> buf = [] \<and> 1 \<le> j"
  shows "\<exists>extra. list_all klipper_frame extra \<and> length extra \<le> 1 \<and> (buf = [] \<longrightarrow> extra = []) \<and>
     (\<forall>xs. mparse klipper_micro s (buf @ replicate j MESSAGE_VALUE_SYNC @ xs) =
        (fst (mparse klipper_micro True xs), extra @ snd (mparse klipper_micro True xs)))"
proof (cases "buf = []")
  case True
  obtain k where j: "j = Suc k" using assms(2) by (cases j) auto
  have "klipper_micro s (MESSAGE_VALUE_SYNC # ys) = Skip 1 True" for ys by (simp add: klipper_micro_def)
  then show ?thesis using True
    by (intro exI [of _ "[]"]) (simp add: j framer.mparse_simps(2) klipper_idle)
next
  case False
  then obtain l rest where b: "buf = l # rest" by (cases buf) auto
  with False klipper_waits [OF assms(1)] have s: s "l \<noteq> MESSAGE_VALUE_SYNC" "frame_len_ok l" "length buf < unat l"
    by auto
  then have l64: "unat l \<le> 64" "unat l - length buf \<le> j" using assms(2) False
    by (auto simp: frame_len_ok_def mux_consts)
  define f where "f = buf @ replicate (unat l - length buf) MESSAGE_VALUE_SYNC"
  have f: "klipper_frame f" using s b
    by (auto simp: f_def klipper_frame_def last_append)
  have split: "buf @ replicate j MESSAGE_VALUE_SYNC @ xs
      = f @ replicate (j - (unat l - length buf)) MESSAGE_VALUE_SYNC @ xs" for xs
    using l64(2) by (simp add: f_def replicate_add [symmetric])
  then show ?thesis using f s(1) False
    by (intro exI [of _ "[f]"]) (simp add: split framer.mparse_simps(3) [OF klipper_micro_frame] klipper_idle)
qed

text \<open>C28: whatever bytes the framer has read, from the start or after a line error, a gap of 64 sync
  bytes brings it back to a frame boundary: every complete frame that follows is delivered,
  in order and unchanged, with any number of idle sync bytes between frames and for every way
  the reads cut the stream.  Where the bytes before held no sync byte one sync byte is enough,
  and nothing is delivered for them; otherwise what is delivered for them are complete frames.\<close>

theorem framer_resync:
  assumes "64 \<le> j \<or> MESSAGE_VALUE_SYNC \<notin> set noise \<and> 1 \<le> j"
  shows "\<exists>fs. list_all klipper_frame fs \<and> (MESSAGE_VALUE_SYNC \<notin> set noise \<longrightarrow> fs = []) \<and>
     (\<forall>items pieces. (\<forall>(k, f) \<in> set items. klipper_frame f) \<and>
        concat pieces = noise @ replicate j MESSAGE_VALUE_SYNC @ framer_wire items \<longrightarrow>
        run_chunks (codec_feed klipper_decode) (False, []) pieces = Some ((True, []), fs @ map snd items))"
proof -
  obtain s r fs where p: "mparse klipper_micro False noise = ((s, r), fs)" by (metis prod.exhaust)
  have w: "klipper_micro s r = Wait" using framer.mparse_waits [of False noise] p by simp
  have fs: "list_all klipper_frame fs"
    using framer.mparse_stands [of id klipper_frame noise False] klipper_micro_emits p by simp
  have quiet: "s = False \<and> r = [] \<and> fs = []" if "MESSAGE_VALUE_SYNC \<notin> set noise"
    using that p by (induction noise) (auto simp: framer.mparse_simps(1,2) klipper_micro_def)
  obtain extra where extra: "list_all klipper_frame extra" "r = [] \<longrightarrow> extra = []"
    "\<And>xs. mparse klipper_micro s (r @ replicate j MESSAGE_VALUE_SYNC @ xs) =
        (fst (mparse klipper_micro True xs), extra @ snd (mparse klipper_micro True xs))"
    using klipper_gap [OF w, of j] assms quiet by blast
  have "run_chunks (codec_feed klipper_decode) (False, []) pieces = Some ((True, []), (fs @ extra) @ map snd items)"
    if "\<forall>(k, f) \<in> set items. klipper_frame f"
      "concat pieces = noise @ replicate j MESSAGE_VALUE_SYNC @ framer_wire items" for items pieces
    using framer.mparse_append [of False noise] klipper_wire [OF that(1)] that(2) p extra(3)
    by (simp add: framer.run_mparse)
  then show ?thesis using fs extra quiet by (intro exI [of _ "fs @ extra"]) auto
qed

theorem framer_resync_witness:
  "run_chunks (codec_feed klipper_decode) (False, [])
     [[0x05, 0x10], [0x7E, 0x05, 0x11, 0x7E], [0xBB, 0x7E, 0x7E, 0x05, 0x12, 0xCC, 0xDD, 0x7E]]
   = Some ((True, []), [[0x05, 0x11, 0x7E, 0xBB, 0x7E], [0x05, 0x12, 0xCC, 0xDD, 0x7E]])"
proof -
  have "MESSAGE_VALUE_SYNC \<notin> set [0x05, 0x10]" by (simp add: mux_consts)
  with framer_resync [of 1 "[0x05, 0x10]"]
  have "run_chunks (codec_feed klipper_decode) (False, []) pieces = Some ((True, []), map snd items)"
    if "\<forall>(k, f) \<in> set items. klipper_frame f"
      "concat pieces = [0x05, 0x10] @ replicate 1 MESSAGE_VALUE_SYNC @ framer_wire items" for items pieces
    using that by fastforce
  from this [of "[(0, [0x05, 0x11, 0x7E, 0xBB, 0x7E]), (1, [0x05, 0x12, 0xCC, 0xDD, 0x7E])]"]
  show ?thesis by (simp add: klipper_frame_def frame_len_ok_def framer_wire_def mux_consts del: run_chunks.simps)
qed

end
