(* ===== verification/Transition.thy ===== *)
theory Transition
  imports Main
begin

text \<open>
  Systems of tasks that take turns: a predicate that holds initially and is kept by every turn
  holds in every state that can be reached.  The relays of the bridge are such systems.
\<close>

locale inductive_invariant =
  fixes init :: "'s \<Rightarrow> bool" and step :: "'s \<Rightarrow> 's \<Rightarrow> bool" and holds :: "'s \<Rightarrow> bool"
  assumes init_holds: "init s \<Longrightarrow> holds s"
    and step_holds: "step s t \<Longrightarrow> holds s \<Longrightarrow> holds t"
begin

lemma reaches_holds: "step\<^sup>*\<^sup>* s t \<Longrightarrow> init s \<Longrightarrow> holds t"
proof (induction rule: rtranclp_induct)
  case base
  then show ?case by (rule init_holds)
next
  case (step t u)
  then show ?case using step_holds by blast
qed

end

end
