(* ===== verification/Relay_Tasks.thy ===== *)
theory Relay_Tasks
  imports Tunnel_Props Transition
begin

text \<open>
  The tasks that the relays of the bridge are made of.  A \<open>reader\<close> is a stream with a decoder
  (\<open>FramedRead\<close>) and a \<open>writer\<close> a task that takes items from an unbounded channel and writes
  their encodings to a descriptor.  Both end at the first error and are not restarted.

  The fields \<open>rd_read\<close>, \<open>rd_items\<close> and \<open>wr_sent\<close> are histories: the bytes read and the items decoded so
  far, and the items that the channel has accepted.  No operation depends on them.
\<close>

record ('s, 'b, 'f) reader =
  rd_state :: 's
  rd_buf :: "'b list"
  rd_alive :: bool
  rd_read :: "'b list"
  rd_items :: "'f list"

record 'f writer =
  wr_queue :: "'f list"
  wr_alive :: bool
  wr_out :: bytes
  wr_sent :: "'f list"

text \<open>Bytes arrive on the descriptor of a reader; its stream ends or fails.\<close>

definition rd_data :: "'b list \<Rightarrow> ('s, 'b, 'f) reader \<Rightarrow> ('s, 'b, 'f) reader" where
  "rd_data bs r = (if rd_alive r then r\<lparr>rd_buf := rd_buf r @ bs, rd_read := rd_read r @ bs\<rparr> else r)"

definition rd_end :: "('s, 'b, 'f) reader \<Rightarrow> ('s, 'b, 'f) reader" where
  "rd_end r = r\<lparr>rd_alive := False\<rparr>"

text \<open>The next call of the decoder; \<open>None\<close> is a panic.\<close>

definition rd_next ::
  "('s \<Rightarrow> 'b list \<Rightarrow> ('f option \<times> 's \<times> 'b list) option) \<Rightarrow> ('s, 'b, 'f) reader \<Rightarrow> ('f option \<times> ('s, 'b, 'f) reader) option" where
  "rd_next dec r = do {
     (x, s, buf) \<leftarrow> dec (rd_state r) (rd_buf r);
     Some (x, r\<lparr>rd_state := s, rd_buf := buf,
               rd_items := rd_items r @ (case x of None \<Rightarrow> [] | Some f \<Rightarrow> [f])\<rparr>)
   }"

definition rd_new :: "'s \<Rightarrow> ('s, 'b, 'f) reader" where
  "rd_new s = \<lparr>rd_state = s, rd_buf = [], rd_alive = True, rd_read = [], rd_items = []\<rparr>"

text \<open>\<open>UnboundedSender::send\<close> fails when the receiver is gone, that is when the task has ended.\<close>

definition wr_send :: "'f \<Rightarrow> 'f writer \<Rightarrow> bool \<times> 'f writer" where
  "wr_send f w =
     (if wr_alive w then (True, w\<lparr>wr_queue := wr_queue w @ [f], wr_sent := wr_sent w @ [f]\<rparr>)
      else (False, w))"

text \<open>One turn of the task: the next item is encoded and written.  A write that fails may have
  written a part.\<close>

datatype write_all_result = WroteAll | WroteErr nat

definition wr_step :: "('f \<Rightarrow> bytes \<Rightarrow> encode_error + bytes) \<Rightarrow> write_all_result \<Rightarrow> 'f writer \<Rightarrow> 'f writer" where
  "wr_step encode out w =
     (if \<not> wr_alive w then w
      else case wr_queue w of
        [] \<Rightarrow> w
      | f # fs \<Rightarrow>
          (case encode f [] of
             Inl e \<Rightarrow> w\<lparr>wr_queue := fs, wr_alive := False\<rparr>
           | Inr bs \<Rightarrow>
               (case out of
                  WroteAll \<Rightarrow> w\<lparr>wr_queue := fs, wr_out := wr_out w @ bs\<rparr>
                | WroteErr n \<Rightarrow> w\<lparr>wr_queue := fs, wr_out := wr_out w @ take n bs, wr_alive := False\<rparr>)))"

definition wr_new :: "'f writer" where
  "wr_new = \<lparr>wr_queue = [], wr_alive = True, wr_out = [], wr_sent = []\<rparr>"

text \<open>The two encoders: tunnel frames, and frames that are written as they are (\<open>write_all\<close>).\<close>

definition encode_tunnel :: "tunnel_frame \<Rightarrow> bytes \<Rightarrow> encode_error + bytes" where
  "encode_tunnel f dst = Inr (tunnel_encode f dst)"

definition encode_raw :: "bytes \<Rightarrow> bytes \<Rightarrow> encode_error + bytes" where
  "encode_raw f dst = Inr (dst @ f)"


section \<open>A writer writes a prefix of what it was given\<close>

text \<open>Of the items it was given a writer has taken some, in order.  What is on the descriptor is the
  encodings of those, all of them good, up to a part of the last one when the writer has failed;
  while it has not, the others are still in its queue.\<close>

definition wr_wrote :: "('f \<Rightarrow> bool) \<Rightarrow> ('f \<Rightarrow> bytes) \<Rightarrow> 'f writer \<Rightarrow> bool" where
  "wr_wrote good e w \<longleftrightarrow> (\<exists>took. prefix took (wr_sent w) \<and> list_all good took
     \<and> prefix (wr_out w) (concat (map e took))
     \<and> (wr_alive w \<longrightarrow> wr_out w = concat (map e took) \<and> wr_sent w = took @ wr_queue w))"

abbreviation wr_ok :: "('f \<Rightarrow> bytes) \<Rightarrow> 'f writer \<Rightarrow> bool" where
  "wr_ok \<equiv> wr_wrote (\<lambda>_. True)"

lemma wr_wroteI:
  "wr_sent w = took @ rest \<Longrightarrow> list_all good took \<Longrightarrow> prefix (wr_out w) (concat (map e took)) \<Longrightarrow>
   (wr_alive w \<Longrightarrow> wr_out w = concat (map e took) \<and> wr_queue w = rest) \<Longrightarrow> wr_wrote good e w"
  unfolding wr_wrote_def by (intro exI [of _ took]) auto

lemma wr_wroteE:
  assumes "wr_wrote good e w"
  obtains took rest where "wr_sent w = took @ rest" "list_all good took" "prefix (wr_out w) (concat (map e took))"
    "wr_alive w \<Longrightarrow> wr_out w = concat (map e took) \<and> wr_queue w = rest"
  using assms unfolding wr_wrote_def
  by (elim exE conjE prefixE [of _ "wr_sent w"]) (rule that, auto)

lemma wr_ok_prefix: "wr_wrote good e w \<Longrightarrow> prefix (wr_out w) (concat (map e (wr_sent w)))"
  by (erule wr_wroteE) (auto simp: prefix_def)

text \<open>The items that were written are good when all are.\<close>

lemma wr_wrote_good: "wr_wrote P e w \<Longrightarrow> \<forall>f \<in> set (wr_sent w). good f \<Longrightarrow> wr_wrote good e w"
  unfolding wr_wrote_def list_all_iff using set_mono_prefix by (metis subsetD)

lemma wr_new_ok [simp]: "wr_wrote good e wr_new" "wr_sent wr_new = []" "wr_alive wr_new"
  by (simp_all add: wr_new_def wr_wrote_def)

lemma wr_send_ok:
  assumes "wr_wrote good e w" "wr_send f w = (ok, w')"
  shows "wr_wrote good e w'" "wr_sent w' = wr_sent w @ (if ok then [f] else [])"
proof -
  from assms(1) show "wr_wrote good e w'"
  proof (rule wr_wroteE)
    fix took rest
    assume "wr_sent w = took @ rest" "list_all good took" "prefix (wr_out w) (concat (map e took))"
      "wr_alive w \<Longrightarrow> wr_out w = concat (map e took) \<and> wr_queue w = rest"
    then show ?thesis using assms(2)
      by (intro wr_wroteI [of w' took "rest @ (if wr_alive w then [f] else [])"]) (auto simp: wr_send_def split: if_splits)
  qed
  show "wr_sent w' = wr_sent w @ (if ok then [f] else [])" using assms(2) by (auto simp: wr_send_def split: if_splits)
qed

lemma wr_send_keeps: "wr_wrote good e w \<Longrightarrow> wr_wrote good e (snd (wr_send f w))"
  using wr_send_ok(1) [of good e w f] by (cases "wr_send f w") simp

lemma wr_step_sent [simp]: "wr_sent (wr_step encode out w) = wr_sent w"
  by (simp add: wr_step_def split: list.split sum.split write_all_result.split)

lemma wr_step_ok:
  assumes "wr_wrote good e w" "\<And>f bs. encode f [] = Inr bs \<Longrightarrow> bs = e f \<and> good f"
  shows "wr_wrote good e (wr_step encode out w)"
proof (cases "wr_alive w \<and> wr_queue w \<noteq> []")
  case True
  then obtain f fs where q: "wr_queue w = f # fs" by (cases "wr_queue w") auto
  from assms(1) obtain took where w: "wr_sent w = took @ f # fs" "list_all good took" "wr_out w = concat (map e took)"
    using True q by (auto elim!: wr_wroteE)
  show ?thesis
  proof (cases "encode f []")
    case (Inl err)
    then show ?thesis using w True q by (intro wr_wroteI [of _ took "f # fs"]) (auto simp: wr_step_def)
  next
    case (Inr bs)
    have "prefix (take n bs) bs" for n by (metis append_take_drop_id prefixI)
    then show ?thesis using w True q Inr assms(2) [OF Inr]
      by (intro wr_wroteI [of _ "took @ [f]" fs]) (auto simp: wr_step_def split: write_all_result.split)
  qed
next
  case False
  then have "wr_step encode out w = w" by (auto simp: wr_step_def)
  then show ?thesis using assms(1) by simp
qed

lemma encode_tunnel_ok: "encode_tunnel f [] = Inr bs \<Longrightarrow> bs = tunnel_encode f []"
  by (simp add: encode_tunnel_def)

lemma encode_raw_ok: "encode_raw f [] = Inr bs \<Longrightarrow> bs = id f"
  by (simp add: encode_raw_def)


section \<open>A reader decodes what it reads\<close>

text \<open>The items decoded so far and those still in the buffer are the items of the bytes read.\<close>

definition rd_ok :: "('s \<Rightarrow> 'b list \<Rightarrow> ('s, 'f) action) \<Rightarrow> 's \<Rightarrow> ('s, 'b, 'f) reader \<Rightarrow> bool" where
  "rd_ok micro s r \<longleftrightarrow>
     mparse micro s (rd_read r) =
       (fst (mparse micro (rd_state r) (rd_buf r)), rd_items r @ snd (mparse micro (rd_state r) (rd_buf r)))"

context codec
begin

lemma rd_new_ok: "rd_ok micro s (rd_new s)"
  by (simp add: rd_ok_def rd_new_def)

lemma rd_data_ok: "rd_ok micro s r \<Longrightarrow> rd_ok micro s (rd_data bs r)"
  using mparse_append [of s "rd_read r" bs] mparse_append [of "rd_state r" "rd_buf r" bs]
  by (auto simp: rd_ok_def rd_data_def split: prod.splits)

text \<open>The decoder never panics, and what it returns is the next item.\<close>

lemma rd_next_ok:
  assumes "rd_ok micro s r"
  obtains x r' where "rd_next dec r = Some (x, r')" "rd_ok micro s r'"
    "rd_items r' = rd_items r @ (case x of None \<Rightarrow> [] | Some f \<Rightarrow> [f])"
    "rd_alive r' = rd_alive r" "rd_read r' = rd_read r"
proof -
  obtain x s' buf where m: "mnext micro (rd_state r) (rd_buf r) = (x, s', buf)"
    by (cases "mnext micro (rd_state r) (rd_buf r)")
  let ?r = "r\<lparr>rd_state := s', rd_buf := buf, rd_items := rd_items r @ (case x of None \<Rightarrow> [] | Some f \<Rightarrow> [f])\<rparr>"
  have "mparse micro (rd_state r) (rd_buf r) =
      (fst (mparse micro s' buf), (case x of None \<Rightarrow> [] | Some f \<Rightarrow> [f]) @ snd (mparse micro s' buf))"
  proof (cases x)
    case None
    have "fst (mparse micro s' buf) = (s', buf) \<and> snd (mparse micro s' buf) = []"
      using mnext_waits [of "rd_state r" "rd_buf r"] m None by (simp add: mparse_simps)
    then show ?thesis using mnext_mparse [of "rd_state r" "rd_buf r"] m None by simp
  qed (use mnext_mparse [of "rd_state r" "rd_buf r"] m in simp)
  then have "rd_ok micro s ?r" using assms by (simp add: rd_ok_def)
  then show thesis using that [of x ?r] m by (simp add: rd_next_def dec_next)
qed

text \<open>Everything decoded is in the stream, in order.\<close>

lemma rd_items_prefix: "rd_ok micro s r \<Longrightarrow> prefix (rd_items r) (snd (mparse micro s (rd_read r)))"
  by (simp add: rd_ok_def)

lemma mparse_prefix: "prefix xs ys \<Longrightarrow> prefix (snd (mparse micro s xs)) (snd (mparse micro s ys))"
  using mparse_append [of s xs] by (auto simp: prefix_def split: prod.splits)

end

text \<open>A writer and a reader at the two ends of a link: a decoder that gives back each good item from its
  encoding.  The reader decodes, in order, items that the writer was given, whatever part of the
  written bytes has arrived and however they were cut.\<close>

locale wire_codec = codec micro dec
  for micro :: "'s \<Rightarrow> u8 list \<Rightarrow> ('s, 'f) action" and dec +
  fixes s0 :: 's and good :: "'f \<Rightarrow> bool" and e :: "'f \<Rightarrow> bytes"
  assumes emits: "good f \<Longrightarrow> micro s0 (e f @ rest) = Emit (length (e f)) f s0"
begin

lemma link_items:
  assumes "wr_wrote good e w" "rd_ok micro s0 r" "prefix (rd_read r) (wr_out w)"
  shows "prefix (rd_items r) (wr_sent w)"
proof -
  from assms(1) obtain took rest where w: "wr_sent w = took @ rest" "list_all good took"
    "prefix (wr_out w) (concat (map e took))"
    by (rule wr_wroteE)
  have "mparse micro s0 (concat (map e took)) = ((s0, []), took)"
    using mparse_wire [of took s0 e "[]"] w(2) emits by (simp add: list_all_iff micro_Nil mparse_simps)
  moreover have "prefix (snd (mparse micro s0 (rd_read r))) (snd (mparse micro s0 (concat (map e took))))"
    by (rule mparse_prefix [OF prefix_order.trans [OF assms(3) w(3)]])
  ultimately show ?thesis
    using rd_items_prefix [OF assms(2)] w(1) by (metis append_prefixD prefix_def prefix_order.trans snd_conv)
qed

text \<open>When everything has been written and read, everything can be decoded.\<close>

lemma link_complete:
  assumes "wr_wrote good e w" "wr_alive w" "wr_queue w = []"
    and "rd_ok micro s0 r" "rd_read r = wr_out w"
  shows "rd_items r @ snd (mparse micro (rd_state r) (rd_buf r)) = wr_sent w"
proof -
  from assms(1-3) have w: "list_all good (wr_sent w)" "wr_out w = concat (map e (wr_sent w))"
    by (auto elim!: wr_wroteE)
  have "mparse micro s0 (wr_out w) = ((s0, []), wr_sent w)"
    using mparse_wire [of "wr_sent w" s0 e "[]"] w emits by (simp add: list_all_iff micro_Nil mparse_simps)
  then show ?thesis using assms(4,5) by (simp add: rd_ok_def)
qed

end

abbreviation wire_of :: "tunnel_frame \<Rightarrow> bytes" where
  "wire_of f \<equiv> tunnel_encode f []"

abbreviation short_payload :: "payload_frame \<Rightarrow> bool" where
  "short_payload f \<equiv> length (pf_payload f) \<le> 255"

interpretation tunnel: wire_codec tunnel_micro "stateless tunnel_decode" "()" "\<lambda>f. klipper_frame (tf_frame f)" wire_of
  by unfold_locales (rule tunnel_micro_encode)

interpretation payload: wire_codec payload_micro "stateless payload_decode" "()" short_payload payload_bytes
  by unfold_locales (rule payload_micro_encode)

lemma payload_encode_ok: "payload_encode f [] = Inr bs \<Longrightarrow> bs = payload_bytes f \<and> short_payload f"
  by (auto simp: payload_encode_def payload_bytes_def Let_def split: if_splits)

lemma wr_step_payload:
  "wr_wrote short_payload payload_bytes w \<Longrightarrow> wr_wrote short_payload payload_bytes (wr_step payload_encode out w)"
  by (rule wr_step_ok [OF _ payload_encode_ok])

end
