(* ===== verification/Relay.thy ===== *)
theory Relay
  imports Relay_Tasks
begin

text \<open>
  The transparent relays (\<^verbatim>\<open>windlass/exporter.rs\<close> and \<^verbatim>\<open>windlass/host.rs\<close>) as systems of tasks that
  take turns in any order.  Each turn of a task is a definition; the step relations say that any
  task may take the next turn, and that bytes may arrive at any time.
\<close>

type_synonym klipper_reader = "(bool, u8, bytes) reader"
type_synonym tunnel_reader = "(unit, u8, tunnel_frame) reader"

text \<open>A task that reads Klipper frames and sends them to the USB writer, tagged with the channel: the
  UART reader of the exporter and the socket reader of the host.  It ends when the USB writer has.\<close>

definition forward_next ::
  "u8 \<Rightarrow> klipper_reader \<Rightarrow> tunnel_frame writer \<Rightarrow> (klipper_reader \<times> tunnel_frame writer) option" where
  "forward_next ch_id r usb =
     (if \<not> rd_alive r then Some (r, usb)
      else do {
        (x, r) \<leftarrow> rd_next klipper_decode r;
        Some (case x of
           Some frame \<Rightarrow>
             (case wr_send \<lparr>tf_ch_id = ch_id, tf_frame = frame\<rparr> usb of
                (True, usb) \<Rightarrow> (r, usb)
              | (False, usb) \<Rightarrow> (rd_end r, usb))
         | None \<Rightarrow> (r, usb))
      })"


section \<open>Exporter\<close>

record exporter =
  ex_usb :: "tunnel_frame writer"
  ex_link :: tunnel_reader
  ex_uarts :: "u8 \<Rightarrow> (klipper_reader \<times> bytes writer) option"

definition exporter_new :: "u8 list \<Rightarrow> exporter" where
  "exporter_new ids = \<lparr>ex_usb = wr_new, ex_link = rd_new (),
     ex_uarts = (\<lambda>c. if c \<in> set ids then Some (rd_new False, wr_new) else None)\<rparr>"

text \<open>Task: UART to USB.\<close>

definition ex_uart_next :: "u8 \<Rightarrow> exporter \<Rightarrow> exporter option" where
  "ex_uart_next c x =
     (case ex_uarts x c of
        None \<Rightarrow> Some x
      | Some (r, w) \<Rightarrow> do {
          (r, usb) \<leftarrow> forward_next c r (ex_usb x);
          Some (x\<lparr>ex_usb := usb, ex_uarts := (ex_uarts x)(c \<mapsto> (r, w))\<rparr>)
        })"

text \<open>Task: USB to UART.\<close>

definition ex_uart_write :: "u8 \<Rightarrow> write_all_result \<Rightarrow> exporter \<Rightarrow> exporter" where
  "ex_uart_write c out x =
     (case ex_uarts x c of
        None \<Rightarrow> x
      | Some (r, w) \<Rightarrow> x\<lparr>ex_uarts := (ex_uarts x)(c \<mapsto> (r, wr_step encode_raw out w))\<rparr>)"

text \<open>Task: USB writer.\<close>

definition ex_usb_write :: "write_all_result \<Rightarrow> exporter \<Rightarrow> exporter" where
  "ex_usb_write out x = x\<lparr>ex_usb := wr_step encode_tunnel out (ex_usb x)\<rparr>"

text \<open>The main loop: a frame from the link goes to the channel of the UART it names.\<close>

definition ex_route :: "tunnel_frame \<Rightarrow> exporter \<Rightarrow> exporter" where
  "ex_route tf x =
     (case ex_uarts x (tf_ch_id tf) of
        None \<Rightarrow> x
      | Some (r, w) \<Rightarrow>
          x\<lparr>ex_uarts := (ex_uarts x)(tf_ch_id tf \<mapsto> (r, snd (wr_send (tf_frame tf) w)))\<rparr>)"

definition ex_usb_next :: "exporter \<Rightarrow> exporter option" where
  "ex_usb_next x = do {
     (f, link) \<leftarrow> rd_next (stateless tunnel_decode) (ex_link x);
     let x = x\<lparr>ex_link := link\<rparr>;
     Some (case f of Some tf \<Rightarrow> ex_route tf x | None \<Rightarrow> x)
   }"

text \<open>When the main loop ends the process does, so no task takes a turn after it.\<close>

inductive exporter_step :: "exporter \<Rightarrow> exporter \<Rightarrow> bool" where
  uart_data: "rd_alive (ex_link x) \<Longrightarrow> ex_uarts x c = Some (r, w) \<Longrightarrow>
     exporter_step x (x\<lparr>ex_uarts := (ex_uarts x)(c \<mapsto> (rd_data bs r, w))\<rparr>)"
| uart_end: "rd_alive (ex_link x) \<Longrightarrow> ex_uarts x c = Some (r, w) \<Longrightarrow>
     exporter_step x (x\<lparr>ex_uarts := (ex_uarts x)(c \<mapsto> (rd_end r, w))\<rparr>)"
| uart_next: "rd_alive (ex_link x) \<Longrightarrow> ex_uart_next c x = Some y \<Longrightarrow> exporter_step x y"
| uart_write: "rd_alive (ex_link x) \<Longrightarrow> exporter_step x (ex_uart_write c out x)"
| usb_write: "rd_alive (ex_link x) \<Longrightarrow> exporter_step x (ex_usb_write out x)"
| usb_data: "rd_alive (ex_link x) \<Longrightarrow> exporter_step x (x\<lparr>ex_link := rd_data bs (ex_link x)\<rparr>)"
| usb_next: "rd_alive (ex_link x) \<Longrightarrow> ex_usb_next x = Some y \<Longrightarrow> exporter_step x y"
| usb_end: "rd_alive (ex_link x) \<Longrightarrow> exporter_step x (x\<lparr>ex_link := rd_end (ex_link x)\<rparr>)"

abbreviation exporter_reaches :: "u8 list \<Rightarrow> exporter \<Rightarrow> bool" where
  "exporter_reaches ids \<equiv> exporter_step\<^sup>*\<^sup>* (exporter_new ids)"


section \<open>Host\<close>

text \<open>The connections of Klipper to the socket of a channel, in the order in which they were accepted;
  the tasks of an old one may still run.  \<open>sl_current\<close> is the one whose sender is in the slot.\<close>

record conn =
  cn_reader :: klipper_reader
  cn_writer :: "bytes writer"

record slot =
  sl_conns :: "conn list"
  sl_current :: "nat option"

record host =
  ho_usb :: "tunnel_frame writer"
  ho_link :: tunnel_reader
  ho_slots :: "u8 \<Rightarrow> slot option"

definition host_new :: "u8 list \<Rightarrow> host" where
  "host_new ids = \<lparr>ho_usb = wr_new, ho_link = rd_new (),
     ho_slots = (\<lambda>c. if c \<in> set ids then Some \<lparr>sl_conns = [], sl_current = None\<rparr> else None)\<rparr>"

definition set_slot :: "u8 \<Rightarrow> slot \<Rightarrow> host \<Rightarrow> host" where
  "set_slot c sl h = h\<lparr>ho_slots := (ho_slots h)(c \<mapsto> sl)\<rparr>"

definition set_conn :: "nat \<Rightarrow> conn \<Rightarrow> slot \<Rightarrow> slot" where
  "set_conn k cn sl = sl\<lparr>sl_conns := (sl_conns sl)[k := cn]\<rparr>"

text \<open>The accept task handles one connection at a time: it installs the sender of the new one.\<close>

definition ho_accept :: "slot \<Rightarrow> slot" where
  "ho_accept sl =
     (case sl_current sl of
        Some k \<Rightarrow> sl
      | None \<Rightarrow> sl\<lparr>sl_conns := sl_conns sl @ [\<lparr>cn_reader = rd_new False, cn_writer = wr_new\<rparr>],
                   sl_current := Some (length (sl_conns sl))\<rparr>)"

text \<open>It waits until one of the two tasks of the connection has ended and takes the sender out again.\<close>

definition ho_finish :: "slot \<Rightarrow> slot" where
  "ho_finish sl =
     (case sl_current sl of
        None \<Rightarrow> sl
      | Some k \<Rightarrow>
          if \<not> rd_alive (cn_reader (sl_conns sl ! k)) \<or> \<not> wr_alive (cn_writer (sl_conns sl ! k))
          then sl\<lparr>sl_current := None\<rparr> else sl)"

text \<open>Task: socket to USB, and task: USB to socket.\<close>

definition ho_sock_next :: "u8 \<Rightarrow> nat \<Rightarrow> host \<Rightarrow> host option" where
  "ho_sock_next c k h =
     (case ho_slots h c of
        None \<Rightarrow> Some h
      | Some sl \<Rightarrow>
          if k < length (sl_conns sl) then do {
            let cn = sl_conns sl ! k;
            (r, usb) \<leftarrow> forward_next c (cn_reader cn) (ho_usb h);
            Some (set_slot c (set_conn k (cn\<lparr>cn_reader := r\<rparr>) sl) (h\<lparr>ho_usb := usb\<rparr>))
          } else Some h)"

definition ho_sock_write :: "write_all_result \<Rightarrow> conn \<Rightarrow> conn" where
  "ho_sock_write out cn = cn\<lparr>cn_writer := wr_step encode_raw out (cn_writer cn)\<rparr>"

text \<open>Task: USB writer.\<close>

definition ho_usb_write :: "write_all_result \<Rightarrow> host \<Rightarrow> host" where
  "ho_usb_write out h = h\<lparr>ho_usb := wr_step encode_tunnel out (ho_usb h)\<rparr>"

text \<open>The main loop: a frame goes to the current client of its channel and is dropped without one.\<close>

definition slot_send :: "bytes \<Rightarrow> slot \<Rightarrow> slot" where
  "slot_send frame sl =
     (case sl_current sl of
        None \<Rightarrow> sl
      | Some k \<Rightarrow>
          let cn = sl_conns sl ! k
          in set_conn k (cn\<lparr>cn_writer := snd (wr_send frame (cn_writer cn))\<rparr>) sl)"

definition ho_route :: "tunnel_frame \<Rightarrow> host \<Rightarrow> host" where
  "ho_route tf h =
     (case ho_slots h (tf_ch_id tf) of
        None \<Rightarrow> h
      | Some sl \<Rightarrow> set_slot (tf_ch_id tf) (slot_send (tf_frame tf) sl) h)"

definition ho_usb_next :: "host \<Rightarrow> host option" where
  "ho_usb_next h = do {
     (f, link) \<leftarrow> rd_next (stateless tunnel_decode) (ho_link h);
     let h = h\<lparr>ho_link := link\<rparr>;
     Some (case f of Some tf \<Rightarrow> ho_route tf h | None \<Rightarrow> h)
   }"

inductive conn_step :: "conn \<Rightarrow> conn \<Rightarrow> bool" where
  sock_data: "conn_step cn (cn\<lparr>cn_reader := rd_data bs (cn_reader cn)\<rparr>)"
| sock_end: "conn_step cn (cn\<lparr>cn_reader := rd_end (cn_reader cn)\<rparr>)"
| sock_write: "conn_step cn (ho_sock_write out cn)"

inductive slot_step :: "slot \<Rightarrow> slot \<Rightarrow> bool" where
  accept: "slot_step sl (ho_accept sl)"
| finish: "slot_step sl (ho_finish sl)"
| conn: "k < length (sl_conns sl) \<Longrightarrow> conn_step (sl_conns sl ! k) cn \<Longrightarrow> slot_step sl (set_conn k cn sl)"

inductive host_step :: "host \<Rightarrow> host \<Rightarrow> bool" where
  slot: "rd_alive (ho_link h) \<Longrightarrow> ho_slots h c = Some sl \<Longrightarrow> slot_step sl sl' \<Longrightarrow> host_step h (set_slot c sl' h)"
| sock_next: "rd_alive (ho_link h) \<Longrightarrow> ho_sock_next c k h = Some h' \<Longrightarrow> host_step h h'"
| usb_write: "rd_alive (ho_link h) \<Longrightarrow> host_step h (ho_usb_write out h)"
| usb_data: "rd_alive (ho_link h) \<Longrightarrow> host_step h (h\<lparr>ho_link := rd_data bs (ho_link h)\<rparr>)"
| usb_next: "rd_alive (ho_link h) \<Longrightarrow> ho_usb_next h = Some h' \<Longrightarrow> host_step h h'"
| usb_end: "rd_alive (ho_link h) \<Longrightarrow> host_step h (h\<lparr>ho_link := rd_end (ho_link h)\<rparr>)"

abbreviation host_reaches :: "u8 list \<Rightarrow> host \<Rightarrow> bool" where
  "host_reaches ids \<equiv> host_step\<^sup>*\<^sup>* (host_new ids)"

end
