(* ===== verification/Relay_Props.thy ===== *)
theory Relay_Props
  imports Relay "HOL-Library.Multiset"
begin

text \<open>
  What the transparent relays promise: the frames of a channel arrive whole, unchanged and in order,
  in both directions and for every interleaving of the tasks, and frames of different channels are
  not mixed.  Invariants of the two systems of tasks, by induction over their steps, are
  joined at the link.
\<close>

definition frames_of :: "u8 \<Rightarrow> tunnel_frame list \<Rightarrow> bytes list" where
  "frames_of c fs = map tf_frame (filter (\<lambda>f. tf_ch_id f = c) fs)"

lemma frames_of_simps [simp]:
  "frames_of c [] = []" "frames_of c (fs @ gs) = frames_of c fs @ frames_of c gs"
  "frames_of c [f] = (if tf_ch_id f = c then [tf_frame f] else [])"
  by (simp_all add: frames_of_def)

lemma frames_of_prefix: "prefix fs gs \<Longrightarrow> prefix (frames_of c fs) (frames_of c gs)"
  by (auto simp: prefix_def)

text \<open>The frames that \<open>KlipperFramer\<close> finds in a stream.\<close>

definition framed :: "bytes \<Rightarrow> bytes list" where
  "framed bs = snd (mparse klipper_micro False bs)"

lemma framed_run: "run_chunks (codec_feed klipper_decode) (False, []) pieces = Some (st, fs) \<Longrightarrow> fs = framed (concat pieces)"
  by (simp add: framed_def framer.run_mparse)

lemma framed_frames: "list_all klipper_frame (framed bs)"
  using framer.mparse_stands [of id klipper_frame bs False] klipper_micro_emits by (simp add: framed_def)

lemma framer_items: "rd_ok klipper_micro False r \<Longrightarrow> prefix (rd_items r) (framed (rd_read r))"
  unfolding framed_def by (rule framer.rd_items_prefix)

lemma prefix_all: "prefix xs ys \<Longrightarrow> list_all P ys \<Longrightarrow> list_all P xs"
  by (auto simp: prefix_def)


section \<open>Forwarding\<close>

text \<open>One turn of a forwarding task: it never panics, it sends at most the next frame of its stream,
  and it ends when it could not.\<close>

lemma forward_next_ok:
  assumes "rd_ok klipper_micro False r" "wr_ok wire_of usb"
    and "prefix sent (rd_items r)" "rd_alive r \<Longrightarrow> sent = rd_items r"
  obtains r' usb' new where "forward_next c r usb = Some (r', usb')"
    "rd_ok klipper_micro False r'" "wr_ok wire_of usb'"
    "wr_sent usb' = wr_sent usb @ map (\<lambda>f. \<lparr>tf_ch_id = c, tf_frame = f\<rparr>) new"
    "new = [] \<or> (\<exists>f. new = [f])"
    "prefix (sent @ new) (rd_items r')" "rd_alive r' \<Longrightarrow> sent @ new = rd_items r'"
proof (cases "rd_alive r")
  case False
  then show thesis using that [of r usb "[]"] assms by (simp add: forward_next_def)
next
  case True
  obtain x r' where n: "rd_next klipper_decode r = Some (x, r')" "rd_ok klipper_micro False r'"
    "rd_items r' = rd_items r @ (case x of None \<Rightarrow> [] | Some f \<Rightarrow> [f])" "rd_alive r' = rd_alive r"
    using framer.rd_next_ok [OF assms(1)] by metis
  show thesis
  proof (cases x)
    case None
    then show thesis using that [of r' usb "[]"] True n assms by (simp add: forward_next_def)
  next
    case (Some f)
    obtain ok usb' where s: "wr_send \<lparr>tf_ch_id = c, tf_frame = f\<rparr> usb = (ok, usb')" by fastforce
    have "rd_ok klipper_micro False (rd_end r')" using n(2) by (simp add: rd_ok_def rd_end_def)
    then show thesis
      using that [of r' usb' "[f]"] that [of "rd_end r'" usb' "[]"] True n assms Some s wr_send_ok [OF assms(2) s]
      by (cases ok) (simp_all add: forward_next_def rd_end_def)
  qed
qed

lemma frames_of_tagged:
  "frames_of c (map (\<lambda>f. \<lparr>tf_ch_id = d, tf_frame = f\<rparr>) new) = (if c = d then new else [])"
  by (induction new) (auto simp: frames_of_def)


section \<open>The exporter\<close>

text \<open>The invariant of one UART: what it sent are the frames of its stream, and what it was sent are
  the frames of the link.\<close>

definition uart_ok :: "bytes list \<Rightarrow> bytes list \<Rightarrow> klipper_reader \<times> bytes writer \<Rightarrow> bool" where
  "uart_ok sent got u \<longleftrightarrow> (case u of (r, w) \<Rightarrow>
     rd_ok klipper_micro False r \<and> prefix sent (rd_items r) \<and> (rd_alive r \<longrightarrow> sent = rd_items r)
     \<and> wr_ok id w \<and> prefix (wr_sent w) got \<and> (wr_alive w \<longrightarrow> wr_sent w = got))"

definition exporter_ok :: "exporter \<Rightarrow> bool" where
  "exporter_ok x \<longleftrightarrow> wr_ok wire_of (ex_usb x) \<and> rd_ok tunnel_micro () (ex_link x)
     \<and> (\<forall>f \<in> set (wr_sent (ex_usb x)). ex_uarts x (tf_ch_id f) \<noteq> None)
     \<and> (\<forall>c u. ex_uarts x c = Some u \<longrightarrow>
          uart_ok (frames_of c (wr_sent (ex_usb x))) (frames_of c (rd_items (ex_link x))) u)"

lemma rd_mild [simp]:
  "rd_items (rd_data bs r) = rd_items r" "rd_alive (rd_data bs r) = rd_alive r"
  "rd_items (rd_end r) = rd_items r" "\<not> rd_alive (rd_end r)" "rd_read (rd_end r) = rd_read r"
  "rd_ok micro s (rd_end r) = rd_ok micro s r"
  by (simp_all add: rd_data_def rd_end_def rd_ok_def)

lemma wr_step_raw:
  "wr_ok id w \<Longrightarrow> wr_ok id (wr_step encode_raw out w)" "wr_sent (wr_step encode_raw out w) = wr_sent w"
  "wr_alive (wr_step encode_raw out w) \<Longrightarrow> wr_alive w"
  using wr_step_ok [of "\<lambda>_. True" id w encode_raw out] encode_raw_ok
  by (auto simp: wr_step_def split: list.splits sum.splits write_all_result.splits if_splits)

lemma wr_step_tunnel:
  "wr_ok wire_of w \<Longrightarrow> wr_ok wire_of (wr_step encode_tunnel out w)" "wr_sent (wr_step encode_tunnel out w) = wr_sent w"
  using wr_step_ok [of "\<lambda>_. True" wire_of w encode_tunnel out] encode_tunnel_ok
  by (auto simp: wr_step_def split: list.splits sum.splits write_all_result.splits if_splits)

lemma exporter_new_ok: "exporter_ok (exporter_new ids)"
  using tunnel.rd_new_ok framer.rd_new_ok
  by (auto simp: exporter_ok_def exporter_new_def uart_ok_def rd_new_def wr_new_def [symmetric] split: if_splits)

lemma ex_uart_next_ok:
  assumes "exporter_ok x"
  shows "\<exists>y. ex_uart_next c x = Some y \<and> exporter_ok y"
proof (cases "ex_uarts x c")
  case None
  then show ?thesis using assms by (simp add: ex_uart_next_def)
next
  case (Some u)
  obtain r w where u: "u = (r, w)" by fastforce
  have i: "uart_ok (frames_of c (wr_sent (ex_usb x))) (frames_of c (rd_items (ex_link x))) (r, w)"
    using assms Some u by (simp add: exporter_ok_def)
  obtain r' usb' new where n: "forward_next c r (ex_usb x) = Some (r', usb')"
    "rd_ok klipper_micro False r'" "wr_ok wire_of usb'"
    "wr_sent usb' = wr_sent (ex_usb x) @ map (\<lambda>f. \<lparr>tf_ch_id = c, tf_frame = f\<rparr>) new"
    "prefix (frames_of c (wr_sent (ex_usb x)) @ new) (rd_items r')"
    "rd_alive r' \<Longrightarrow> frames_of c (wr_sent (ex_usb x)) @ new = rd_items r'"
    by (rule forward_next_ok [of r "ex_usb x" "frames_of c (wr_sent (ex_usb x))" c])
       (use assms i in \<open>auto simp: uart_ok_def exporter_ok_def\<close>)
  have "exporter_ok (x\<lparr>ex_usb := usb', ex_uarts := (ex_uarts x)(c \<mapsto> (r', w))\<rparr>)"
    using assms i n by (auto simp: exporter_ok_def uart_ok_def frames_of_tagged)
  then show ?thesis using Some u n(1) by (simp add: ex_uart_next_def)
qed

lemma wr_send_routed:
  assumes "wr_ok e w" "prefix (wr_sent w) got" "wr_alive w \<longrightarrow> wr_sent w = got"
  shows "wr_ok e (snd (wr_send f w))" "prefix (wr_sent (snd (wr_send f w))) (got @ [f])"
    "wr_alive (snd (wr_send f w)) \<longrightarrow> wr_sent (snd (wr_send f w)) = got @ [f]"
  using wr_send_keeps [OF assms(1)] assms(2,3) by (auto simp: wr_send_def)

lemma ex_usb_next_ok:
  assumes "exporter_ok x"
  shows "\<exists>y. ex_usb_next x = Some y \<and> exporter_ok y"
proof -
  obtain f link where n: "rd_next (stateless tunnel_decode) (ex_link x) = Some (f, link)"
    "rd_ok tunnel_micro () link" "rd_items link = rd_items (ex_link x) @ (case f of None \<Rightarrow> [] | Some g \<Rightarrow> [g])"
    using tunnel.rd_next_ok [of "()" "ex_link x"] assms unfolding exporter_ok_def by metis
  let ?x = "x\<lparr>ex_link := link\<rparr>"
  have "exporter_ok (case f of Some tf \<Rightarrow> ex_route tf ?x | None \<Rightarrow> ?x)"
  proof (cases f)
    case None
    then show ?thesis using assms n by (simp add: exporter_ok_def)
  next
    case (Some tf)
    let ?got = "\<lambda>c. frames_of c (rd_items (ex_link x))"
    show ?thesis
    proof (cases "ex_uarts x (tf_ch_id tf)")
      case None
      then show ?thesis using assms n Some by (auto simp: exporter_ok_def ex_route_def)
    next
      case u: (Some u)
      obtain r w where rw: "u = (r, w)" by fastforce
      have "uart_ok (frames_of (tf_ch_id tf) (wr_sent (ex_usb x))) (?got (tf_ch_id tf)) (r, w)"
        using assms u rw by (simp add: exporter_ok_def)
      then show ?thesis using assms n Some u rw wr_send_routed [of id w "?got (tf_ch_id tf)" "tf_frame tf"]
        by (auto simp: exporter_ok_def ex_route_def uart_ok_def)
    qed
  qed
  then show ?thesis using n(1) by (simp add: ex_usb_next_def Let_def)
qed

lemma exporter_step_ok: "exporter_step x y \<Longrightarrow> exporter_ok x \<Longrightarrow> exporter_ok y"
proof (induction rule: exporter_step.induct)
  case (uart_data x c r w bs)
  then show ?case using framer.rd_data_ok by (auto simp: exporter_ok_def uart_ok_def)
next
  case (uart_end x c r w)
  then show ?case by (auto simp: exporter_ok_def uart_ok_def)
next
  case (uart_next x c y)
  then show ?case using ex_uart_next_ok [of x c] by auto
next
  case (uart_write x c out)
  then show ?case using wr_step_raw
    by (auto simp: exporter_ok_def ex_uart_write_def uart_ok_def split: option.split)
next
  case (usb_write x out)
  then show ?case by (simp add: exporter_ok_def ex_usb_write_def wr_step_tunnel)
next
  case (usb_data x bs)
  then show ?case using tunnel.rd_data_ok by (auto simp: exporter_ok_def)
next
  case (usb_next x y)
  then show ?case using ex_usb_next_ok [of x] by auto
next
  case (usb_end x)
  then show ?case by (simp add: exporter_ok_def)
qed

interpretation exporter: inductive_invariant "\<lambda>x. \<exists>ids. x = exporter_new ids" exporter_step exporter_ok
  by unfold_locales (auto intro: exporter_new_ok exporter_step_ok)

lemma exporter_reaches_ok: "exporter_reaches ids x \<Longrightarrow> exporter_ok x"
  by (rule exporter.reaches_holds) blast+


section \<open>The host\<close>

text \<open>A list that is an interleaving of others, built up one element at a time.\<close>

inductive merged :: "'a list list \<Rightarrow> 'a list \<Rightarrow> bool" where
  merged_Nil: "merged [] []"
| merged_open: "merged xss ys \<Longrightarrow> merged (xss @ [[]]) ys"
| merged_add: "merged xss ys \<Longrightarrow> k < length xss \<Longrightarrow> merged (xss[k := xss ! k @ [y]]) (ys @ [y])"

lemma merged_subseq: "merged xss ys \<Longrightarrow> k < length xss \<Longrightarrow> subseq (xss ! k) ys"
proof (induction arbitrary: k rule: merged.induct)
  case (merged_open xss ys)
  then show ?case by (cases "k = length xss") (auto simp: nth_append)
next
  case (merged_add xss ys j y)
  then show ?case by (cases "k = j") (auto simp: nth_list_update intro: subseq_order.trans)
qed simp

lemma merged_mset: "merged xss ys \<Longrightarrow> mset ys = mset (concat xss)"
proof (induction rule: merged.induct)
  case (merged_add xss ys k y)
  have "xss = take k xss @ xss ! k # drop (Suc k) xss" using merged_add(2) by (rule id_take_nth_drop)
  then have "mset (concat xss) = mset (concat (take k xss)) + mset (xss ! k) + mset (concat (drop (Suc k) xss))"
    by (metis concat.simps(2) concat_append mset_append add.assoc)
  then show ?case using merged_add by (simp add: upd_conv_take_nth_drop)
qed auto

text \<open>A connection: what it sent so far is a prefix of the frames of its stream.\<close>

definition conn_ok :: "conn \<Rightarrow> bytes list \<Rightarrow> bool" where
  "conn_ok cn sent \<longleftrightarrow> rd_ok klipper_micro False (cn_reader cn) \<and> wr_ok id (cn_writer cn)
     \<and> prefix sent (rd_items (cn_reader cn)) \<and> (rd_alive (cn_reader cn) \<longrightarrow> sent = rd_items (cn_reader cn))"

definition routed :: "slot \<Rightarrow> bytes list list" where
  "routed sl = map (\<lambda>cn. wr_sent (cn_writer cn)) (sl_conns sl)"

definition slot_ok :: "bytes list \<Rightarrow> bytes list \<Rightarrow> slot \<Rightarrow> bool" where
  "slot_ok sent got sl \<longleftrightarrow> (\<forall>k. sl_current sl = Some k \<longrightarrow> length (sl_conns sl) = Suc k)
     \<and> subseq (concat (routed sl)) got
     \<and> (\<exists>sents. merged sents sent \<and> list_all2 conn_ok (sl_conns sl) sents)"

definition host_ok :: "host \<Rightarrow> bool" where
  "host_ok h \<longleftrightarrow> wr_ok wire_of (ho_usb h) \<and> rd_ok tunnel_micro () (ho_link h)
     \<and> (\<forall>f \<in> set (wr_sent (ho_usb h)). ho_slots h (tf_ch_id f) \<noteq> None)
     \<and> (\<forall>c sl. ho_slots h c = Some sl \<longrightarrow>
          slot_ok (frames_of c (wr_sent (ho_usb h))) (frames_of c (rd_items (ho_link h))) sl)"

lemma host_new_ok: "host_ok (host_new ids)"
proof -
  have "slot_ok [] [] \<lparr>sl_conns = [], sl_current = None\<rparr>"
    using merged_Nil by (auto simp: slot_ok_def routed_def)
  then show ?thesis using tunnel.rd_new_ok
    by (auto simp: host_ok_def host_new_def rd_new_def wr_new_def [symmetric] split: if_splits)
qed

lemma slot_ok_got: "slot_ok sent got sl \<Longrightarrow> slot_ok sent (got @ gs) sl"
  unfolding slot_ok_def by (metis subseq_order.trans prefix_imp_subseq prefixI)

lemma accept_ok: "slot_ok sent got sl \<Longrightarrow> slot_ok sent got (ho_accept sl)"
proof -
  assume s: "slot_ok sent got sl"
  have new: "conn_ok \<lparr>cn_reader = rd_new False, cn_writer = wr_new\<rparr> []"
    using framer.rd_new_ok by (simp add: conn_ok_def rd_new_def)
  from s obtain sents where "merged sents sent" "list_all2 conn_ok (sl_conns sl) sents" by (auto simp: slot_ok_def)
  then have "merged (sents @ [[]]) sent"
    "list_all2 conn_ok (sl_conns sl @ [\<lparr>cn_reader = rd_new False, cn_writer = wr_new\<rparr>]) (sents @ [[]])"
    using merged_open new by (auto intro: list_all2_appendI)
  then show ?thesis using s
    by (auto simp: slot_ok_def ho_accept_def routed_def split: option.split)
qed

lemma finish_ok: "slot_ok sent got sl \<Longrightarrow> slot_ok sent got (ho_finish sl)"
  by (auto simp: slot_ok_def ho_finish_def routed_def split: option.split)

lemma conn_step_ok: "conn_step cn cn' \<Longrightarrow> conn_ok cn sent \<Longrightarrow> conn_ok cn' sent \<and> wr_sent (cn_writer cn') = wr_sent (cn_writer cn)"
  by (induction rule: conn_step.induct)
     (auto simp: conn_ok_def ho_sock_write_def wr_step_raw intro: framer.rd_data_ok)

lemma map_update_same: "k < length xs \<Longrightarrow> f x = f (xs ! k) \<Longrightarrow> map f (xs[k := x]) = map f xs"
  by (metis list_update_id map_update)

lemma slot_step_ok: "slot_step sl sl' \<Longrightarrow> slot_ok sent got sl \<Longrightarrow> slot_ok sent got sl'"
proof (induction rule: slot_step.induct)
  case (conn k sl cn)
  from conn.prems obtain sents where s: "merged sents sent" "list_all2 conn_ok (sl_conns sl) sents"
    by (auto simp: slot_ok_def)
  then have "conn_ok (sl_conns sl ! k) (sents ! k)" using conn.hyps(1) by (simp add: list_all2_nthD)
  from conn_step_ok [OF conn.hyps(2) this] have
    "conn_ok cn (sents ! k)" "wr_sent (cn_writer cn) = wr_sent (cn_writer (sl_conns sl ! k))" by auto
  moreover from this(1) s(2) have "list_all2 conn_ok ((sl_conns sl)[k := cn]) sents"
    using list_all2_update_cong [of conn_ok "sl_conns sl" sents cn "sents ! k" k] by simp
  ultimately show ?case using conn.prems s(1) conn.hyps(1)
    by (auto simp: slot_ok_def set_conn_def routed_def map_update_same)
qed (simp_all add: accept_ok finish_ok)

lemma slot_send_ok:
  assumes "slot_ok sent got sl"
  shows "slot_ok sent (got @ [f]) (slot_send f sl)"
proof (cases "sl_current sl")
  case None
  then show ?thesis using slot_ok_got [OF assms] by (simp add: slot_send_def)
next
  case (Some k)
  with assms have len: "length (sl_conns sl) = Suc k" by (simp add: slot_ok_def)
  then obtain cs cn where cs: "sl_conns sl = cs @ [cn]" "length cs = k"
    by (metis append_butlast_last_id length_butlast diff_Suc_1 list.size(3) nat.distinct(1))
  obtain sents where s: "merged sents sent" "list_all2 conn_ok (sl_conns sl) sents" using assms by (auto simp: slot_ok_def)
  let ?cn = "cn\<lparr>cn_writer := snd (wr_send f (cn_writer cn))\<rparr>"
  have "conn_ok cn (sents ! k)" using list_all2_nthD [OF s(2), of k] cs by auto
  then have "conn_ok ?cn (sents ! k)" by (simp add: conn_ok_def wr_send_keeps)
  then have "list_all2 conn_ok (cs @ [?cn]) sents"
    using list_all2_update_cong [OF s(2), of ?cn "sents ! k" k] cs by auto
  moreover have got: "subseq (concat (map (\<lambda>cn. wr_sent (cn_writer cn)) cs) @ wr_sent (cn_writer cn)) got"
    using assms by (simp add: slot_ok_def routed_def cs)
  then have "subseq ((concat (map (\<lambda>cn. wr_sent (cn_writer cn)) cs) @ wr_sent (cn_writer cn)) @ [f]) (got @ [f])"
    by (rule list_emb_append_mono) simp
  then have "subseq (concat (map (\<lambda>cn. wr_sent (cn_writer cn)) cs) @ wr_sent (snd (wr_send f (cn_writer cn)))) (got @ [f])"
    using got by (auto simp: wr_send_def intro: subseq_order.trans)
  ultimately show ?thesis using s(1) Some cs
    by (auto simp: slot_ok_def slot_send_def set_conn_def routed_def Let_def)
qed

lemma ho_sock_next_ok:
  assumes "host_ok h"
  shows "\<exists>h'. ho_sock_next c k h = Some h' \<and> host_ok h'"
proof (cases "ho_slots h c")
  case None
  then show ?thesis using assms by (simp add: ho_sock_next_def)
next
  case (Some sl)
  let ?sent = "frames_of c (wr_sent (ho_usb h))" and ?cn = "sl_conns sl ! k"
  have sl: "slot_ok ?sent (frames_of c (rd_items (ho_link h))) sl" using assms Some by (simp add: host_ok_def)
  then obtain sents where s: "merged sents ?sent" "list_all2 conn_ok (sl_conns sl) sents" by (auto simp: slot_ok_def)
  show ?thesis
  proof (cases "k < length (sl_conns sl)")
    case False
    then show ?thesis using assms Some by (simp add: ho_sock_next_def)
  next
    case True
    then have k: "conn_ok ?cn (sents ! k)" "k < length sents"
      using s(2) by (auto simp: list_all2_nthD dest: list_all2_lengthD)
    obtain r usb new where n: "forward_next c (cn_reader ?cn) (ho_usb h) = Some (r, usb)"
      "rd_ok klipper_micro False r" "wr_ok wire_of usb"
      "wr_sent usb = wr_sent (ho_usb h) @ map (\<lambda>f. \<lparr>tf_ch_id = c, tf_frame = f\<rparr>) new"
      "new = [] \<or> (\<exists>f. new = [f])" "prefix (sents ! k @ new) (rd_items r)"
      "rd_alive r \<Longrightarrow> sents ! k @ new = rd_items r"
      by (rule forward_next_ok [of "cn_reader ?cn" "ho_usb h" "sents ! k" c])
         (use assms k in \<open>auto simp: conn_ok_def host_ok_def\<close>)
    let ?cn' = "?cn\<lparr>cn_reader := r\<rparr>"
    have "merged (sents[k := sents ! k @ new]) (?sent @ new)" using n(5) s(1) k(2) merged_add by fastforce
    moreover have "conn_ok ?cn' (sents ! k @ new)" using k n by (simp add: conn_ok_def)
    then have "list_all2 conn_ok ((sl_conns sl)[k := ?cn']) (sents[k := sents ! k @ new])"
      using s(2) by (rule list_all2_update_cong [rotated])
    ultimately have "slot_ok (?sent @ new) (frames_of c (rd_items (ho_link h))) (set_conn k ?cn' sl)"
      using sl True by (auto simp: slot_ok_def set_conn_def routed_def map_update_same)
    then have "host_ok (set_slot c (set_conn k ?cn' sl) (h\<lparr>ho_usb := usb\<rparr>))"
      using assms n(3,4) by (auto simp: host_ok_def set_slot_def frames_of_tagged)
    then show ?thesis using Some True n(1) by (simp add: ho_sock_next_def Let_def)
  qed
qed

lemma ho_usb_next_ok:
  assumes "host_ok h"
  shows "\<exists>h'. ho_usb_next h = Some h' \<and> host_ok h'"
proof -
  obtain f link where n: "rd_next (stateless tunnel_decode) (ho_link h) = Some (f, link)"
    "rd_ok tunnel_micro () link" "rd_items link = rd_items (ho_link h) @ (case f of None \<Rightarrow> [] | Some g \<Rightarrow> [g])"
    using tunnel.rd_next_ok [of "()" "ho_link h"] assms unfolding host_ok_def by metis
  have "host_ok (case f of Some tf \<Rightarrow> ho_route tf (h\<lparr>ho_link := link\<rparr>) | None \<Rightarrow> h\<lparr>ho_link := link\<rparr>)"
  proof (cases f)
    case None
    then show ?thesis using assms n by (simp add: host_ok_def)
  next
    case (Some tf)
    then show ?thesis using assms n slot_send_ok
      by (auto simp: host_ok_def ho_route_def set_slot_def split: option.split)
  qed
  then show ?thesis using n(1) by (simp add: ho_usb_next_def Let_def)
qed

lemma host_step_ok: "host_step h h' \<Longrightarrow> host_ok h \<Longrightarrow> host_ok h'"
proof (induction rule: host_step.induct)
  case (slot h c sl sl')
  then show ?case using slot_step_ok by (auto simp: host_ok_def set_slot_def)
next
  case (sock_next h c k h')
  then show ?case using ho_sock_next_ok [of h c k] by auto
next
  case (usb_write h out)
  then show ?case by (simp add: host_ok_def ho_usb_write_def wr_step_tunnel)
next
  case (usb_data h bs)
  then show ?case using tunnel.rd_data_ok by (auto simp: host_ok_def)
next
  case (usb_next h h')
  then show ?case using ho_usb_next_ok [of h] by auto
next
  case (usb_end h)
  then show ?case by (simp add: host_ok_def)
qed

interpretation host: inductive_invariant "\<lambda>h. \<exists>ids. h = host_new ids" host_step host_ok
  by unfold_locales (auto intro: host_new_ok host_step_ok)

lemma host_reaches_ok: "host_reaches ids h \<Longrightarrow> host_ok h"
  by (rule host.reaches_holds) blast+


section \<open>End to end\<close>

lemma frames_of_mem: "f \<in> set fs \<Longrightarrow> tf_frame f \<in> set (frames_of (tf_ch_id f) fs)"
  by (auto simp: frames_of_def)

lemma framed_mem: "prefix fs (framed bs) \<Longrightarrow> f \<in> set fs \<Longrightarrow> klipper_frame f"
  using framed_frames [of bs] set_mono_prefix [of fs "framed bs"] by (auto simp: list_all_iff)

lemma exporter_sent_frames:
  assumes "exporter_ok x"
  shows "\<forall>f \<in> set (wr_sent (ex_usb x)). klipper_frame (tf_frame f)"
proof
  fix f assume f: "f \<in> set (wr_sent (ex_usb x))"
  then obtain r w where u: "ex_uarts x (tf_ch_id f) = Some (r, w)" using assms by (fastforce simp: exporter_ok_def)
  let ?fs = "frames_of (tf_ch_id f) (wr_sent (ex_usb x))"
  have "prefix ?fs (rd_items r)" "rd_ok klipper_micro False r"
    using assms u by (auto simp: exporter_ok_def uart_ok_def)
  then have "prefix ?fs (framed (rd_read r))" using framer_items prefix_order.trans by blast
  then show "klipper_frame (tf_frame f)" using frames_of_mem [OF f] by (rule framed_mem)
qed

lemma conn_sent: "conn_ok cn sent \<Longrightarrow> prefix sent (framed (rd_read (cn_reader cn)))"
  using framer_items [of "cn_reader cn"] by (auto simp: conn_ok_def)

lemma host_sent_frames:
  assumes "host_ok h"
  shows "\<forall>f \<in> set (wr_sent (ho_usb h)). klipper_frame (tf_frame f)"
proof
  fix f assume f: "f \<in> set (wr_sent (ho_usb h))"
  then obtain sl where u: "ho_slots h (tf_ch_id f) = Some sl" using assms by (fastforce simp: host_ok_def)
  let ?fs = "frames_of (tf_ch_id f) (wr_sent (ho_usb h))"
  obtain sents where s: "merged sents ?fs" "list_all2 conn_ok (sl_conns sl) sents"
    using assms u by (fastforce simp: host_ok_def slot_ok_def)
  have "set ?fs = set (concat sents)" using merged_mset [OF s(1)] by (metis set_mset_mset)
  then obtain k where k: "k < length sents" "tf_frame f \<in> set (sents ! k)"
    using frames_of_mem [OF f] by (auto simp: set_conv_nth [of sents])
  then have "conn_ok (sl_conns sl ! k) (sents ! k)" using s(2) by (simp add: list_all2_conv_all_nth)
  from framed_mem [OF conn_sent [OF this] k(2)] show "klipper_frame (tf_frame f)" .
qed

lemma conns_prefix:
  "list_all2 conn_ok cns sents \<Longrightarrow>
   list_all2 (\<lambda>cn fs. prefix (wr_out (cn_writer cn)) (concat fs)) cns (map (\<lambda>cn. wr_sent (cn_writer cn)) cns)"
  using wr_ok_prefix [of "\<lambda>_. True" id]
  by (auto simp: list_all2_conv_all_nth conn_ok_def)

text \<open>C30: from the MCU to Klipper.  In every reachable state of an exporter and of a host that has read
  a prefix of what the exporter wrote to the link, the connections of Klipper to a channel have
  been written the beginnings of frame sequences that follow one another, with gaps where
  no client was connected, in the sequence of the frames of that channel's UART: no frame
  is cut, changed, duplicated or reordered, or comes from another channel.\<close>

theorem relay_to_klipper:
  assumes "exporter_reaches ids x" "host_reaches ids' h"
    and "prefix (rd_read (ho_link h)) (wr_out (ex_usb x))"
    and "ex_uarts x c = Some (r, w)" "ho_slots h c = Some sl"
  shows "\<exists>fss. list_all2 (\<lambda>cn fs. prefix (wr_out (cn_writer cn)) (concat fs)) (sl_conns sl) fss
     \<and> subseq (concat fss) (framed (rd_read r))"
proof -
  have x: "exporter_ok x" by (rule exporter_reaches_ok [OF assms(1)])
  have h: "host_ok h" by (rule host_reaches_ok [OF assms(2)])
  have "prefix (rd_items (ho_link h)) (wr_sent (ex_usb x))"
    by (rule tunnel.link_items [OF wr_wrote_good [where P = "\<lambda>_. True", OF _ exporter_sent_frames [OF x]] _ assms(3)])
       (use x h in \<open>simp_all add: exporter_ok_def host_ok_def\<close>)
  moreover have "prefix (frames_of c (wr_sent (ex_usb x))) (framed (rd_read r))"
    using x assms(4) framer_items [of r] by (fastforce simp: exporter_ok_def uart_ok_def)
  ultimately have "prefix (frames_of c (rd_items (ho_link h))) (framed (rd_read r))"
    using frames_of_prefix prefix_order.trans by blast
  moreover have sl: "slot_ok (frames_of c (wr_sent (ho_usb h))) (frames_of c (rd_items (ho_link h))) sl"
    using h assms(5) by (simp add: host_ok_def)
  ultimately have "subseq (concat (routed sl)) (framed (rd_read r))"
    unfolding slot_ok_def by (meson prefix_imp_subseq subseq_order.trans)
  with sl show ?thesis unfolding slot_ok_def routed_def using conns_prefix by blast
qed

text \<open>C31: from Klipper to the MCU.  In every reachable state of a host and of an exporter that has read
  a prefix of what the host wrote to the link, a UART has been written the beginning of an
  interleaving of the frame sequences of the connections to its channel, each a beginning of
  the frames that connection sent: no frame is cut, changed or duplicated, the frames of a
  connection stay in order, and none comes from another channel.\<close>

theorem relay_to_uart:
  assumes "host_reaches ids h" "exporter_reaches ids' x"
    and "prefix (rd_read (ex_link x)) (wr_out (ho_usb h))"
    and "ho_slots h c = Some sl" "ex_uarts x c = Some (r, w)"
  shows "\<exists>fss all fs. list_all2 (\<lambda>cn fs. prefix fs (framed (rd_read (cn_reader cn)))) (sl_conns sl) fss
     \<and> merged fss all \<and> prefix fs all \<and> prefix (wr_out w) (concat fs)"
proof -
  have h: "host_ok h" by (rule host_reaches_ok [OF assms(1)])
  have x: "exporter_ok x" by (rule exporter_reaches_ok [OF assms(2)])
  have "prefix (rd_items (ex_link x)) (wr_sent (ho_usb h))"
    by (rule tunnel.link_items [OF wr_wrote_good [where P = "\<lambda>_. True", OF _ host_sent_frames [OF h]] _ assms(3)])
       (use x h in \<open>simp_all add: exporter_ok_def host_ok_def\<close>)
  moreover have w: "wr_ok id w" "prefix (wr_sent w) (frames_of c (rd_items (ex_link x)))"
    using x assms(5) by (auto simp: exporter_ok_def uart_ok_def)
  ultimately have "prefix (wr_sent w) (frames_of c (wr_sent (ho_usb h)))"
    using frames_of_prefix prefix_order.trans by blast
  moreover obtain sents where s: "merged sents (frames_of c (wr_sent (ho_usb h)))" "list_all2 conn_ok (sl_conns sl) sents"
    using h assms(4) by (fastforce simp: host_ok_def slot_ok_def)
  moreover have "list_all2 (\<lambda>cn fs. prefix fs (framed (rd_read (cn_reader cn)))) (sl_conns sl) sents"
    using s(2) conn_sent by (rule list_all2_mono)
  moreover have "prefix (wr_out w) (concat (wr_sent w))" using wr_ok_prefix [OF w(1)] by simp
  ultimately show ?thesis by blast
qed


section \<open>An example\<close>

text \<open>One frame crosses from the UART of channel 0 to a client of the host, and one the other way.\<close>

definition example_bytes :: bytes where
  "example_bytes = [0x7E, 0x05, 0x10, 0xAA, 0xBB, 0x7E]"

definition example_frame :: bytes where
  "example_frame = [0x05, 0x10, 0xAA, 0xBB, 0x7E]"

abbreviation example_tunnel :: tunnel_frame where
  "example_tunnel \<equiv> \<lparr>tf_ch_id = 0, tf_frame = example_frame\<rparr>"

definition example_reader :: klipper_reader where
  "example_reader = \<lparr>rd_state = True, rd_buf = [], rd_alive = True, rd_read = example_bytes, rd_items = [example_frame]\<rparr>"

lemma reaches_step:
  "exporter_reaches ids (exporter_new ids)" "exporter_reaches ids x \<Longrightarrow> exporter_step x y \<Longrightarrow> exporter_reaches ids y"
  "host_reaches ids (host_new ids)" "host_reaches ids h \<Longrightarrow> host_step h h' \<Longrightarrow> host_reaches ids h'"
  by (auto intro: rtranclp.rtrancl_into_rtrancl)

lemma example_forward:
  "forward_next 0 (rd_data example_bytes (rd_new False)) wr_new =
     Some (example_reader, wr_new\<lparr>wr_queue := [example_tunnel],
        wr_sent := [example_tunnel]\<rparr>)"
proof -
  have "klipper_decode False example_bytes = Some (Some example_frame, True, [])" by code_simp
  then show ?thesis
    by (simp add: forward_next_def rd_next_def rd_data_def rd_new_def wr_send_def wr_new_def example_reader_def)
qed

lemma example_link:
  "rd_next (stateless tunnel_decode) (rd_data (0 # example_frame) (rd_new ())) =
     Some (Some example_tunnel, \<lparr>rd_state = (), rd_buf = [], rd_alive = True,
       rd_read = 0 # example_frame, rd_items = [example_tunnel]\<rparr>)"
proof -
  have "tunnel_decode (0 # example_frame) = Some (Some example_tunnel, [])" by code_simp
  then show ?thesis by (simp add: rd_next_def rd_data_def rd_new_def stateless_def)
qed

lemma example_exporter_up:
  obtains x r w where "exporter_reaches [0] x" "wr_out (ex_usb x) = 0 # example_frame"
    "ex_uarts x 0 = Some (r, w)" "rd_read r = example_bytes"
proof -
  let ?x0 = "exporter_new [0]"
  let ?x1 = "?x0\<lparr>ex_uarts := (ex_uarts ?x0)(0 \<mapsto> (rd_data example_bytes (rd_new False), wr_new))\<rparr>"
  let ?x2 = "?x1\<lparr>ex_usb := wr_new\<lparr>wr_queue := [example_tunnel], wr_sent := [example_tunnel]\<rparr>,
    ex_uarts := (ex_uarts ?x1)(0 \<mapsto> (example_reader, wr_new))\<rparr>"
  have "exporter_step ?x0 ?x1" by (rule exporter_step.uart_data) (simp_all add: exporter_new_def rd_new_def)
  then have "exporter_reaches [0] ?x1" by (rule reaches_step(2) [OF reaches_step(1)])
  moreover have "exporter_step ?x1 ?x2"
    by (rule exporter_step.uart_next [of _ 0])
       (simp_all add: exporter_new_def ex_uart_next_def example_forward, simp add: rd_new_def)
  ultimately have "exporter_reaches [0] ?x2" by (rule reaches_step(2))
  moreover have "exporter_step ?x2 (ex_usb_write WroteAll ?x2)"
    by (rule exporter_step.usb_write) (simp add: exporter_new_def rd_new_def)
  ultimately have "exporter_reaches [0] (ex_usb_write WroteAll ?x2)" by (rule reaches_step(2))
  then show thesis
    by (rule that) (simp_all add: ex_usb_write_def wr_step_def encode_tunnel_def
        tunnel_encode_def wr_new_def example_reader_def, simp)
qed

lemma example_host_up:
  obtains h sl where "host_reaches [0] h" "rd_read (ho_link h) = 0 # example_frame" "ho_slots h 0 = Some sl"
    "map (\<lambda>cn. wr_out (cn_writer cn)) (sl_conns sl) = [example_frame]"
proof -
  let ?cn = "\<lambda>w. \<lparr>cn_reader = rd_new False, cn_writer = w\<rparr>"
  let ?sl = "\<lambda>w. \<lparr>sl_conns = [?cn w], sl_current = Some 0\<rparr>"
  let ?w = "wr_new\<lparr>wr_queue := [example_frame], wr_sent := [example_frame]\<rparr>"
  let ?h0 = "host_new [0]" and ?h1 = "set_slot 0 (?sl wr_new) (host_new [0])"
  let ?h2 = "?h1\<lparr>ho_link := rd_data (0 # example_frame) (rd_new ())\<rparr>"
  let ?link = "\<lparr>rd_state = (), rd_buf = [], rd_alive = True, rd_read = 0 # example_frame, rd_items = [example_tunnel]\<rparr>"
  let ?h3 = "set_slot 0 (?sl ?w) (?h1\<lparr>ho_link := ?link\<rparr>)"
  let ?h4 = "set_slot 0 (set_conn 0 (ho_sock_write WroteAll (?cn ?w)) (?sl ?w)) ?h3"
  have "slot_step \<lparr>sl_conns = [], sl_current = None\<rparr> (?sl wr_new)"
    using slot_step.accept [of "\<lparr>sl_conns = [], sl_current = None\<rparr>"] by (simp add: ho_accept_def)
  then have "host_step ?h0 ?h1" by (intro host_step.slot) (simp_all add: host_new_def rd_new_def)
  then have "host_reaches [0] ?h1" by (rule reaches_step(4) [OF reaches_step(3)])
  moreover have "host_step ?h1 ?h2"
    using host_step.usb_data [of ?h1 "0 # example_frame"] by (simp add: set_slot_def host_new_def rd_new_def)
  ultimately have "host_reaches [0] ?h2" by (rule reaches_step(4))
  moreover have "ho_usb_next ?h2 = Some ?h3"
    by (simp add: ho_usb_next_def example_link ho_route_def set_slot_def slot_send_def set_conn_def wr_send_def)
       (simp add: wr_new_def)
  then have "host_step ?h2 ?h3" by (rule host_step.usb_next [rotated]) (simp add: rd_data_def rd_new_def)
  ultimately have "host_reaches [0] ?h3" by (rule reaches_step(4))
  moreover have "conn_step (?cn ?w) (ho_sock_write WroteAll (?cn ?w))" by (rule conn_step.sock_write)
  then have "slot_step (?sl ?w) (set_conn 0 (ho_sock_write WroteAll (?cn ?w)) (?sl ?w))"
    by (intro slot_step.conn) simp_all
  then have "host_step ?h3 ?h4" by (intro host_step.slot) (simp_all add: set_slot_def)
  ultimately have "host_reaches [0] ?h4" by (rule reaches_step(4))
  then show thesis
    by (rule that) (simp_all add: set_slot_def set_conn_def ho_sock_write_def wr_step_def
        encode_raw_def wr_new_def, simp)
qed

theorem relay_to_klipper_witness:
  "\<exists>x h r w sl fss. exporter_reaches [0] x \<and> host_reaches [0] h
     \<and> ex_uarts x 0 = Some (r, w) \<and> ho_slots h 0 = Some sl \<and> rd_read r = example_bytes
     \<and> map (\<lambda>cn. wr_out (cn_writer cn)) (sl_conns sl) = [example_frame]
     \<and> list_all2 (\<lambda>cn fs. prefix (wr_out (cn_writer cn)) (concat fs)) (sl_conns sl) fss
     \<and> subseq (concat fss) (framed (rd_read r))"
proof -
  obtain x r w where x: "exporter_reaches [0] x" "wr_out (ex_usb x) = 0 # example_frame"
    "ex_uarts x 0 = Some (r, w)" "rd_read r = example_bytes" by (rule example_exporter_up)
  obtain h sl where h: "host_reaches [0] h" "rd_read (ho_link h) = 0 # example_frame" "ho_slots h 0 = Some sl"
    "map (\<lambda>cn. wr_out (cn_writer cn)) (sl_conns sl) = [example_frame]" by (rule example_host_up)
  have "prefix (rd_read (ho_link h)) (wr_out (ex_usb x))" using x(2) h(2) by simp
  from relay_to_klipper [OF x(1) h(1) this x(3) h(3)] show ?thesis
    by (intro exI [of _ x] exI [of _ h] exI [of _ r] exI [of _ w] exI [of _ sl]) (simp add: x(1,3,4) h(1,3,4))
qed

lemma example_host_down:
  obtains h sl where "host_reaches [0] h" "wr_out (ho_usb h) = 0 # example_frame" "ho_slots h 0 = Some sl"
    "map (\<lambda>cn. rd_read (cn_reader cn)) (sl_conns sl) = [example_bytes]"
proof -
  let ?cn = "\<lambda>r. \<lparr>cn_reader = r, cn_writer = wr_new\<rparr>"
  let ?sl = "\<lambda>r. \<lparr>sl_conns = [?cn r], sl_current = Some 0\<rparr>"
  let ?h0 = "host_new [0]" and ?h1 = "set_slot 0 (?sl (rd_new False)) (host_new [0])"
  let ?h2 = "set_slot 0 (?sl (rd_data example_bytes (rd_new False))) ?h1"
  let ?h3 = "set_slot 0 (?sl example_reader)
     (?h2\<lparr>ho_usb := wr_new\<lparr>wr_queue := [example_tunnel], wr_sent := [example_tunnel]\<rparr>\<rparr>)"
  have "slot_step \<lparr>sl_conns = [], sl_current = None\<rparr> (?sl (rd_new False))"
    using slot_step.accept [of "\<lparr>sl_conns = [], sl_current = None\<rparr>"] by (simp add: ho_accept_def)
  then have "host_step ?h0 ?h1" by (intro host_step.slot) (simp_all add: host_new_def rd_new_def)
  then have "host_reaches [0] ?h1" by (rule reaches_step(4) [OF reaches_step(3)])
  moreover have "conn_step (?cn (rd_new False)) (?cn (rd_data example_bytes (rd_new False)))"
    using conn_step.sock_data [of "?cn (rd_new False)" example_bytes] by simp
  then have "slot_step (?sl (rd_new False)) (?sl (rd_data example_bytes (rd_new False)))"
    using slot_step.conn [of 0 "?sl (rd_new False)"] by (simp add: set_conn_def)
  then have "host_step ?h1 ?h2" by (intro host_step.slot) (simp_all add: set_slot_def host_new_def rd_new_def)
  ultimately have "host_reaches [0] ?h2" by (rule reaches_step(4))
  moreover have "ho_sock_next 0 0 ?h2 = Some ?h3"
    by (simp add: ho_sock_next_def set_slot_def set_conn_def host_new_def example_forward)
  then have "host_step ?h2 ?h3"
    by (rule host_step.sock_next [rotated]) (simp add: set_slot_def host_new_def rd_new_def)
  ultimately have "host_reaches [0] ?h3" by (rule reaches_step(4))
  moreover have "host_step ?h3 (ho_usb_write WroteAll ?h3)"
    by (rule host_step.usb_write) (simp add: set_slot_def host_new_def rd_new_def)
  ultimately have "host_reaches [0] (ho_usb_write WroteAll ?h3)" by (rule reaches_step(4))
  then show thesis
    by (rule that) (simp_all add: ho_usb_write_def set_slot_def wr_step_def encode_tunnel_def
        tunnel_encode_def wr_new_def example_reader_def, simp)
qed

lemma example_exporter_down:
  obtains x r w where "exporter_reaches [0] x" "rd_read (ex_link x) = 0 # example_frame"
    "ex_uarts x 0 = Some (r, w)" "wr_out w = example_frame"
proof -
  let ?x0 = "exporter_new [0]" and ?x1 = "(exporter_new [0])\<lparr>ex_link := rd_data (0 # example_frame) (rd_new ())\<rparr>"
  let ?link = "\<lparr>rd_state = (), rd_buf = [], rd_alive = True, rd_read = 0 # example_frame, rd_items = [example_tunnel]\<rparr>"
  let ?x2 = "?x0\<lparr>ex_link := ?link, ex_uarts := (ex_uarts ?x0)(0 \<mapsto>
    (rd_new False, wr_new\<lparr>wr_queue := [example_frame], wr_sent := [example_frame]\<rparr>))\<rparr>"
  have "exporter_step ?x0 ?x1"
    using exporter_step.usb_data [of ?x0 "0 # example_frame"] by (simp add: exporter_new_def rd_new_def)
  then have "exporter_reaches [0] ?x1" by (rule reaches_step(2) [OF reaches_step(1)])
  moreover have "ex_usb_next ?x1 = Some ?x2"
    by (simp add: ex_usb_next_def example_link ex_route_def exporter_new_def wr_send_def) (simp add: wr_new_def)
  then have "exporter_step ?x1 ?x2" by (rule exporter_step.usb_next [rotated]) (simp add: rd_data_def rd_new_def)
  ultimately have "exporter_reaches [0] ?x2" by (rule reaches_step(2))
  moreover have "exporter_step ?x2 (ex_uart_write 0 WroteAll ?x2)" by (rule exporter_step.uart_write) simp
  ultimately have "exporter_reaches [0] (ex_uart_write 0 WroteAll ?x2)" by (rule reaches_step(2))
  then show thesis
    by (rule that) (simp_all add: ex_uart_write_def wr_step_def encode_raw_def wr_new_def, simp)
qed

theorem relay_to_uart_witness:
  "\<exists>h x sl r w fss all fs. host_reaches [0] h \<and> exporter_reaches [0] x
     \<and> ho_slots h 0 = Some sl \<and> ex_uarts x 0 = Some (r, w) \<and> wr_out w = example_frame
     \<and> map (\<lambda>cn. rd_read (cn_reader cn)) (sl_conns sl) = [example_bytes]
     \<and> list_all2 (\<lambda>cn fs. prefix fs (framed (rd_read (cn_reader cn)))) (sl_conns sl) fss
     \<and> merged fss all \<and> prefix fs all \<and> prefix (wr_out w) (concat fs)"
proof -
  obtain h sl where h: "host_reaches [0] h" "wr_out (ho_usb h) = 0 # example_frame" "ho_slots h 0 = Some sl"
    "map (\<lambda>cn. rd_read (cn_reader cn)) (sl_conns sl) = [example_bytes]" by (rule example_host_down)
  obtain x r w where x: "exporter_reaches [0] x" "rd_read (ex_link x) = 0 # example_frame"
    "ex_uarts x 0 = Some (r, w)" "wr_out w = example_frame" by (rule example_exporter_down)
  have "prefix (rd_read (ex_link x)) (wr_out (ho_usb h))" using x(2) h(2) by simp
  from relay_to_uart [OF h(1) x(1) this h(3) x(3)] show ?thesis
    by (intro exI [of _ h] exI [of _ x] exI [of _ sl] exI [of _ r] exI [of _ w]) (simp add: x(1,3,4) h(1,3,4))
qed

end
