(* ===== verification/Smart.thy ===== *)
theory Smart
  imports Relay_Tasks
begin

text \<open>
  The smart proxy (\<^verbatim>\<open>windlass/smart_exporter.rs\<close> and \<^verbatim>\<open>windlass/smart_host.rs\<close>): the exporter
  terminates the transport of the MCU and sends the host the dictionary of each MCU over the
  control channel, then payloads; the host answers \<open>identify\<close> itself from the dictionary and forwards
  every other command.

  The crates \<open>windlass\<close> and \<open>anchor\<close> are parameters: the payloads that the transport of an MCU
  delivers, the integer encodings, and the transport of the virtual MCU with its state.
\<close>


section \<open>Exporter\<close>

definition dict_frag :: "u8 \<Rightarrow> bytes \<Rightarrow> payload_frame" where
  "dict_frag ch_id chunk = \<lparr>pf_ch_id = CTRL_CH, pf_payload = [CTRL_DICT_FRAG] @ [ch_id] @ chunk\<rparr>"

definition dict_done :: "u8 \<Rightarrow> payload_frame" where
  "dict_done ch_id = \<lparr>pf_ch_id = CTRL_CH, pf_payload = [CTRL_DICT_DONE, ch_id]\<rparr>"

text \<open>The loop ends at the first frame that cannot be sent; \<open>False\<close> is the error.\<close>

fun send_frags :: "u8 \<Rightarrow> bytes list \<Rightarrow> payload_frame writer \<Rightarrow> bool \<times> payload_frame writer" where
  "send_frags ch_id [] usb = (True, usb)"
| "send_frags ch_id (chunk # rest) usb =
     (case wr_send (dict_frag ch_id chunk) usb of
        (True, usb) \<Rightarrow> send_frags ch_id rest usb
      | (False, usb) \<Rightarrow> (False, usb))"

definition send_dictionary :: "u8 \<Rightarrow> bytes \<Rightarrow> payload_frame writer \<Rightarrow> bool \<times> payload_frame writer" where
  "send_dictionary ch_id dictionary usb =
     (case send_frags ch_id (chunks_of DICT_FRAG_MAX dictionary) usb of
        (True, usb) \<Rightarrow> wr_send (dict_done ch_id) usb
      | (False, usb) \<Rightarrow> (False, usb))"

text \<open>Task: MCU to USB, one payload of the transport.  The task ends when the USB writer has.\<close>

definition smart_mcu_payload :: "u8 \<Rightarrow> bytes \<Rightarrow> payload_frame writer \<Rightarrow> bool \<times> payload_frame writer" where
  "smart_mcu_payload ch_id payload usb = wr_send \<lparr>pf_ch_id = ch_id, pf_payload = payload\<rparr> usb"

text \<open>Task: USB to MCU: the next command payload is given to the transport, and the task ends at an error.\<close>

definition smart_mcu_send :: "bool \<Rightarrow> bytes writer \<Rightarrow> bytes writer" where
  "smart_mcu_send failed w = wr_step encode_raw (if failed then WroteErr 0 else WroteAll) w"

text \<open>The main loop of the exporter: command payloads go to the queue of their UART; control frames
  and frames of unknown channels are dropped.\<close>

definition smart_exporter_route ::
  "payload_frame \<Rightarrow> (u8 \<Rightarrow> bytes writer option) \<Rightarrow> (u8 \<Rightarrow> bytes writer option)" where
  "smart_exporter_route pf cmds =
     (if pf_ch_id pf = CTRL_CH then cmds
      else case cmds (pf_ch_id pf) of
        Some w \<Rightarrow> cmds(pf_ch_id pf \<mapsto> snd (wr_send (pf_payload pf) w))
      | None \<Rightarrow> cmds)"


section \<open>Dictionary gatherer\<close>

text \<open>The accumulated fragments of each channel, and for each configured channel what its \<open>watch\<close>
  holds.\<close>

record gatherer =
  ga_dicts :: "u8 \<Rightarrow> bytes option"
  ga_watch :: "u8 \<Rightarrow> bytes option option"

definition unwrap_or_default :: "bytes option \<Rightarrow> bytes" where
  "unwrap_or_default x = (case x of None \<Rightarrow> [] | Some bs \<Rightarrow> bs)"

text \<open>One turn of \<open>gather_dictionary\<close>; the payload has two bytes where they are read.\<close>

definition gather_dictionary :: "bytes \<Rightarrow> gatherer \<Rightarrow> gatherer" where
  "gather_dictionary payload g =
     (case payload of
        ctrl_type # mcu_ch_id # rest \<Rightarrow>
          if ctrl_type = CTRL_DICT_FRAG
          then g\<lparr>ga_dicts := (ga_dicts g)(mcu_ch_id \<mapsto> unwrap_or_default (ga_dicts g mcu_ch_id) @ rest)\<rparr>
          else if ctrl_type = CTRL_DICT_DONE
          then (let dict = unwrap_or_default (ga_dicts g mcu_ch_id);
                    g = g\<lparr>ga_dicts := (ga_dicts g)(mcu_ch_id := None)\<rparr>
                in if ga_watch g mcu_ch_id \<noteq> None
                   then g\<lparr>ga_watch := (ga_watch g)(mcu_ch_id \<mapsto> Some dict)\<rparr> else g)
          else g
      | _ \<Rightarrow> g)"

definition gatherer_new :: "u8 list \<Rightarrow> gatherer" where
  "gatherer_new ids = \<lparr>ga_dicts = (\<lambda>c. None), ga_watch = (\<lambda>c. if c \<in> set ids then Some None else None)\<rparr>"


section \<open>Host demultiplexer\<close>

text \<open>The main loop of the host: control payloads go to the gatherer, the others to the active
  connection of their channel; without one they are dropped.\<close>

record smart_host =
  sh_ctrl :: "bytes list"
  sh_slots :: "u8 \<Rightarrow> bytes writer option option"

definition smart_host_route :: "payload_frame \<Rightarrow> smart_host \<Rightarrow> smart_host" where
  "smart_host_route pf h =
     (if pf_ch_id pf = CTRL_CH then h\<lparr>sh_ctrl := sh_ctrl h @ [pf_payload pf]\<rparr>
      else case sh_slots h (pf_ch_id pf) of
        Some (Some w) \<Rightarrow> h\<lparr>sh_slots := (sh_slots h)(pf_ch_id pf \<mapsto> Some (snd (wr_send (pf_payload pf) w)))\<rparr>
      | _ \<Rightarrow> h)"


section \<open>ProxyConfig\<close>

definition CMD_IDENTIFY :: u16 where "CMD_IDENTIFY = 1"

text \<open>\<open>px_decoded\<close> is a history: the commands on which \<open>anchor\<close> has called \<open>dispatch_raw\<close>.  No operation
  depends on it.\<close>

record proxy_context =
  px_to_exporter :: "bytes list"
  px_pending_responses :: "bytes list"
  px_decoded :: "bytes list"

text \<open>The crate \<open>anchor\<close>.  A read of an integer returns the value and the rest, or fails.  \<open>receive\<close>
  takes what it decodes out of the input buffer, calls \<open>dispatch_raw\<close> with the context any number of
  times, and writes frames of its own (acknowledgements) to the output; \<open>encode_frame\<close> frames a
  payload.  \<open>None\<close> is a panic in \<open>dispatch_raw\<close>.\<close>

record 'tr anchor =
  an_read_u16 :: "bytes \<Rightarrow> (u16 \<times> bytes) option"
  an_read_u32 :: "bytes \<Rightarrow> (u32 \<times> bytes) option"
  an_read_u8 :: "bytes \<Rightarrow> (u8 \<times> bytes) option"
  an_write_u32 :: "u32 \<Rightarrow> bytes"
  an_transport_new :: 'tr
  an_receive :: "(bytes \<Rightarrow> proxy_context \<Rightarrow> (bool \<times> bytes \<times> proxy_context) option)
    \<Rightarrow> 'tr \<Rightarrow> bytes \<Rightarrow> proxy_context \<Rightarrow> (bytes list \<times> 'tr \<times> bytes \<times> proxy_context) option"
  an_encode_frame :: "bytes \<Rightarrow> 'tr \<Rightarrow> bytes \<times> 'tr"

text \<open>The result is whether reading succeeded, with what is left of the frame.  The outer \<open>option\<close> is
  the slice of the dictionary, which panics out of range.  \<open>usize\<close> has 64 bits on the targets of the program, so
  the sum of an offset and a count, which have 32 and 8, does not overflow.\<close>

definition dispatch ::
  "'tr anchor \<Rightarrow> bytes \<Rightarrow> u16 \<Rightarrow> bytes \<Rightarrow> proxy_context \<Rightarrow> (bool \<times> bytes \<times> proxy_context) option" where
  "dispatch A dict cmd frame ctx =
     (if cmd \<noteq> CMD_IDENTIFY then Some (True, frame, ctx)
      else case an_read_u32 A frame of
        None \<Rightarrow> Some (False, frame, ctx)
      | Some (offset, frame) \<Rightarrow>
          (case an_read_u8 A frame of
             None \<Rightarrow> Some (False, frame, ctx)
           | Some (n, frame) \<Rightarrow> do {
               let start = unat offset;
               let stop_at = min (start + unat n) (length dict);
               chunk \<leftarrow> (if start \<le> length dict then slice dict start stop_at else Some []);
               let resp = an_write_u32 A 0 @ an_write_u32 A offset @ an_write_u32 A (of_nat (length chunk)) @ chunk;
               Some (True, frame, ctx\<lparr>px_pending_responses := px_pending_responses ctx @ [resp]\<rparr>)
             }))"

definition dispatch_raw ::
  "'tr anchor \<Rightarrow> bytes \<Rightarrow> bytes \<Rightarrow> proxy_context \<Rightarrow> (bool \<times> bytes \<times> proxy_context) option" where
  "dispatch_raw A dict frame ctx =
     (let ctx = ctx\<lparr>px_decoded := px_decoded ctx @ [frame]\<rparr> in
      case an_read_u16 A frame of
        None \<Rightarrow> Some (False, frame, ctx)
      | Some (cmd, probe) \<Rightarrow>
          if cmd = CMD_IDENTIFY
          then (case an_read_u16 A frame of
                  None \<Rightarrow> Some (False, frame, ctx)
                | Some (cmd, frame) \<Rightarrow> dispatch A dict cmd frame ctx)
          else Some (True, [], ctx\<lparr>px_to_exporter := px_to_exporter ctx @ [frame]\<rparr>))"


section \<open>The relay loop of a connection\<close>

text \<open>The state of the relay loop with the queues of its two tasks: the one that writes to the socket of
  Klipper, and the one that forwards commands to the USB writer.  \<open>sm_decoded\<close> and \<open>sm_own\<close>
  are histories: the commands that \<open>anchor\<close> has decoded on this connection, and the buffers that it has itself written
  to the socket while receiving.\<close>

record 'tr smart_conn =
  sm_transport :: 'tr
  sm_input_buf :: bytes
  sm_to_klipper :: "bytes writer"
  sm_to_exporter :: "bytes list"
  sm_decoded :: "bytes list"
  sm_own :: "bytes list"

definition smart_conn_new :: "'tr anchor \<Rightarrow> 'tr smart_conn" where
  "smart_conn_new A = \<lparr>sm_transport = an_transport_new A, sm_input_buf = [],
     sm_to_klipper = wr_new, sm_to_exporter = [], sm_decoded = [], sm_own = []\<rparr>"

text \<open>The size of \<open>read_buf\<close>: a read of the socket returns at most so many bytes.\<close>

definition READ_BUF :: nat where "READ_BUF = 256"

text \<open>\<open>ChannelOutput::output\<close>; the bytes are those that the closure writes.\<close>

definition channel_output :: "bytes \<Rightarrow> bytes writer \<Rightarrow> bytes writer" where
  "channel_output buf w = (if buf \<noteq> [] then snd (wr_send buf w) else w)"

text \<open>The loop over the pending responses.\<close>

fun encode_responses :: "'tr anchor \<Rightarrow> bytes list \<Rightarrow> 'tr \<Rightarrow> bytes writer \<Rightarrow> 'tr \<times> bytes writer" where
  "encode_responses A [] tr w = (tr, w)"
| "encode_responses A (resp # rs) tr w =
     (let (buf, tr) = an_encode_frame A resp tr in encode_responses A rs tr (channel_output buf w))"

text \<open>A read of some bytes from the socket, at most \<open>READ_BUF\<close>, and a payload of the MCU.  A read of no bytes
  and an error end the loop.\<close>

definition smart_socket_read :: "'tr anchor \<Rightarrow> bytes \<Rightarrow> bytes \<Rightarrow> 'tr smart_conn \<Rightarrow> 'tr smart_conn option" where
  "smart_socket_read A dict bs cn = do {
     (outs, tr, input_buf, ctx) \<leftarrow> an_receive A (dispatch_raw A dict) (sm_transport cn) (sm_input_buf cn @ bs)
        \<lparr>px_to_exporter = sm_to_exporter cn, px_pending_responses = [], px_decoded = sm_decoded cn\<rparr>;
     let (tr, w) = encode_responses A (px_pending_responses ctx) tr (fold channel_output outs (sm_to_klipper cn));
     Some \<lparr>sm_transport = tr, sm_input_buf = input_buf, sm_to_klipper = w, sm_to_exporter = px_to_exporter ctx,
       sm_decoded = px_decoded ctx, sm_own = sm_own cn @ outs\<rparr>
   }"

definition smart_mcu_response :: "'tr anchor \<Rightarrow> bytes \<Rightarrow> 'tr smart_conn \<Rightarrow> 'tr smart_conn" where
  "smart_mcu_response A payload cn =
     (let (buf, tr) = an_encode_frame A payload (sm_transport cn)
      in cn\<lparr>sm_transport := tr, sm_to_klipper := channel_output buf (sm_to_klipper cn)\<rparr>)"

text \<open>Task: anchor output to the socket.\<close>

definition smart_klipper_write :: "write_all_result \<Rightarrow> 'tr smart_conn \<Rightarrow> 'tr smart_conn" where
  "smart_klipper_write out cn = cn\<lparr>sm_to_klipper := wr_step encode_raw out (sm_to_klipper cn)\<rparr>"

text \<open>Task: decoded commands to the USB writer; it ends when the send fails.\<close>

definition smart_forward ::
  "u8 \<Rightarrow> 'tr smart_conn \<Rightarrow> payload_frame writer \<Rightarrow> bool \<times> 'tr smart_conn \<times> payload_frame writer" where
  "smart_forward ch_id cn usb =
     (case sm_to_exporter cn of
        [] \<Rightarrow> (True, cn, usb)
      | p # ps \<Rightarrow>
          (case wr_send \<lparr>pf_ch_id = ch_id, pf_payload = p\<rparr> usb of
             (ok, usb) \<Rightarrow> (ok, cn\<lparr>sm_to_exporter := ps\<rparr>, usb)))"


section \<open>The host as a system of tasks\<close>

text \<open>The accept task of a channel keeps the dictionary it has taken from the \<open>watch\<close> (\<open>sp_dicts\<close>) for all
  connections that follow, and handles one of them at a time (\<open>sp_conns\<close>).  When its relay loop ends, the two tasks
  of a connection are aborted, which takes effect when a task next yields: one that is running on another
  thread goes on for some turns (\<open>sp_ended\<close>, in the order in which the connections were accepted).  \<open>sp_since\<close> is a
  history: how many frames the main loop had decoded when the current connection was accepted.\<close>

record 'tr smart_proxy =
  sp_usb :: "payload_frame writer"
  sp_link :: "(unit, u8, payload_frame) reader"
  sp_host :: smart_host
  sp_gatherer :: gatherer
  sp_dicts :: "u8 \<Rightarrow> bytes option"
  sp_conns :: "u8 \<Rightarrow> 'tr smart_conn option"
  sp_ended :: "u8 \<Rightarrow> 'tr smart_conn list"
  sp_since :: "u8 \<Rightarrow> nat"

definition smart_proxy_new :: "u8 list \<Rightarrow> 'tr smart_proxy" where
  "smart_proxy_new ids = \<lparr>sp_usb = wr_new, sp_link = rd_new (),
     sp_host = \<lparr>sh_ctrl = [], sh_slots = (\<lambda>c. if c \<in> set ids then Some None else None)\<rparr>,
     sp_gatherer = gatherer_new ids, sp_dicts = (\<lambda>c. None), sp_conns = (\<lambda>c. None),
     sp_ended = (\<lambda>c. []), sp_since = (\<lambda>c. 0)\<rparr>"

text \<open>The main loop, the USB writer and the gatherer.\<close>

definition sp_usb_next :: "'tr smart_proxy \<Rightarrow> 'tr smart_proxy option" where
  "sp_usb_next sp = do {
     (f, link) \<leftarrow> rd_next (stateless payload_decode) (sp_link sp);
     let sp = sp\<lparr>sp_link := link\<rparr>;
     Some (case f of Some pf \<Rightarrow> sp\<lparr>sp_host := smart_host_route pf (sp_host sp)\<rparr> | None \<Rightarrow> sp)
   }"

definition sp_usb_write :: "write_all_result \<Rightarrow> 'tr smart_proxy \<Rightarrow> 'tr smart_proxy" where
  "sp_usb_write out sp = sp\<lparr>sp_usb := wr_step payload_encode out (sp_usb sp)\<rparr>"

definition sp_gather :: "'tr smart_proxy \<Rightarrow> 'tr smart_proxy" where
  "sp_gather sp =
     (case sh_ctrl (sp_host sp) of
        [] \<Rightarrow> sp
      | p # ps \<Rightarrow> sp\<lparr>sp_host := (sp_host sp)\<lparr>sh_ctrl := ps\<rparr>, sp_gatherer := gather_dictionary p (sp_gatherer sp)\<rparr>)"

text \<open>The accept task: it waits for the dictionary, then accepts connections one after the other.\<close>

definition sp_ready :: "u8 \<Rightarrow> 'tr smart_proxy \<Rightarrow> 'tr smart_proxy" where
  "sp_ready c sp =
     (case (sp_dicts sp c, ga_watch (sp_gatherer sp) c) of
        (None, Some (Some d)) \<Rightarrow> sp\<lparr>sp_dicts := (sp_dicts sp)(c \<mapsto> d)\<rparr>
      | _ \<Rightarrow> sp)"

definition set_payload_slot :: "u8 \<Rightarrow> bytes writer option \<Rightarrow> smart_host \<Rightarrow> smart_host" where
  "set_payload_slot c w h = h\<lparr>sh_slots := (sh_slots h)(c \<mapsto> w)\<rparr>"

definition sp_accept :: "'tr anchor \<Rightarrow> u8 \<Rightarrow> 'tr smart_proxy \<Rightarrow> 'tr smart_proxy" where
  "sp_accept A c sp =
     (if sp_dicts sp c \<noteq> None \<and> sp_conns sp c = None
      then sp\<lparr>sp_host := set_payload_slot c (Some wr_new) (sp_host sp),
              sp_conns := (sp_conns sp)(c \<mapsto> smart_conn_new A),
              sp_since := (sp_since sp)(c := length (rd_items (sp_link sp)))\<rparr>
      else sp)"

text \<open>The end of the relay loop: both tasks of the connection are told to stop and the slot is cleared.\<close>

definition sp_finish :: "u8 \<Rightarrow> 'tr smart_proxy \<Rightarrow> 'tr smart_proxy" where
  "sp_finish c sp =
     (case sp_conns sp c of
        None \<Rightarrow> sp
      | Some cn \<Rightarrow> sp\<lparr>sp_host := set_payload_slot c None (sp_host sp), sp_conns := (sp_conns sp)(c := None),
                     sp_ended := (sp_ended sp)(c := sp_ended sp c @ [cn])\<rparr>)"

text \<open>The turns of the relay loop of a connection and of its two tasks.\<close>

definition sp_socket_read :: "'tr anchor \<Rightarrow> u8 \<Rightarrow> bytes \<Rightarrow> 'tr smart_proxy \<Rightarrow> 'tr smart_proxy option" where
  "sp_socket_read A c bs sp =
     (case (sp_conns sp c, sp_dicts sp c) of
        (Some cn, Some dict) \<Rightarrow> do {
          cn' \<leftarrow> smart_socket_read A dict bs cn;
          Some (sp\<lparr>sp_conns := (sp_conns sp)(c \<mapsto> cn')\<rparr>)
        }
      | _ \<Rightarrow> Some sp)"

definition sp_mcu_response :: "'tr anchor \<Rightarrow> u8 \<Rightarrow> 'tr smart_proxy \<Rightarrow> 'tr smart_proxy" where
  "sp_mcu_response A c sp =
     (case (sp_conns sp c, sh_slots (sp_host sp) c) of
        (Some cn, Some (Some w)) \<Rightarrow>
          (case wr_queue w of
             [] \<Rightarrow> sp
           | p # ps \<Rightarrow> sp\<lparr>sp_host := set_payload_slot c (Some (w\<lparr>wr_queue := ps\<rparr>)) (sp_host sp),
                         sp_conns := (sp_conns sp)(c \<mapsto> smart_mcu_response A p cn)\<rparr>)
      | _ \<Rightarrow> sp)"

definition sp_klipper_write :: "u8 \<Rightarrow> write_all_result \<Rightarrow> 'tr smart_proxy \<Rightarrow> 'tr smart_proxy" where
  "sp_klipper_write c out sp =
     (case sp_conns sp c of
        None \<Rightarrow> sp
      | Some cn \<Rightarrow> sp\<lparr>sp_conns := (sp_conns sp)(c \<mapsto> smart_klipper_write out cn)\<rparr>)"

definition sp_forward :: "u8 \<Rightarrow> 'tr smart_proxy \<Rightarrow> 'tr smart_proxy" where
  "sp_forward c sp =
     (case sp_conns sp c of
        None \<Rightarrow> sp
      | Some cn \<Rightarrow>
          (case smart_forward c cn (sp_usb sp) of
             (ok, cn, usb) \<Rightarrow> sp\<lparr>sp_usb := usb, sp_conns := (sp_conns sp)(c \<mapsto> cn)\<rparr>))"

text \<open>Turns of the two tasks of a connection that has ended.\<close>

definition sp_old_write :: "u8 \<Rightarrow> nat \<Rightarrow> write_all_result \<Rightarrow> 'tr smart_proxy \<Rightarrow> 'tr smart_proxy" where
  "sp_old_write c k out sp =
     (if k < length (sp_ended sp c)
      then sp\<lparr>sp_ended := (sp_ended sp)(c := (sp_ended sp c)[k := smart_klipper_write out (sp_ended sp c ! k)])\<rparr>
      else sp)"

definition sp_old_forward :: "u8 \<Rightarrow> nat \<Rightarrow> 'tr smart_proxy \<Rightarrow> 'tr smart_proxy" where
  "sp_old_forward c k sp =
     (if k < length (sp_ended sp c)
      then (case smart_forward c (sp_ended sp c ! k) (sp_usb sp) of
              (ok, cn, usb) \<Rightarrow> sp\<lparr>sp_usb := usb, sp_ended := (sp_ended sp)(c := (sp_ended sp c)[k := cn])\<rparr>)
      else sp)"

inductive smart_step :: "'tr anchor \<Rightarrow> 'tr smart_proxy \<Rightarrow> 'tr smart_proxy \<Rightarrow> bool" for A where
  usb_data: "rd_alive (sp_link sp) \<Longrightarrow> smart_step A sp (sp\<lparr>sp_link := rd_data bs (sp_link sp)\<rparr>)"
| usb_next: "rd_alive (sp_link sp) \<Longrightarrow> sp_usb_next sp = Some sp' \<Longrightarrow> smart_step A sp sp'"
| usb_write: "rd_alive (sp_link sp) \<Longrightarrow> smart_step A sp (sp_usb_write out sp)"
| usb_end: "rd_alive (sp_link sp) \<Longrightarrow> smart_step A sp (sp\<lparr>sp_link := rd_end (sp_link sp)\<rparr>)"
| gather: "rd_alive (sp_link sp) \<Longrightarrow> smart_step A sp (sp_gather sp)"
| ready: "rd_alive (sp_link sp) \<Longrightarrow> smart_step A sp (sp_ready c sp)"
| accept: "rd_alive (sp_link sp) \<Longrightarrow> smart_step A sp (sp_accept A c sp)"
| finish: "rd_alive (sp_link sp) \<Longrightarrow> smart_step A sp (sp_finish c sp)"
| socket_read: "rd_alive (sp_link sp) \<Longrightarrow> bs \<noteq> [] \<Longrightarrow> length bs \<le> READ_BUF \<Longrightarrow> sp_socket_read A c bs sp = Some sp' \<Longrightarrow>
     smart_step A sp sp'"
| mcu_response: "rd_alive (sp_link sp) \<Longrightarrow> smart_step A sp (sp_mcu_response A c sp)"
| klipper_write: "rd_alive (sp_link sp) \<Longrightarrow> smart_step A sp (sp_klipper_write c out sp)"
| forward: "rd_alive (sp_link sp) \<Longrightarrow> smart_step A sp (sp_forward c sp)"
| old_write: "rd_alive (sp_link sp) \<Longrightarrow> smart_step A sp (sp_old_write c k out sp)"
| old_forward: "rd_alive (sp_link sp) \<Longrightarrow> smart_step A sp (sp_old_forward c k sp)"

abbreviation smart_reaches :: "'tr anchor \<Rightarrow> u8 list \<Rightarrow> 'tr smart_proxy \<Rightarrow> bool" where
  "smart_reaches A ids \<equiv> (smart_step A)\<^sup>*\<^sup>* (smart_proxy_new ids)"

end
