(* ===== verification/Smart_Props.thy ===== *)
theory Smart_Props
  imports Smart Relay_Props
begin

text \<open>
  The dictionaries of all MCUs arrive at the host, whatever is sent between their fragments, and
  the host serves them to Klipper piece by piece; every other command is forwarded unchanged.
\<close>


section \<open>Sending a dictionary\<close>

definition dict_frames :: "u8 \<Rightarrow> bytes \<Rightarrow> payload_frame list" where
  "dict_frames c d = map (dict_frag c) (chunks_of DICT_FRAG_MAX d) @ [dict_done c]"

lemma send_frags_alive:
  "wr_alive usb \<Longrightarrow> send_frags c ps usb =
     (True, usb\<lparr>wr_queue := wr_queue usb @ map (dict_frag c) ps, wr_sent := wr_sent usb @ map (dict_frag c) ps\<rparr>)"
  by (induction ps arbitrary: usb) (simp_all add: wr_send_def)

lemma send_dictionary_alive:
  assumes "wr_alive usb"
  shows "\<exists>usb'. send_dictionary c d usb = (True, usb') \<and> wr_alive usb' \<and> wr_sent usb' = wr_sent usb @ dict_frames c d"
  using assms by (simp add: send_dictionary_def send_frags_alive wr_send_def dict_frames_def)

lemma send_dictionary_keeps: "wr_wrote good e usb \<Longrightarrow> wr_wrote good e (snd (send_dictionary c d usb))"
proof -
  have frags: "wr_wrote good e usb \<Longrightarrow> wr_wrote good e (snd (send_frags c ps usb))" for ps usb
    by (induction ps arbitrary: usb) (auto split: prod.split bool.split dest: wr_send_ok(1))
  show "wr_wrote good e usb \<Longrightarrow> wr_wrote good e (snd (send_dictionary c d usb))"
    using frags [of usb "chunks_of DICT_FRAG_MAX d"]
    by (cases "send_frags c (chunks_of DICT_FRAG_MAX d) usb") (auto simp: send_dictionary_def wr_send_keeps split: bool.split)
qed

lemma dict_frames_short: "f \<in> set (dict_frames c d) \<Longrightarrow> length (pf_payload f) \<le> 255 \<and> pf_ch_id f = CTRL_CH"
  using chunks_bound [of _ DICT_FRAG_MAX d]
  by (auto simp: dict_frames_def dict_frag_def dict_done_def DICT_FRAG_MAX_def)


section \<open>Gathering\<close>

text \<open>What the gatherer knows of one channel depends on the payloads about that channel only.\<close>

definition about :: "u8 \<Rightarrow> bytes \<Rightarrow> bool" where
  "about c p \<longleftrightarrow> 2 \<le> length p \<and> p ! 1 = c"

definition ga_at :: "u8 \<Rightarrow> gatherer \<Rightarrow> bytes option \<times> bytes option option" where
  "ga_at c g = (ga_dicts g c, ga_watch g c)"

lemma gather_local:
  "ga_at c g = ga_at c g' \<Longrightarrow> ga_at c (gather_dictionary p g) = ga_at c (gather_dictionary p g')"
  "\<not> about c p \<Longrightarrow> ga_at c (gather_dictionary p g) = ga_at c g"
  by (auto simp: ga_at_def gather_dictionary_def about_def Let_def split: list.split)

lemma gather_filter:
  "ga_at c g = ga_at c g' \<Longrightarrow>
   ga_at c (fold gather_dictionary ps g) = ga_at c (fold gather_dictionary (filter (about c) ps) g')"
proof (induction ps arbitrary: g g')
  case (Cons p ps)
  show ?case
  proof (cases "about c p")
    case True
    from Cons.IH [OF gather_local(1) [OF Cons.prems]] True show ?thesis by simp
  next
    case False
    then have "ga_at c (gather_dictionary p g) = ga_at c g'" using gather_local(2) Cons.prems by metis
    from Cons.IH [OF this] False show ?thesis by simp
  qed
qed simp

lemma gather_frags:
  "unwrap_or_default (ga_dicts (fold gather_dictionary (map (\<lambda>p. pf_payload (dict_frag c p)) ps) g) c)
     = unwrap_or_default (ga_dicts g c) @ concat ps
   \<and> ga_watch (fold gather_dictionary (map (\<lambda>p. pf_payload (dict_frag c p)) ps) g) c = ga_watch g c"
proof (induction ps arbitrary: g)
  case (Cons p ps)
  let ?g = "gather_dictionary (pf_payload (dict_frag c p)) g"
  have "unwrap_or_default (ga_dicts ?g c) = unwrap_or_default (ga_dicts g c) @ p" "ga_watch ?g c = ga_watch g c"
    by (simp_all add: gather_dictionary_def dict_frag_def unwrap_or_default_def)
  then show ?case using Cons.IH [of ?g] by simp
qed simp

lemma gather_dict:
  assumes "ga_dicts g c = None" "ga_watch g c \<noteq> None"
  shows "ga_watch (fold gather_dictionary (map pf_payload (dict_frames c d)) g) c = Some (Some d)"
proof -
  let ?g = "fold gather_dictionary (map (\<lambda>p. pf_payload (dict_frag c p)) (chunks_of DICT_FRAG_MAX d)) g"
  have "unwrap_or_default (ga_dicts ?g c) = d" "ga_watch ?g c = ga_watch g c"
    using gather_frags [of c "chunks_of DICT_FRAG_MAX d" g] assms(1)
    by (simp_all add: unwrap_or_default_def concat_chunks DICT_FRAG_MAX_def)
  then show ?thesis using assms(2)
    by (simp add: dict_frames_def dict_done_def gather_dictionary_def CTRL_DICT_FRAG_def CTRL_DICT_DONE_def
        Let_def comp_def)
qed


section \<open>Serving a dictionary\<close>

text \<open>What a sequence of calls of \<open>dispatch_raw\<close> does to the context; \<open>receive\<close> makes such a sequence, so
  what it returns is determined by the commands it decodes.\<close>

fun dispatch_calls :: "'tr anchor \<Rightarrow> bytes \<Rightarrow> bytes list \<Rightarrow> proxy_context \<Rightarrow> proxy_context option" where
  "dispatch_calls A dict [] ctx = Some ctx"
| "dispatch_calls A dict (c # cs) ctx = do {
     (ok, frame, ctx) \<leftarrow> dispatch_raw A dict c ctx;
     dispatch_calls A dict cs ctx
   }"

definition receives :: "'tr anchor \<Rightarrow> bytes \<Rightarrow> 'tr smart_conn \<Rightarrow> bytes \<Rightarrow> bytes list \<Rightarrow> bytes list \<Rightarrow> 'tr \<Rightarrow> bytes \<Rightarrow> bool" where
  "receives A dict cn bs cmds outs tr rest \<longleftrightarrow>
     (\<forall>ctx. an_receive A (dispatch_raw A dict) (sm_transport cn) (sm_input_buf cn @ bs) ctx
        = map_option (\<lambda>ctx. (outs, tr, rest, ctx)) (dispatch_calls A dict cmds ctx))"

text \<open>One command: forwarded unchanged, or answered from the dictionary, or dropped when it cannot be read.\<close>

definition forwarded :: "'tr anchor \<Rightarrow> bytes \<Rightarrow> bool" where
  "forwarded A c \<longleftrightarrow> (case an_read_u16 A c of Some (cmd, r) \<Rightarrow> cmd \<noteq> CMD_IDENTIFY | None \<Rightarrow> False)"

definition response :: "'tr anchor \<Rightarrow> u32 \<Rightarrow> bytes \<Rightarrow> bytes" where
  "response A offset chunk =
     an_write_u32 A 0 @ an_write_u32 A offset @ an_write_u32 A (of_nat (length chunk)) @ chunk"

text \<open>An \<open>identify\<close> request as \<open>anchor\<close> reads it: the offset and the number of bytes asked for.\<close>

definition identify_request :: "'tr anchor \<Rightarrow> bytes \<Rightarrow> (u32 \<times> u8) option" where
  "identify_request A frame =
     (case an_read_u16 A frame of
        Some (cmd, f) \<Rightarrow>
          if cmd \<noteq> CMD_IDENTIFY then None
          else (case an_read_u32 A f of
             Some (offset, f) \<Rightarrow> map_option (\<lambda>(n, f). (offset, n)) (an_read_u8 A f)
           | None \<Rightarrow> None)
      | None \<Rightarrow> None)"

text \<open>The answers that a sequence of commands is to get: the bytes of the dictionary from the offset on, as many as asked
  for or as there are.\<close>

definition answers :: "'tr anchor \<Rightarrow> bytes \<Rightarrow> bytes list \<Rightarrow> bytes list" where
  "answers A dict cmds = map (\<lambda>(offset, n). response A offset (take (unat n) (drop (unat offset) dict)))
     (List.map_filter (identify_request A) cmds)"

lemma answers_simps [simp]:
  "answers A dict [] = []" "answers A dict (xs @ ys) = answers A dict xs @ answers A dict ys"
  by (simp_all add: answers_def map_filter_def)

lemma dispatch_identify:
  assumes "an_read_u32 A frame = Some (offset, f1)" "an_read_u8 A f1 = Some (n, rest)"
  shows "dispatch A dict CMD_IDENTIFY frame ctx = Some (True, rest,
     ctx\<lparr>px_pending_responses := px_pending_responses ctx @ [response A offset (take (unat n) (drop (unat offset) dict))]\<rparr>)"
proof (cases "unat offset \<le> length dict")
  case True
  then have "slice dict (unat offset) (min (unat offset + unat n) (length dict)) = Some (take (unat n) (drop (unat offset) dict))"
    by (auto simp: slice_def min_def)
  then show ?thesis using assms True by (simp add: dispatch_def response_def Let_def)
next
  case False
  then show ?thesis using assms by (simp add: dispatch_def response_def Let_def)
qed

text \<open>What one call does to the context.  The slice of the dictionary is always in range, so no command makes the
  proxy panic.\<close>

definition after_calls :: "'tr anchor \<Rightarrow> bytes \<Rightarrow> bytes list \<Rightarrow> proxy_context \<Rightarrow> proxy_context" where
  "after_calls A dict cmds ctx =
     \<lparr>px_to_exporter = px_to_exporter ctx @ filter (forwarded A) cmds,
      px_pending_responses = px_pending_responses ctx @ answers A dict cmds, px_decoded = px_decoded ctx @ cmds\<rparr>"

lemma dispatch_raw_exact: "map_option (snd \<circ> snd) (dispatch_raw A dict frame ctx) = Some (after_calls A dict [frame] ctx)"
proof (cases "an_read_u16 A frame")
  case None
  then show ?thesis
    by (simp add: dispatch_raw_def after_calls_def answers_def forwarded_def identify_request_def map_filter_def)
next
  case (Some v)
  obtain cmd f where v: "v = (cmd, f)" by fastforce
  consider "cmd \<noteq> CMD_IDENTIFY" | "cmd = CMD_IDENTIFY" "an_read_u32 A f = None"
    | offset f1 where "cmd = CMD_IDENTIFY" "an_read_u32 A f = Some (offset, f1)" "an_read_u8 A f1 = None"
    | offset f1 n rest where "cmd = CMD_IDENTIFY" "an_read_u32 A f = Some (offset, f1)" "an_read_u8 A f1 = Some (n, rest)"
    by (metis not_Some_eq surj_pair)
  then show ?thesis using Some v
    by cases (simp_all add: dispatch_raw_def dispatch_identify, auto simp: dispatch_def after_calls_def answers_def
        forwarded_def identify_request_def map_filter_def)
qed

lemma dispatch_calls_exact: "dispatch_calls A dict cmds ctx = Some (after_calls A dict cmds ctx)"
proof (induction cmds arbitrary: ctx)
  case (Cons c cmds)
  obtain ok rest where "dispatch_raw A dict c ctx = Some (ok, rest, after_calls A dict [c] ctx)"
    using dispatch_raw_exact [of A dict c ctx] by auto
  then show ?case using Cons [of "after_calls A dict [c] ctx"] answers_simps(2) [of A dict "[c]" cmds]
    by (simp add: after_calls_def)
qed (simp add: after_calls_def)

text \<open>What a read of the socket does, by the commands that it brings.\<close>

lemma smart_socket_read_exact:
  assumes "receives A dict cn bs cmds outs tr rest"
  shows "smart_socket_read A dict bs cn =
    (case encode_responses A (answers A dict cmds) tr (fold channel_output outs (sm_to_klipper cn)) of
       (tr, w) \<Rightarrow> Some \<lparr>sm_transport = tr, sm_input_buf = rest, sm_to_klipper = w,
         sm_to_exporter = sm_to_exporter cn @ filter (forwarded A) cmds, sm_decoded = sm_decoded cn @ cmds, sm_own = sm_own cn @ outs\<rparr>)"
  using assms by (simp add: smart_socket_read_def receives_def dispatch_calls_exact after_calls_def split: prod.split)

text \<open>Requests for \<open>n\<close> bytes at the offsets 0, \<open>n\<close>, \<open>2 n\<close> and so on, whatever commands are between them, get the
  dictionary back.\<close>

lemma take_steps: "concat (map (\<lambda>i. take n (drop (i * n) xs)) [0..<k]) = take (k * n) xs"
proof (induction k)
  case (Suc k)
  have "take (k * n) xs @ take n (drop (k * n) xs) = take (k * n + n) xs" by (simp add: take_add)
  then show ?case using Suc by (simp add: add.commute)
qed simp

lemma answers_dictionary:
  assumes "List.map_filter (identify_request A) cmds = map (\<lambda>i. (of_nat (i * unat n), n)) [0..<k]" "k * unat n < 2 ^ 32"
  shows "\<exists>cs. answers A dict cmds = map (\<lambda>i. response A (of_nat (i * unat n)) (cs ! i)) [0..<k]
    \<and> concat cs = take (k * unat n) dict"
proof -
  let ?cs = "map (\<lambda>i. take (unat n) (drop (i * unat n) dict)) [0..<k]"
  have "unat (of_nat (i * unat n) :: u32) = i * unat n" if "i < k" for i
  proof -
    have "i * unat n \<le> k * unat n" using that by simp
    then have "i * unat n < 2 ^ 32" using assms(2) by linarith
    then show ?thesis unfolding unat_of_nat by simp
  qed
  then have "answers A dict cmds = map (\<lambda>i. response A (of_nat (i * unat n)) (?cs ! i)) [0..<k]"
    by (simp add: answers_def assms(1))
  moreover have "concat ?cs = take (k * unat n) dict" by (rule take_steps)
  ultimately show ?thesis by blast
qed

abbreviation tagged :: "u8 \<Rightarrow> bytes list \<Rightarrow> payload_frame list" where
  "tagged c ps \<equiv> map (\<lambda>p. \<lparr>pf_ch_id = c, pf_payload = p\<rparr>) ps"

text \<open>A transport without framing, whose commands have three bytes, one for each integer, and which
  counts what it sends.\<close>

fun example_receive ::
  "(bytes \<Rightarrow> proxy_context \<Rightarrow> (bool \<times> bytes \<times> proxy_context) option)
    \<Rightarrow> nat \<Rightarrow> bytes \<Rightarrow> proxy_context \<Rightarrow> (bytes list \<times> nat \<times> bytes \<times> proxy_context) option" where
  "example_receive d tr (a # b # c # rest) ctx = do {
     (ok, r, ctx) \<leftarrow> d [a, b, c] ctx;
     example_receive d tr rest ctx
   }"
| "example_receive d tr rest ctx = Some ([[0x7E]], tr, rest, ctx)"

definition example_anchor :: "nat anchor" where
  "example_anchor = \<lparr>
     an_read_u16 = (\<lambda>bs. case bs of [] \<Rightarrow> None | b # r \<Rightarrow> Some (ucast b, r)),
     an_read_u32 = (\<lambda>bs. case bs of [] \<Rightarrow> None | b # r \<Rightarrow> Some (ucast b, r)),
     an_read_u8 = (\<lambda>bs. case bs of [] \<Rightarrow> None | b # r \<Rightarrow> Some (b, r)),
     an_write_u32 = (\<lambda>x. [ucast x]),
     an_transport_new = 0,
     an_receive = example_receive,
     an_encode_frame = (\<lambda>p tr. (of_nat tr # p, Suc tr))\<rparr>"

end
