(* ===== verification/Smart_Inv.thy ===== *)
theory Smart_Inv
  imports Smart_Props
begin

text \<open>
  The smart host as a whole: an invariant of its tasks, for connections that come and go and any
  interleaving of turns.
\<close>

definition payloads_of :: "u8 \<Rightarrow> payload_frame list \<Rightarrow> bytes list" where
  "payloads_of c fs = map pf_payload (filter (\<lambda>f. pf_ch_id f = c) fs)"

lemma payloads_of_simps [simp]:
  "payloads_of c [] = []" "payloads_of c (fs @ gs) = payloads_of c fs @ payloads_of c gs"
  "payloads_of c [f] = (if pf_ch_id f = c then [pf_payload f] else [])"
  by (simp_all add: payloads_of_def)

text \<open>The transport makes its calls through \<open>dispatch_raw\<close>, on commands that depend only on its own state
  and on the bytes.\<close>

definition anchor_ok :: "'tr anchor \<Rightarrow> bool" where
  "anchor_ok A \<longleftrightarrow> (\<forall>dict cn bs. \<exists>cmds outs tr rest. receives A dict cn bs cmds outs tr rest)"

lemma smart_socket_read_total: "anchor_ok A \<Longrightarrow> \<exists>cn'. smart_socket_read A dict bs cn = Some cn'"
  unfolding anchor_ok_def using smart_socket_read_exact [of A dict cn bs] by (metis (no_types, lifting) case_prod_unfold)


section \<open>The invariant\<close>

definition published :: "u8 list \<Rightarrow> bytes list \<Rightarrow> u8 \<Rightarrow> bytes \<Rightarrow> bool" where
  "published ids ps c d \<longleftrightarrow> (\<exists>n. ga_watch (fold gather_dictionary (take n ps) (gatherer_new ids)) c = Some (Some d))"

lemma published_more: "published ids ps c d \<Longrightarrow> published ids (ps @ qs) c d"
proof -
  assume "published ids ps c d"
  then obtain n where n: "ga_watch (fold gather_dictionary (take n ps) (gatherer_new ids)) c = Some (Some d)"
    by (auto simp: published_def)
  have "take (min n (length ps)) (ps @ qs) = take n ps" by (simp add: min_def)
  then show ?thesis using n unfolding published_def by metis
qed

lemma gather_watch_dom: "(ga_watch (fold gather_dictionary ps g) c = None) = (ga_watch g c = None)"
proof (induction ps arbitrary: g)
  case (Cons p ps)
  have "(ga_watch (gather_dictionary p g) c = None) = (ga_watch g c = None)"
    by (auto simp: gather_dictionary_def Let_def split: list.split)
  then show ?case using Cons by simp
qed simp

lemma published_id: "published ids ps c d \<Longrightarrow> c \<in> set ids"
  using gather_watch_dom [of _ "gatherer_new ids" c] by (fastforce simp: published_def gatherer_new_def split: if_splits)

text \<open>The slot of a channel holds a sender exactly while there is a connection, and has been given exactly the
  payloads \<open>got\<close> of the channel that came since.\<close>

definition payload_slot_ok :: "bool \<Rightarrow> bool \<Rightarrow> bytes list \<Rightarrow> bytes writer option option \<Rightarrow> bool" where
  "payload_slot_ok known active got s \<longleftrightarrow>
     (case s of
        None \<Rightarrow> \<not> known \<and> \<not> active
      | Some None \<Rightarrow> known \<and> \<not> active
      | Some (Some w) \<Rightarrow> known \<and> active \<and> wr_alive w \<and> wr_sent w = got \<and> suffix (wr_queue w) (wr_sent w))"

lemma payload_slot_ok_simps [simp]:
  "payload_slot_ok known active got None \<longleftrightarrow> \<not> known \<and> \<not> active"
  "payload_slot_ok known active got (Some None) \<longleftrightarrow> known \<and> \<not> active"
  "payload_slot_ok known active got (Some (Some w)) \<longleftrightarrow>
     known \<and> active \<and> wr_alive w \<and> wr_sent w = got \<and> suffix (wr_queue w) (wr_sent w)"
  by (simp_all add: payload_slot_ok_def)

definition since_accept :: "u8 \<Rightarrow> 'tr smart_proxy \<Rightarrow> bytes list" where
  "since_accept c sp = payloads_of c (drop (sp_since sp c) (rd_items (sp_link sp)))"

definition smart_ok :: "u8 list \<Rightarrow> 'tr smart_proxy \<Rightarrow> bool" where
  "smart_ok ids sp \<longleftrightarrow>
     rd_ok payload_micro () (sp_link sp)
     \<and> wr_wrote short_payload payload_bytes (sp_usb sp) \<and> pf_ch_id ` set (wr_sent (sp_usb sp)) \<subseteq> set ids
     \<and> (\<exists>ps. ps @ sh_ctrl (sp_host sp) = payloads_of CTRL_CH (rd_items (sp_link sp))
          \<and> sp_gatherer sp = fold gather_dictionary ps (gatherer_new ids))
     \<and> (\<forall>c d. sp_dicts sp c = Some d \<longrightarrow> published ids (payloads_of CTRL_CH (rd_items (sp_link sp))) c d)
     \<and> (\<forall>c. sp_conns sp c \<noteq> None \<longrightarrow> sp_dicts sp c \<noteq> None)
     \<and> (\<forall>c. sp_since sp c \<le> length (rd_items (sp_link sp))) \<and> (\<forall>c. sp_ended sp c \<noteq> [] \<longrightarrow> c \<in> set ids)
     \<and> (\<forall>c. payload_slot_ok (c \<in> set ids) (sp_conns sp c \<noteq> None) (since_accept c sp) (sh_slots (sp_host sp) c))"

lemma smart_proxy_new_ok: "smart_ok ids (smart_proxy_new ids)"
  using payload.rd_new_ok by (simp add: smart_ok_def smart_proxy_new_def since_accept_def rd_new_def)

lemma smart_okD:
  assumes "smart_ok ids sp"
  shows "sp_dicts sp c = Some d \<Longrightarrow> published ids (payloads_of CTRL_CH (rd_items (sp_link sp))) c d"
    "sp_conns sp c = Some cn \<Longrightarrow> \<exists>d. sp_dicts sp c = Some d"
    "payload_slot_ok (c \<in> set ids) (sp_conns sp c \<noteq> None) (since_accept c sp) (sh_slots (sp_host sp) c)"
    "wr_wrote short_payload payload_bytes (sp_usb sp)"
  using assms by (auto simp: smart_ok_def)

lemma smart_ok_id:
  assumes "smart_ok ids sp"
  shows "sp_dicts sp c = Some d \<Longrightarrow> c \<in> set ids" "sp_conns sp c = Some cn \<Longrightarrow> c \<in> set ids"
  using smart_okD(1,2) [OF assms] published_id by blast+

text \<open>The state of a connection may change.\<close>

lemma smart_ok_conn:
  assumes "smart_ok ids sp" "sp_conns sp c = Some cn"
  shows "smart_ok ids (sp\<lparr>sp_conns := (sp_conns sp)(c \<mapsto> cn')\<rparr>)"
proof -
  have "(((sp_conns sp)(c \<mapsto> cn')) d \<noteq> None) = (sp_conns sp d \<noteq> None)" for d using assms(2) by simp
  with assms(1) show ?thesis by (simp add: smart_ok_def since_accept_def del: not_None_eq fun_upd_apply)
qed

text \<open>A frame from the link.\<close>

lemma route_slot_ok:
  assumes "payload_slot_ok known active got (sh_slots h c)" "c \<noteq> CTRL_CH"
  shows "payload_slot_ok known active (got @ payloads_of c [f]) (sh_slots (smart_host_route f h) c)"
  using assms
  by (cases "sh_slots h c"; cases "the (sh_slots h c)")
     (auto simp: smart_host_route_def wr_send_def suffix_def split: option.splits)

lemma route_slot_ctrl:
  assumes "payload_slot_ok known active got (sh_slots h CTRL_CH)" "\<not> known"
  shows "payload_slot_ok known active got' (sh_slots (smart_host_route f h) CTRL_CH)"
  using assms
  by (cases "sh_slots h CTRL_CH"; cases "the (sh_slots h CTRL_CH)") (auto simp: smart_host_route_def split: option.splits)

lemma sp_usb_next_ok:
  assumes "smart_ok ids sp" "CTRL_CH \<notin> set ids"
  shows "\<exists>sp'. sp_usb_next sp = Some sp' \<and> smart_ok ids sp'"
proof -
  obtain f link where n: "rd_next (stateless payload_decode) (sp_link sp) = Some (f, link)" "rd_ok payload_micro () link"
    "rd_items link = rd_items (sp_link sp) @ (case f of None \<Rightarrow> [] | Some g \<Rightarrow> [g])"
    using payload.rd_next_ok [of "()" "sp_link sp"] assms unfolding smart_ok_def by metis
  have "smart_ok ids (case f of Some pf \<Rightarrow> sp\<lparr>sp_link := link, sp_host := smart_host_route pf (sp_host sp)\<rparr>
      | None \<Rightarrow> sp\<lparr>sp_link := link\<rparr>)"
  proof (cases f)
    case None
    then show ?thesis using assms n by (simp add: smart_ok_def since_accept_def)
  next
    case (Some pf)
    let ?items = "rd_items (sp_link sp)" and ?h = "smart_host_route pf (sp_host sp)"
    let ?sp = "sp\<lparr>sp_link := link, sp_host := ?h\<rparr>"
    have items: "rd_items link = ?items @ [pf]" using n(3) Some by simp
    have since: "sp_since sp c \<le> length ?items" for c using assms(1) by (simp add: smart_ok_def)
    then have got: "since_accept c ?sp = since_accept c sp @ payloads_of c [pf]" for c by (simp add: since_accept_def items)
    have "payload_slot_ok (c \<in> set ids) (sp_conns sp c \<noteq> None) (since_accept c ?sp) (sh_slots ?h c)" for c
    proof (cases "c = CTRL_CH")
      case True
      then show ?thesis using route_slot_ctrl smart_okD(3) [OF assms(1), of c] assms(2) by blast
    next
      case False
      then show ?thesis using route_slot_ok [OF smart_okD(3) [OF assms(1)]] unfolding got by simp
    qed
    moreover have "sh_ctrl ?h = sh_ctrl (sp_host sp) @ payloads_of CTRL_CH [pf]"
      by (auto simp: smart_host_route_def split: option.split)
    moreover have "sp_since sp c \<le> Suc (length ?items)" for c using since [of c] by simp
    ultimately show ?thesis using assms(1) n(2) Some items published_more by (auto simp: smart_ok_def)
  qed
  then show ?thesis using n(1) by (auto simp: sp_usb_next_def Let_def split: option.splits)
qed

lemma sp_gather_ok: "smart_ok ids sp \<Longrightarrow> smart_ok ids (sp_gather sp)"
proof (cases "sh_ctrl (sp_host sp)")
  case (Cons p ps)
  assume s: "smart_ok ids sp"
  then obtain qs where "qs @ p # ps = payloads_of CTRL_CH (rd_items (sp_link sp))"
    "sp_gatherer sp = fold gather_dictionary qs (gatherer_new ids)" by (auto simp: smart_ok_def Cons)
  then have "\<exists>qs. qs @ ps = payloads_of CTRL_CH (rd_items (sp_link sp))
      \<and> gather_dictionary p (sp_gatherer sp) = fold gather_dictionary qs (gatherer_new ids)"
    by (intro exI [of _ "qs @ [p]"]) simp
  with s show ?thesis by (simp add: smart_ok_def since_accept_def sp_gather_def Cons)
qed (simp add: sp_gather_def)

lemma sp_ready_ok: "smart_ok ids sp \<Longrightarrow> smart_ok ids (sp_ready c sp)"
proof -
  assume s: "smart_ok ids sp"
  have "published ids (payloads_of CTRL_CH (rd_items (sp_link sp))) c d" if "ga_watch (sp_gatherer sp) c = Some (Some d)" for d
  proof -
    obtain qs where q: "qs @ sh_ctrl (sp_host sp) = payloads_of CTRL_CH (rd_items (sp_link sp))"
      "sp_gatherer sp = fold gather_dictionary qs (gatherer_new ids)" using s by (auto simp: smart_ok_def)
    have "take (length qs) (qs @ sh_ctrl (sp_host sp)) = qs" by simp
    then show ?thesis using that q unfolding published_def by metis
  qed
  with s show ?thesis by (auto simp: smart_ok_def since_accept_def sp_ready_def split: option.split)
qed

lemma smart_ok_slot:
  assumes "smart_ok ids sp" "payload_slot_ok (c \<in> set ids) (cn \<noteq> None) (since_accept c sp) (Some w)"
    and "cn \<noteq> None \<Longrightarrow> sp_dicts sp c \<noteq> None"
  shows "smart_ok ids (sp\<lparr>sp_host := set_payload_slot c w (sp_host sp), sp_conns := (sp_conns sp)(c := cn)\<rparr>)"
  using assms unfolding smart_ok_def set_payload_slot_def since_accept_def by simp

lemma sp_accept_ok:
  assumes s: "smart_ok ids sp"
  shows "smart_ok ids (sp_accept A c sp)"
proof (cases "sp_dicts sp c \<noteq> None \<and> sp_conns sp c = None")
  case True
  then have "c \<in> set ids" using smart_ok_id(1) [OF s] by blast
  then show ?thesis using s True by (simp add: sp_accept_def smart_ok_def set_payload_slot_def since_accept_def wr_new_def)
qed (use s in \<open>auto simp: sp_accept_def\<close>)

lemma sp_finish_ok:
  assumes s: "smart_ok ids sp"
  shows "smart_ok ids (sp_finish c sp)"
proof (cases "sp_conns sp c")
  case (Some cn)
  have "c \<in> set ids" by (rule smart_ok_id(2) [OF s Some])
  moreover from this have "smart_ok ids (sp\<lparr>sp_host := set_payload_slot c None (sp_host sp), sp_conns := (sp_conns sp)(c := None)\<rparr>)"
    by (intro smart_ok_slot [OF s]) simp_all
  ultimately show ?thesis using Some by (auto simp: sp_finish_def smart_ok_def since_accept_def)
qed (use s in \<open>simp add: sp_finish_def\<close>)

lemma sp_socket_read_ok:
  assumes "smart_ok ids sp" "anchor_ok A"
  shows "\<exists>sp'. sp_socket_read A c bs sp = Some sp' \<and> smart_ok ids sp'"
proof (cases "sp_conns sp c")
  case (Some cn)
  obtain d where d: "sp_dicts sp c = Some d" using smart_okD(2) [OF assms(1) Some] by blast
  obtain cn' where "smart_socket_read A d bs cn = Some cn'" using smart_socket_read_total [OF assms(2)] by blast
  then show ?thesis using smart_ok_conn [OF assms(1) Some] Some d by (simp add: sp_socket_read_def)
qed (use assms(1) in \<open>simp add: sp_socket_read_def\<close>)

lemma sp_mcu_response_ok:
  assumes s: "smart_ok ids sp"
  shows "smart_ok ids (sp_mcu_response A c sp)"
proof (cases "sp_conns sp c = None \<or> (\<forall>w. sh_slots (sp_host sp) c \<noteq> Some (Some w))")
  case True
  then show ?thesis using s by (auto simp: sp_mcu_response_def split: option.split)
next
  case False
  then obtain cn w where w: "sp_conns sp c = Some cn" "sh_slots (sp_host sp) c = Some (Some w)" by auto
  have ok: "payload_slot_ok (c \<in> set ids) True (since_accept c sp) (Some (Some w))"
    using smart_okD(3) [OF s, of c] w by auto
  have dict: "sp_dicts sp c \<noteq> None" using smart_okD(2) [OF s w(1)] by auto
  show ?thesis
  proof (cases "wr_queue w")
    case Nil
    then show ?thesis using s w by (simp add: sp_mcu_response_def)
  next
    case (Cons p ps)
    then have "suffix ps (wr_sent w)" using ok by (auto dest: suffix_ConsD)
    then have "payload_slot_ok (c \<in> set ids) True (since_accept c sp) (Some (Some (w\<lparr>wr_queue := ps\<rparr>)))"
      using ok by simp
    from smart_ok_slot [OF s, of c "Some (smart_mcu_response A p cn)", simplified, OF this] show ?thesis using w Cons dict
      by (simp add: sp_mcu_response_def)
  qed
qed

lemma smart_ok_usb:
  "smart_ok ids sp \<Longrightarrow> wr_wrote short_payload payload_bytes usb \<Longrightarrow> pf_ch_id ` set (wr_sent usb) \<subseteq> set ids \<Longrightarrow> smart_ok ids (sp\<lparr>sp_usb := usb\<rparr>)"
  unfolding smart_ok_def since_accept_def by simp

lemma smart_forward_ok:
  assumes s: "smart_ok ids sp" "c \<in> set ids" and f: "smart_forward c cn (sp_usb sp) = (ok, cn', usb)"
  shows "smart_ok ids (sp\<lparr>sp_usb := usb\<rparr>)"
proof (cases "sm_to_exporter cn")
  case Nil
  then show ?thesis using s f by (auto simp: smart_forward_def)
next
  case (Cons p ps)
  then have u: "wr_send \<lparr>pf_ch_id = c, pf_payload = p\<rparr> (sp_usb sp) = (ok, usb)" using f by (auto simp: smart_forward_def split: prod.splits)
  have "pf_ch_id ` set (wr_sent (sp_usb sp)) \<subseteq> set ids" using s by (simp add: smart_ok_def)
  then have "pf_ch_id ` set (wr_sent usb) \<subseteq> set ids" using wr_send_ok(2) [OF smart_okD(4) [OF s(1)] u] s(2) by auto
  then show ?thesis using smart_ok_usb [OF s(1) wr_send_ok(1) [OF smart_okD(4) [OF s(1)] u]] by simp
qed

lemma sp_forward_ok:
  assumes s: "smart_ok ids sp"
  shows "smart_ok ids (sp_forward c sp)"
proof (cases "sp_conns sp c")
  case (Some cn)
  obtain ok cn' usb where f: "smart_forward c cn (sp_usb sp) = (ok, cn', usb)" by (cases "smart_forward c cn (sp_usb sp)")
  have "smart_ok ids (sp\<lparr>sp_usb := usb\<rparr>)" by (rule smart_forward_ok [OF s smart_ok_id(2) [OF s Some] f])
  from smart_ok_conn [OF this, of c cn cn'] show ?thesis using Some f by (simp add: sp_forward_def)
qed (use s in \<open>simp add: sp_forward_def\<close>)

text \<open>The connections that have ended.\<close>

lemma smart_ok_ended:
  "smart_ok ids sp \<Longrightarrow> k < length (sp_ended sp c) \<Longrightarrow> smart_ok ids (sp\<lparr>sp_ended := (sp_ended sp)(c := (sp_ended sp c)[k := cn])\<rparr>)"
  by (auto simp: smart_ok_def since_accept_def)

lemma sp_old_ok:
  assumes s: "smart_ok ids sp"
  shows "smart_ok ids (sp_old_write c k out sp)" "smart_ok ids (sp_old_forward c k sp)"
proof -
  show "smart_ok ids (sp_old_write c k out sp)" using smart_ok_ended [OF s] s by (simp add: sp_old_write_def)
  show "smart_ok ids (sp_old_forward c k sp)"
  proof (cases "k < length (sp_ended sp c)")
    case True
    then have "sp_ended sp c \<noteq> []" by auto
    then have c: "c \<in> set ids" using s by (simp add: smart_ok_def)
    obtain ok cn' usb where f: "smart_forward c (sp_ended sp c ! k) (sp_usb sp) = (ok, cn', usb)"
      by (cases "smart_forward c (sp_ended sp c ! k) (sp_usb sp)")
    from smart_ok_ended [OF smart_forward_ok [OF s c f], of k c cn'] show ?thesis using True f by (simp add: sp_old_forward_def)
  qed (use s in \<open>simp add: sp_old_forward_def\<close>)
qed

lemma smart_step_ok: "smart_step A sp sp' \<Longrightarrow> anchor_ok A \<Longrightarrow> CTRL_CH \<notin> set ids \<Longrightarrow> smart_ok ids sp \<Longrightarrow> smart_ok ids sp'"
proof (induction rule: smart_step.induct)
  case (usb_data sp bs)
  then show ?case using payload.rd_data_ok [of "()" "sp_link sp" bs] by (auto simp: smart_ok_def since_accept_def rd_data_def)
next
  case (usb_next sp sp')
  then show ?case using sp_usb_next_ok [of ids sp] by auto
next
  case (usb_write sp out)
  then show ?case by (simp add: smart_ok_def since_accept_def sp_usb_write_def wr_step_payload)
next
  case (usb_end sp)
  then show ?case by (simp add: smart_ok_def since_accept_def)
next
  case (socket_read sp bs c sp')
  then show ?case using sp_socket_read_ok [of ids sp A c bs] by auto
next
  case (klipper_write sp c out)
  then show ?case using smart_ok_conn [of ids sp c] by (auto simp: sp_klipper_write_def split: option.split)
qed (simp_all add: sp_gather_ok sp_ready_ok sp_accept_ok sp_finish_ok sp_mcu_response_ok sp_forward_ok sp_old_ok)

interpretation smart_host: inductive_invariant
  "\<lambda>sp. anchor_ok A \<and> CTRL_CH \<notin> set ids \<and> sp = smart_proxy_new ids" "smart_step A"
  "\<lambda>sp. anchor_ok A \<and> CTRL_CH \<notin> set ids \<and> smart_ok ids sp"
  for A :: "'tr anchor" and ids
  by unfold_locales (auto intro: smart_proxy_new_ok smart_step_ok)

lemma smart_reaches_ok:
  assumes "smart_reaches A ids sp" "anchor_ok A" "CTRL_CH \<notin> set ids"
  shows "smart_ok ids sp"
  using smart_host.reaches_holds [OF assms(1)] assms(2,3) by simp


section \<open>Commands\<close>

text \<open>All connections of a channel, in the order in which they were accepted.\<close>

definition conns_of :: "'tr smart_proxy \<Rightarrow> u8 \<Rightarrow> 'tr smart_conn list" where
  "conns_of sp c = sp_ended sp c @ (case sp_conns sp c of None \<Rightarrow> [] | Some cn \<Rightarrow> [cn])"

text \<open>What is sent for a connection is a prefix of the commands that were decoded on it and are not \<open>identify\<close>; while the
  USB writer runs the others are still in its queue.\<close>

definition conn_sent :: "'tr anchor \<Rightarrow> bool \<Rightarrow> 'tr smart_conn \<Rightarrow> bytes list \<Rightarrow> bool" where
  "conn_sent A alive cn sent \<longleftrightarrow> prefix sent (filter (forwarded A) (sm_decoded cn))
     \<and> (alive \<longrightarrow> sent @ sm_to_exporter cn = filter (forwarded A) (sm_decoded cn))"

definition commands_ok :: "'tr anchor \<Rightarrow> 'tr smart_proxy \<Rightarrow> bool" where
  "commands_ok A sp \<longleftrightarrow> (\<forall>c. \<exists>sents. merged sents (payloads_of c (wr_sent (sp_usb sp)))
     \<and> list_all2 (conn_sent A (wr_alive (sp_usb sp))) (conns_of sp c) sents)"

lemma smart_socket_read_commands:
  assumes "anchor_ok A" "smart_socket_read A dict bs cn = Some cn'"
  obtains cmds where "sm_to_exporter cn' = sm_to_exporter cn @ filter (forwarded A) cmds" "sm_decoded cn' = sm_decoded cn @ cmds"
proof -
  from assms(1) obtain cmds outs tr rest where r: "receives A dict cn bs cmds outs tr rest" unfolding anchor_ok_def by blast
  show thesis using smart_socket_read_exact [OF r] assms(2) that by (auto split: prod.splits)
qed

lemma conn_sent_read:
  assumes "anchor_ok A" "smart_socket_read A dict bs cn = Some cn'" "conn_sent A alive cn sent"
  shows "conn_sent A alive cn' sent"
proof -
  obtain cmds where "sm_to_exporter cn' = sm_to_exporter cn @ filter (forwarded A) cmds" "sm_decoded cn' = sm_decoded cn @ cmds"
    by (rule smart_socket_read_commands [OF assms(1,2)])
  then show ?thesis using assms(3) by (auto simp: conn_sent_def)
qed

text \<open>One connection changes and nothing is sent.\<close>

definition same_commands :: "'tr smart_conn \<Rightarrow> 'tr smart_conn \<Rightarrow> bool" where
  "same_commands cn cn' \<longleftrightarrow> sm_to_exporter cn' = sm_to_exporter cn \<and> sm_decoded cn' = sm_decoded cn"

lemma commands_ok_frame:
  assumes "commands_ok A sp" "wr_sent (sp_usb sp') = wr_sent (sp_usb sp)" "wr_alive (sp_usb sp') \<Longrightarrow> wr_alive (sp_usb sp)"
    and "\<And>c. list_all2 (\<lambda>cn cn'. \<forall>sent. conn_sent A (wr_alive (sp_usb sp)) cn sent \<longrightarrow> conn_sent A (wr_alive (sp_usb sp')) cn' sent)
           (conns_of sp c) (conns_of sp' c)"
  shows "commands_ok A sp'"
  unfolding commands_ok_def
proof
  fix c
  obtain sents where s: "merged sents (payloads_of c (wr_sent (sp_usb sp)))"
    "list_all2 (conn_sent A (wr_alive (sp_usb sp))) (conns_of sp c) sents" using assms(1) by (auto simp: commands_ok_def)
  then have "list_all2 (conn_sent A (wr_alive (sp_usb sp'))) (conns_of sp' c) sents"
    using assms(4) [of c] by (auto simp: list_all2_conv_all_nth)
  with s(1) assms(2) show "\<exists>sents. merged sents (payloads_of c (wr_sent (sp_usb sp')))
     \<and> list_all2 (conn_sent A (wr_alive (sp_usb sp'))) (conns_of sp' c) sents" by auto
qed

lemma conn_sent_same: "same_commands cn cn' \<Longrightarrow> (alive' \<Longrightarrow> alive) \<Longrightarrow> conn_sent A alive cn sent \<Longrightarrow> conn_sent A alive' cn' sent"
  by (auto simp: conn_sent_def same_commands_def)

lemma commands_ok_same:
  assumes "commands_ok A sp" "wr_sent (sp_usb sp') = wr_sent (sp_usb sp)" "wr_alive (sp_usb sp') \<Longrightarrow> wr_alive (sp_usb sp)"
    and "\<And>c. list_all2 same_commands (conns_of sp c) (conns_of sp' c)"
  shows "commands_ok A sp'"
proof (rule commands_ok_frame [OF assms(1-3)])
  show "list_all2 (\<lambda>cn cn'. \<forall>sent. conn_sent A (wr_alive (sp_usb sp)) cn sent \<longrightarrow> conn_sent A (wr_alive (sp_usb sp')) cn' sent)
           (conns_of sp c) (conns_of sp' c)" for c
    by (rule list_all2_mono [OF assms(4)]) (use conn_sent_same assms(3) in blast)
qed

lemma same_commands_refl [simp]: "same_commands cn cn" "list_all2 same_commands cns cns"
  by (simp_all add: same_commands_def list_all2_same)

lemma conns_of_upd:
  assumes "sp_conns sp c = Some cn"
  shows "conns_of (sp\<lparr>sp_usb := usb, sp_conns := (sp_conns sp)(c \<mapsto> cn')\<rparr>) d
    = (if d = c then (conns_of sp c)[length (sp_ended sp c) := cn'] else conns_of sp d)"
    "length (sp_ended sp c) < length (conns_of sp c)" "conns_of sp c ! length (sp_ended sp c) = cn"
  using assms by (simp_all add: conns_of_def)

lemma conns_of_ended:
  assumes "k < length (sp_ended sp c)"
  shows "conns_of (sp\<lparr>sp_usb := usb, sp_ended := (sp_ended sp)(c := (sp_ended sp c)[k := cn'])\<rparr>) d
    = (if d = c then (conns_of sp c)[k := cn'] else conns_of sp d)"
    "k < length (conns_of sp c)" "conns_of sp c ! k = sp_ended sp c ! k"
  using assms by (auto simp: conns_of_def list_update_append nth_append)

text \<open>A command is forwarded for some connection.\<close>

lemma conn_sent_next:
  assumes "conn_sent A True cn sent" "sm_to_exporter cn = p # ps" "sm_decoded cn' = sm_decoded cn" "sm_to_exporter cn' = ps"
  shows "conn_sent A True cn' (sent @ [p])"
proof -
  have e: "(sent @ [p]) @ ps = filter (forwarded A) (sm_decoded cn)" using assms(1,2) by (simp add: conn_sent_def)
  then have "prefix (sent @ [p]) (filter (forwarded A) (sm_decoded cn))" by (metis prefixI)
  with e show ?thesis using assms(3,4) by (simp add: conn_sent_def)
qed

lemma commands_ok_forward:
  assumes "commands_ok A sp" and k: "k < length (conns_of sp c)"
    and f: "smart_forward c (conns_of sp c ! k) (sp_usb sp) = (ok, cn', usb)"
    and usb: "sp_usb sp' = usb" and conns: "\<And>d. conns_of sp' d = (if d = c then (conns_of sp c)[k := cn'] else conns_of sp d)"
  shows "commands_ok A sp'"
proof (cases "sm_to_exporter (conns_of sp c ! k) = [] \<or> \<not> wr_alive (sp_usb sp)")
  case True
  then have "wr_sent usb = wr_sent (sp_usb sp)" "wr_alive usb = wr_alive (sp_usb sp)"
    and cn': "sm_decoded cn' = sm_decoded (conns_of sp c ! k)" "sm_to_exporter (conns_of sp c ! k) = [] \<Longrightarrow> cn' = conns_of sp c ! k"
    using f by (auto simp: smart_forward_def wr_send_def split: list.splits)
  moreover have "list_all2 (\<lambda>cn cn'. \<forall>sent. conn_sent A (wr_alive (sp_usb sp)) cn sent \<longrightarrow> conn_sent A (wr_alive (sp_usb sp)) cn' sent)
      (conns_of sp d) (conns_of sp' d)" for d
    unfolding conns using k True cn' by (auto simp: list_all2_conv_all_nth nth_list_update conn_sent_def)
  ultimately show ?thesis by (intro commands_ok_frame [OF assms(1)]) (simp_all add: usb)
next
  case False
  then obtain p ps where p: "sm_to_exporter (conns_of sp c ! k) = p # ps" by (auto simp: neq_Nil_conv)
  have u: "wr_sent usb = wr_sent (sp_usb sp) @ [\<lparr>pf_ch_id = c, pf_payload = p\<rparr>]" "wr_alive usb" "wr_alive (sp_usb sp)"
    and cn': "sm_decoded cn' = sm_decoded (conns_of sp c ! k)" "sm_to_exporter cn' = ps"
    using f p False by (auto simp: smart_forward_def wr_send_def)
  show ?thesis unfolding commands_ok_def
  proof
    fix d
    obtain sents where s: "merged sents (payloads_of d (wr_sent (sp_usb sp)))" "list_all2 (conn_sent A True) (conns_of sp d) sents"
      using assms(1) u(3) by (auto simp: commands_ok_def)
    show "\<exists>sents. merged sents (payloads_of d (wr_sent (sp_usb sp')))
       \<and> list_all2 (conn_sent A (wr_alive (sp_usb sp'))) (conns_of sp' d) sents"
    proof (cases "d = c")
      case True
      let ?sents = "sents[k := sents ! k @ [p]]"
      have "merged ?sents (payloads_of d (wr_sent (sp_usb sp)) @ [p])"
        using s k True by (intro merged_add) (auto dest: list_all2_lengthD)
      moreover have "list_all2 (conn_sent A True) ((conns_of sp c)[k := cn']) ?sents"
        using s(2) k True conn_sent_next [OF _ p cn'] by (auto simp: list_all2_conv_all_nth nth_list_update)
      ultimately show ?thesis using True u conns usb by (intro exI [of _ ?sents]) simp
    next
      case False
      then show ?thesis using s u conns usb by (intro exI [of _ sents]) simp
    qed
  qed
qed

lemma sp_forward_commands:
  assumes "commands_ok A sp"
  shows "commands_ok A (sp_forward c sp)" "commands_ok A (sp_old_forward c k sp)"
proof -
  show "commands_ok A (sp_forward c sp)"
  proof (cases "sp_conns sp c")
    case (Some cn)
    obtain ok cn' usb where f: "smart_forward c cn (sp_usb sp) = (ok, cn', usb)" by (cases "smart_forward c cn (sp_usb sp)")
    show ?thesis
      by (rule commands_ok_forward [OF assms, of "length (sp_ended sp c)" c ok cn' usb])
         (use Some f conns_of_upd [OF Some] in \<open>simp_all add: sp_forward_def\<close>)
  qed (use assms in \<open>simp add: sp_forward_def\<close>)
  show "commands_ok A (sp_old_forward c k sp)"
  proof (cases "k < length (sp_ended sp c)")
    case True
    obtain ok cn' usb where f: "smart_forward c (sp_ended sp c ! k) (sp_usb sp) = (ok, cn', usb)"
      by (cases "smart_forward c (sp_ended sp c ! k) (sp_usb sp)")
    show ?thesis
      by (rule commands_ok_forward [OF assms, of k c ok cn' usb])
         (use True f conns_of_ended [OF True] in \<open>simp_all add: sp_old_forward_def\<close>)
  qed (use assms in \<open>simp add: sp_old_forward_def\<close>)
qed

lemma sp_socket_read_commands:
  assumes "commands_ok A sp" "anchor_ok A" "sp_socket_read A c bs sp = Some sp'"
  shows "commands_ok A sp'"
proof (cases "\<exists>cn d. sp_conns sp c = Some cn \<and> sp_dicts sp c = Some d")
  case False
  then have "sp' = sp" using assms(3) by (auto simp: sp_socket_read_def split: option.splits)
  then show ?thesis using assms(1) by simp
next
  case True
  then obtain cn d where cn: "sp_conns sp c = Some cn" "sp_dicts sp c = Some d" by blast
  obtain cn' where r: "smart_socket_read A d bs cn = Some cn'" "sp' = sp\<lparr>sp_conns := (sp_conns sp)(c \<mapsto> cn')\<rparr>"
    using assms(3) cn by (auto simp: sp_socket_read_def split: Option.bind_splits)
  show ?thesis
    by (rule commands_ok_frame [OF assms(1)])
       (use cn(1) conn_sent_read [OF assms(2) r(1)] in \<open>auto simp: r(2) conns_of_def list_all2_same intro!: list_all2_appendI\<close>)
qed

lemma accept_commands:
  assumes "commands_ok A sp"
  shows "commands_ok A (sp_accept A c sp)"
proof (cases "sp_dicts sp c \<noteq> None \<and> sp_conns sp c = None")
  case True
  then have conns: "conns_of (sp_accept A c sp) d = conns_of sp d @ (if d = c then [smart_conn_new A] else [])" for d
    by (simp add: conns_of_def sp_accept_def)
  show ?thesis unfolding commands_ok_def
  proof
    fix d
    obtain sents where s: "merged sents (payloads_of d (wr_sent (sp_usb sp)))"
      "list_all2 (conn_sent A (wr_alive (sp_usb sp))) (conns_of sp d) sents" using assms by (auto simp: commands_ok_def)
    have "conn_sent A (wr_alive (sp_usb sp)) (smart_conn_new A) []" by (simp add: conn_sent_def smart_conn_new_def)
    moreover have "sp_usb (sp_accept A c sp) = sp_usb sp" by (simp add: sp_accept_def)
    ultimately show "\<exists>sents. merged sents (payloads_of d (wr_sent (sp_usb (sp_accept A c sp))))
       \<and> list_all2 (conn_sent A (wr_alive (sp_usb (sp_accept A c sp)))) (conns_of (sp_accept A c sp) d) sents"
      unfolding conns using s merged_open [OF s(1)]
      by (intro exI [of _ "sents @ (if d = c then [[]] else [])"]) (auto intro: list_all2_appendI)
  qed
qed (use assms in \<open>auto simp: sp_accept_def\<close>)

lemma usb_kept [simp]:
  "sp_usb (sp_mcu_response A c sp) = sp_usb sp" "sp_usb (sp_klipper_write c out sp) = sp_usb sp"
  "sp_usb (sp_old_write c k out sp) = sp_usb sp" "sp_usb (sp_finish c sp) = sp_usb sp"
  "sp_usb (sp_gather sp) = sp_usb sp" "sp_usb (sp_ready c sp) = sp_usb sp"
  by (simp_all add: sp_gather_def sp_ready_def sp_mcu_response_def sp_klipper_write_def sp_old_write_def sp_finish_def split: option.split list.split)

lemma smart_step_commands: "smart_step A sp sp' \<Longrightarrow> anchor_ok A \<Longrightarrow> commands_ok A sp \<Longrightarrow> commands_ok A sp'"
proof (induction rule: smart_step.induct)
  case (usb_next sp sp')
  then have "sp_usb sp' = sp_usb sp \<and> conns_of sp' = conns_of sp"
    by (auto simp: sp_usb_next_def Let_def conns_of_def fun_eq_iff split: Option.bind_splits option.splits)
  then show ?case by (intro commands_ok_same [OF usb_next.prems(2)]) simp_all
next
  case (socket_read sp bs c sp')
  then show ?case using sp_socket_read_commands by blast
next
  case (usb_write sp out)
  have "wr_alive (wr_step e out w) \<Longrightarrow> wr_alive w" for e and w :: "payload_frame writer"
    by (auto simp: wr_step_def split: if_splits)
  then show ?case by (intro commands_ok_same [OF usb_write.prems(2)]) (auto simp: sp_usb_write_def conns_of_def)
next
  case (mcu_response sp c)
  show ?case by (rule commands_ok_same [OF mcu_response.prems(2)], simp_all)
    (auto simp: sp_mcu_response_def smart_mcu_response_def conns_of_def same_commands_def
      intro!: list_all2_appendI split: option.split list.split prod.split)
next
  case (klipper_write sp c out)
  show ?case by (rule commands_ok_same [OF klipper_write.prems(2)], simp_all)
    (auto simp: sp_klipper_write_def smart_klipper_write_def conns_of_def same_commands_def intro!: list_all2_appendI split: option.split)
next
  case (old_write sp c k out)
  show ?case by (rule commands_ok_same [OF old_write.prems(2)], simp_all)
    (auto simp: sp_old_write_def smart_klipper_write_def conns_of_def same_commands_def list_all2_conv_all_nth nth_list_update nth_append)
next
  case (finish sp c)
  have "conns_of (sp_finish c sp) = conns_of sp" by (auto simp: conns_of_def sp_finish_def fun_eq_iff split: option.split)
  then show ?case by (intro commands_ok_same [OF finish.prems(2)]) simp_all
next
  case (gather sp)
  have "conns_of (sp_gather sp) = conns_of sp" by (simp add: conns_of_def sp_gather_def fun_eq_iff split: list.split)
  then show ?case by (intro commands_ok_same [OF gather.prems(2)]) simp_all
next
  case (ready sp c)
  have "conns_of (sp_ready c sp) = conns_of sp" by (simp add: conns_of_def sp_ready_def fun_eq_iff split: option.split)
  then show ?case by (intro commands_ok_same [OF ready.prems(2)]) simp_all
qed (simp_all add: sp_forward_commands accept_commands, simp_all add: commands_ok_def conns_of_def)

lemma smart_proxy_new_commands: "commands_ok A (smart_proxy_new ids)"
  using merged_Nil by (auto simp: commands_ok_def smart_proxy_new_def conns_of_def)

interpretation smart_commands: inductive_invariant
  "\<lambda>sp. anchor_ok A \<and> sp = smart_proxy_new ids" "smart_step A" "\<lambda>sp. anchor_ok A \<and> commands_ok A sp"
  for A :: "'tr anchor" and ids
  by unfold_locales (auto intro: smart_step_commands smart_proxy_new_commands)

lemma smart_reaches_commands: "smart_reaches A ids sp \<Longrightarrow> anchor_ok A \<Longrightarrow> commands_ok A sp"
  using smart_commands.reaches_holds [of A "smart_proxy_new ids" sp ids] by simp

section \<open>What is sent to Klipper\<close>

text \<open>Three kinds of buffers go to the socket: those that the transport writes by itself, the framed answers to
  \<open>identify\<close>, and the framed payloads of the MCU.  Empty ones are not sent.\<close>

datatype out_kind = Own | Answer | Mcu_Payload

definition of_kind :: "out_kind \<Rightarrow> (out_kind \<times> bytes) list \<Rightarrow> bytes list" where
  "of_kind k items = map snd (filter (\<lambda>x. fst x = k) items)"

definition sent_items :: "(out_kind \<times> bytes) list \<Rightarrow> bytes list" where
  "sent_items items = filter (\<lambda>b. b \<noteq> []) (map snd items)"

lemma out_items_simps [simp]:
  "of_kind k [] = []" "of_kind k (xs @ ys) = of_kind k xs @ of_kind k ys" "sent_items (xs @ ys) = sent_items xs @ sent_items ys"
  "of_kind k (map (Pair j) bs) = (if j = k then bs else [])" "of_kind k [(j, b)] = (if j = k then [b] else [])" "sent_items [] = []"
  by (simp_all add: of_kind_def sent_items_def comp_def)

text \<open>A payload that went through \<open>encode_frame\<close> in some state of the transport.\<close>

definition framed :: "'tr anchor \<Rightarrow> bytes \<Rightarrow> bytes \<Rightarrow> bool" where
  "framed A p b \<longleftrightarrow> (\<exists>tr. b = fst (an_encode_frame A p tr))"

definition gives :: "bytes writer \<Rightarrow> (out_kind \<times> bytes) list \<Rightarrow> bool" where
  "gives w items \<longleftrightarrow> prefix (wr_sent w) (sent_items items) \<and> (wr_alive w \<longrightarrow> wr_sent w = sent_items items)"

lemma gives_output: "gives w items \<Longrightarrow> gives (channel_output b w) (items @ [(k, b)])"
  by (auto simp: gives_def channel_output_def wr_send_def sent_items_def)

lemma gives_outputs: "gives w items \<Longrightarrow> gives (fold channel_output bs w) (items @ map (Pair k) bs)"
proof (induction bs arbitrary: w items)
  case (Cons b bs)
  from Cons.IH [OF gives_output [OF Cons.prems, of b k]] show ?case by simp
qed simp

lemma gives_step: "gives w items \<Longrightarrow> gives (wr_step e out w) items"
  by (auto simp: gives_def) (auto simp: wr_step_def split: if_splits list.splits sum.splits write_all_result.splits)

lemma gives_responses:
  assumes "encode_responses A ps tr w = (tr', w')" "gives w items"
  shows "\<exists>bs. gives w' (items @ map (Pair k) bs) \<and> list_all2 (framed A) ps bs"
  using assms
proof (induction ps arbitrary: tr w items)
  case (Cons p ps)
  obtain b tr1 where b: "an_encode_frame A p tr = (b, tr1)" by fastforce
  from Cons.IH [OF _ gives_output [OF Cons.prems(2), of b k]] Cons.prems(1) b obtain bs where
    "gives w' ((items @ [(k, b)]) @ map (Pair k) bs)" "list_all2 (framed A) ps bs" by auto
  moreover have "framed A p b" unfolding framed_def by (metis b fst_conv)
  ultimately show ?case by (intro exI [of _ "b # bs"]) simp
qed (auto intro: exI [of _ "[]"])

definition klipper_ok :: "'tr anchor \<Rightarrow> bytes \<Rightarrow> bytes list \<Rightarrow> 'tr smart_conn \<Rightarrow> bool" where
  "klipper_ok A dict answered cn \<longleftrightarrow> (\<exists>items. gives (sm_to_klipper cn) items
     \<and> list_all2 (framed A) (answers A dict (sm_decoded cn)) (of_kind Answer items)
     \<and> list_all2 (framed A) answered (of_kind Mcu_Payload items) \<and> of_kind Own items = sm_own cn)"

lemma klipper_ok_new: "klipper_ok A dict [] (smart_conn_new A)"
  unfolding klipper_ok_def by (rule exI [of _ "[]"]) (simp add: smart_conn_new_def gives_def)

lemma klipper_ok_same:
  "klipper_ok A dict ps cn \<Longrightarrow> sm_decoded cn' = sm_decoded cn \<Longrightarrow> sm_own cn' = sm_own cn \<Longrightarrow> sm_to_klipper cn' = sm_to_klipper cn
   \<Longrightarrow> klipper_ok A dict ps cn'"
  by (simp add: klipper_ok_def)

lemma klipper_ok_write: "klipper_ok A dict ps cn \<Longrightarrow> klipper_ok A dict ps (smart_klipper_write out cn)"
  using gives_step by (fastforce simp: klipper_ok_def smart_klipper_write_def)

lemma klipper_ok_response:
  assumes "klipper_ok A dict ps cn"
  shows "klipper_ok A dict (ps @ [p]) (smart_mcu_response A p cn)"
proof -
  obtain items where i: "gives (sm_to_klipper cn) items" "list_all2 (framed A) (answers A dict (sm_decoded cn)) (of_kind Answer items)"
    "list_all2 (framed A) ps (of_kind Mcu_Payload items)" "of_kind Own items = sm_own cn" using assms by (auto simp: klipper_ok_def)
  obtain b tr where b: "an_encode_frame A p (sm_transport cn) = (b, tr)" by fastforce
  have "framed A p b" unfolding framed_def by (metis b fst_conv)
  then show ?thesis using i gives_output [OF i(1), of b Mcu_Payload] b unfolding klipper_ok_def
    by (intro exI [of _ "items @ [(Mcu_Payload, b)]"]) (simp add: smart_mcu_response_def list_all2_appendI)
qed

lemma klipper_ok_read:
  assumes "anchor_ok A" "smart_socket_read A dict bs cn = Some cn'" "klipper_ok A dict ps cn"
  shows "klipper_ok A dict ps cn'"
proof -
  obtain items where i: "gives (sm_to_klipper cn) items" "list_all2 (framed A) (answers A dict (sm_decoded cn)) (of_kind Answer items)"
    "list_all2 (framed A) ps (of_kind Mcu_Payload items)" "of_kind Own items = sm_own cn" using assms(3) by (auto simp: klipper_ok_def)
  obtain cmds outs tr rest where r: "receives A dict cn bs cmds outs tr rest" using assms(1) unfolding anchor_ok_def by blast
  obtain tr' w where e: "encode_responses A (answers A dict cmds) tr (fold channel_output outs (sm_to_klipper cn)) = (tr', w)" by fastforce
  obtain bufs where b: "gives w ((items @ map (Pair Own) outs) @ map (Pair Answer) bufs)" "list_all2 (framed A) (answers A dict cmds) bufs"
    using gives_responses [OF e gives_outputs [OF i(1), of outs Own], of Answer] by blast
  have "cn' = \<lparr>sm_transport = tr', sm_input_buf = rest, sm_to_klipper = w,
      sm_to_exporter = sm_to_exporter cn @ filter (forwarded A) cmds, sm_decoded = sm_decoded cn @ cmds, sm_own = sm_own cn @ outs\<rparr>"
    using smart_socket_read_exact [OF r] e assms(2) by simp
  then show ?thesis using i b unfolding klipper_ok_def
    by (intro exI [of _ "(items @ map (Pair Own) outs) @ map (Pair Answer) bufs"]) (simp add: list_all2_appendI)
qed

text \<open>The connection of a channel, with the payloads it has taken from its slot.\<close>

definition klippers_ok :: "'tr anchor \<Rightarrow> 'tr smart_proxy \<Rightarrow> bool" where
  "klippers_ok A sp \<longleftrightarrow> (\<forall>c cn. sp_conns sp c = Some cn \<longrightarrow> (\<exists>dict w answered. sp_dicts sp c = Some dict
     \<and> sh_slots (sp_host sp) c = Some (Some w) \<and> wr_sent w = answered @ wr_queue w \<and> klipper_ok A dict answered cn))"

lemma klippers_okD:
  assumes "klippers_ok A sp" "sp_conns sp c = Some cn"
  obtains dict w answered where "sp_dicts sp c = Some dict" "sh_slots (sp_host sp) c = Some (Some w)"
    "wr_sent w = answered @ wr_queue w" "klipper_ok A dict answered cn"
  using assms unfolding klippers_ok_def by blast

lemma klippers_ok_frame:
  assumes "klippers_ok A sp" "sp_host sp' = sp_host sp" "sp_dicts sp' = sp_dicts sp"
    and "\<And>c cn'. sp_conns sp' c = Some cn' \<Longrightarrow> \<exists>cn. sp_conns sp c = Some cn
      \<and> (\<forall>d ps. sp_dicts sp c = Some d \<longrightarrow> klipper_ok A d ps cn \<longrightarrow> klipper_ok A d ps cn')"
  shows "klippers_ok A sp'"
  using assms unfolding klippers_ok_def by metis

lemma sp_usb_next_klippers:
  assumes "klippers_ok A sp" "sp_usb_next sp = Some sp'"
  shows "klippers_ok A sp'"
proof -
  have slot: "\<exists>w'. sh_slots (smart_host_route pf h) c = Some (Some w') \<and> wr_sent w' = answered @ wr_queue w'"
    if "sh_slots h c = Some (Some w)" "wr_sent w = answered @ wr_queue w" for pf h c w answered
    using that by (auto simp: smart_host_route_def wr_send_def split: option.split)
  have "sp_conns sp' = sp_conns sp" "sp_dicts sp' = sp_dicts sp" "sp_host sp' = sp_host sp \<or> (\<exists>pf. sp_host sp' = smart_host_route pf (sp_host sp))"
    using assms(2) by (auto simp: sp_usb_next_def Let_def split: Option.bind_splits option.splits)
  then show ?thesis using assms(1) slot unfolding klippers_ok_def by metis
qed

lemma sp_mcu_response_klippers:
  assumes "klippers_ok A sp"
  shows "klippers_ok A (sp_mcu_response A c sp)"
proof (cases "sp_conns sp c")
  case (Some cn)
  obtain dict w answered where k: "sp_dicts sp c = Some dict" "sh_slots (sp_host sp) c = Some (Some w)"
    "wr_sent w = answered @ wr_queue w" "klipper_ok A dict answered cn" by (rule klippers_okD [OF assms Some])
  show ?thesis
  proof (cases "wr_queue w")
    case Nil
    then show ?thesis using assms Some k(2) by (simp add: sp_mcu_response_def)
  next
    case (Cons p ps)
    then have "wr_sent (w\<lparr>wr_queue := ps\<rparr>) = (answered @ [p]) @ wr_queue (w\<lparr>wr_queue := ps\<rparr>)" using k(3) by simp
    with klipper_ok_response [OF k(4), of p] show ?thesis using assms Some k(1,2) Cons
      unfolding klippers_ok_def by (auto simp: sp_mcu_response_def set_payload_slot_def)
  qed
qed (use assms in \<open>simp add: sp_mcu_response_def\<close>)

lemma smart_step_klippers: "smart_step A sp sp' \<Longrightarrow> anchor_ok A \<Longrightarrow> klippers_ok A sp \<Longrightarrow> klippers_ok A sp'"
proof (induction rule: smart_step.induct)
  case (usb_next sp sp')
  then show ?case using sp_usb_next_klippers by blast
next
  case (gather sp)
  have "sh_slots (sp_host (sp_gather sp)) = sh_slots (sp_host sp)" "sp_dicts (sp_gather sp) = sp_dicts sp" "sp_conns (sp_gather sp) = sp_conns sp"
    by (simp_all add: sp_gather_def split: list.split)
  then show ?case using gather.prems(2) by (simp add: klippers_ok_def)
next
  case (ready sp c)
  have "sp_dicts (sp_ready c sp) d = Some dict" if "sp_dicts sp d = Some dict" for d dict
    using that by (auto simp: sp_ready_def split: option.split)
  moreover have "sp_host (sp_ready c sp) = sp_host sp" "sp_conns (sp_ready c sp) = sp_conns sp"
    by (simp_all add: sp_ready_def split: option.split)
  ultimately show ?case using ready.prems(2) by (fastforce simp: klippers_ok_def)
next
  case (accept sp c)
  then show ?case using klipper_ok_new [of A] unfolding klippers_ok_def
    by (auto simp: sp_accept_def set_payload_slot_def wr_new_def)
next
  case (finish sp c)
  then show ?case unfolding klippers_ok_def by (auto simp: sp_finish_def set_payload_slot_def split: option.split)
next
  case (socket_read sp bs c sp')
  have "(sp' = sp) \<or> (\<exists>cn d cn'. sp_conns sp c = Some cn \<and> sp_dicts sp c = Some d \<and> smart_socket_read A d bs cn = Some cn'
      \<and> sp' = sp\<lparr>sp_conns := (sp_conns sp)(c \<mapsto> cn')\<rparr>)"
    using socket_read.hyps(4) by (auto simp: sp_socket_read_def split: option.splits Option.bind_splits)
  then show ?case using socket_read.prems klipper_ok_read [OF socket_read.prems(1)]
    by (elim disjE exE conjE) (simp, rule klippers_ok_frame [of A sp], auto split: if_splits)
next
  case (mcu_response sp c)
  then show ?case using sp_mcu_response_klippers by blast
next
  case (klipper_write sp c out)
  show ?case by (rule klippers_ok_frame [OF klipper_write.prems(2)])
    (auto simp: sp_klipper_write_def klipper_ok_write split: option.splits if_splits)
next
  case (forward sp c)
  have "\<exists>cn. sp_conns sp d = Some cn \<and> (\<forall>e ps. sp_dicts sp d = Some e \<longrightarrow> klipper_ok A e ps cn \<longrightarrow> klipper_ok A e ps cn')"
    if "sp_conns (sp_forward c sp) d = Some cn'" for d cn'
    using that klipper_ok_same by (fastforce simp: sp_forward_def smart_forward_def split: option.splits if_splits list.splits prod.splits)
  then show ?case by (intro klippers_ok_frame [OF forward.prems(2)]) (auto simp: sp_forward_def split: option.split prod.split)
next
  case (old_write sp c k out)
  then show ?case by (simp add: klippers_ok_def sp_old_write_def)
next
  case (old_forward sp c k)
  then show ?case by (auto simp: klippers_ok_def sp_old_forward_def split: prod.split)
qed (simp_all add: klippers_ok_def sp_usb_write_def)

interpretation smart_klippers: inductive_invariant
  "\<lambda>sp. anchor_ok A \<and> sp = smart_proxy_new ids" "smart_step A" "\<lambda>sp. anchor_ok A \<and> klippers_ok A sp"
  for A :: "'tr anchor" and ids
proof unfold_locales
  show "anchor_ok A \<and> klippers_ok A sp" if "anchor_ok A \<and> sp = smart_proxy_new ids" for sp :: "'tr smart_proxy"
    using that by (simp add: klippers_ok_def smart_proxy_new_def)
qed (auto intro: smart_step_klippers)

lemma smart_reaches_klippers: "smart_reaches A ids sp \<Longrightarrow> anchor_ok A \<Longrightarrow> klippers_ok A sp"
  using smart_klippers.reaches_holds [of A "smart_proxy_new ids" sp ids] by simp

text \<open>C36: the smart host in every state it can reach, for any clients, any input and any interleaving of
  its tasks.  No task panics.  The dictionary that a channel serves is one that the exporter has
  published on the control channel for that channel.  A connection exists only on a configured
  channel, and it has been given exactly the payloads of its own channel that the main loop has decoded since it was
  accepted, in order, with those it has not framed for Klipper yet in its queue.  All frames to the exporter carry the
  id of a configured channel, and what has been written to the link is a prefix of their
  encodings.\<close>

theorem smart_host_safe:
  assumes "smart_reaches A ids sp" "anchor_ok A" "CTRL_CH \<notin> set ids"
  shows "(\<exists>sp'. sp_usb_next sp = Some sp') \<and> (\<forall>c bs. \<exists>sp'. sp_socket_read A c bs sp = Some sp')
    \<and> (\<forall>c d. sp_dicts sp c = Some d \<longrightarrow>
         (\<exists>n. ga_watch (fold gather_dictionary (take n (payloads_of CTRL_CH (rd_items (sp_link sp)))) (gatherer_new ids)) c
              = Some (Some d)))
    \<and> (\<forall>c. sp_conns sp c \<noteq> None \<longrightarrow> c \<in> set ids \<and> sp_dicts sp c \<noteq> None
         \<and> (\<exists>w answered. sh_slots (sp_host sp) c = Some (Some w)
              \<and> wr_sent w = payloads_of c (drop (sp_since sp c) (rd_items (sp_link sp))) \<and> wr_sent w = answered @ wr_queue w))
    \<and> pf_ch_id ` set (wr_sent (sp_usb sp)) \<subseteq> set ids
    \<and> prefix (wr_out (sp_usb sp)) (concat (map payload_bytes (wr_sent (sp_usb sp))))"
proof -
  note ok = smart_reaches_ok [OF assms]
  have slot: "c \<in> set ids \<and> (\<exists>w answered. sh_slots (sp_host sp) c = Some (Some w)
      \<and> wr_sent w = payloads_of c (drop (sp_since sp c) (rd_items (sp_link sp))) \<and> wr_sent w = answered @ wr_queue w)"
    if "sp_conns sp c \<noteq> None" for c
  proof -
    have "payload_slot_ok (c \<in> set ids) True (payloads_of c (drop (sp_since sp c) (rd_items (sp_link sp)))) (sh_slots (sp_host sp) c)"
      using smart_okD(3) [OF ok, of c] that by (simp add: since_accept_def)
    then obtain w where "sh_slots (sp_host sp) c = Some (Some w)" "c \<in> set ids"
      "wr_sent w = payloads_of c (drop (sp_since sp c) (rd_items (sp_link sp)))" "suffix (wr_queue w) (wr_sent w)"
      by (cases "sh_slots (sp_host sp) c"; cases "the (sh_slots (sp_host sp) c)") auto
    then show ?thesis by (metis suffixE)
  qed
  have "\<exists>sp'. sp_usb_next sp = Some sp'" using sp_usb_next_ok [OF ok assms(3)] by blast
  moreover have "\<exists>sp'. sp_socket_read A c bs sp = Some sp'" for c bs using sp_socket_read_ok [OF ok assms(2)] by blast
  moreover have "sp_dicts sp c \<noteq> None" if "sp_conns sp c \<noteq> None" for c using ok that by (simp add: smart_ok_def)
  moreover have "prefix (wr_out (sp_usb sp)) (concat (map payload_bytes (wr_sent (sp_usb sp))))"
    by (rule wr_ok_prefix [OF smart_okD(4) [OF ok]])
  ultimately show ?thesis using ok slot by (simp add: smart_ok_def published_def)
qed



text \<open>C35: what a connection of Klipper is sent, in every state the host can reach.  Each \<open>identify\<close> request that was
  decoded on the connection, in whichever reads of the socket and among whatever other commands, is answered in
  order with the offset asked for and the bytes of the channel's dictionary from there, as many as asked for or
  as there are; these answers, the payloads of the MCU that the connection has taken from its queue, both framed, and what the
  transport has written by itself while receiving are what goes to the socket, each of the three in order and
  interleaved in some way, and nothing else does.  All of it has
  been given to the task that writes while that task runs, and a prefix of it when it has failed.  In particular requests
  for \<open>n\<close> bytes at 0, \<open>n\<close>, \<open>2 n\<close> and so on get the dictionary back.\<close>

theorem identify_serves_dictionary:
  assumes "smart_reaches A ids sp" "anchor_ok A" "sp_conns sp c = Some cn"
  shows "\<exists>dict w answered items. sp_dicts sp c = Some dict
    \<and> sh_slots (sp_host sp) c = Some (Some w) \<and> wr_sent w = answered @ wr_queue w
    \<and> prefix (wr_sent (sm_to_klipper cn)) (sent_items items)
    \<and> (wr_alive (sm_to_klipper cn) \<longrightarrow> wr_sent (sm_to_klipper cn) = sent_items items)
    \<and> list_all2 (framed A) (answers A dict (sm_decoded cn)) (of_kind Answer items)
    \<and> list_all2 (framed A) answered (of_kind Mcu_Payload items)
    \<and> of_kind Own items = sm_own cn
    \<and> (\<forall>k n. List.map_filter (identify_request A) (sm_decoded cn) = map (\<lambda>i. (of_nat (i * unat n), n)) [0..<k]
          \<and> k * unat n < 2 ^ 32 \<longrightarrow>
        (\<exists>cs. answers A dict (sm_decoded cn) = map (\<lambda>i. response A (of_nat (i * unat n)) (cs ! i)) [0..<k]
          \<and> concat cs = take (k * unat n) dict))"
proof -
  obtain dict w answered where k: "sp_dicts sp c = Some dict" "sh_slots (sp_host sp) c = Some (Some w)"
    "wr_sent w = answered @ wr_queue w" "klipper_ok A dict answered cn"
    by (rule klippers_okD [OF smart_reaches_klippers [OF assms(1,2)] assms(3)])
  then obtain items where "gives (sm_to_klipper cn) items"
    "list_all2 (framed A) (answers A dict (sm_decoded cn)) (of_kind Answer items)"
    "list_all2 (framed A) answered (of_kind Mcu_Payload items)" "of_kind Own items = sm_own cn" unfolding klipper_ok_def by blast
  then show ?thesis using k(1-3) answers_dictionary [of A "sm_decoded cn"] unfolding gives_def
    by (intro exI [of _ dict] exI [of _ w] exI [of _ answered] exI [of _ items] conjI) blast+
qed


section \<open>A run\<close>

lemma example_receive_calls:
  "\<exists>cmds outs tr' rest. \<forall>ctx. example_receive (dispatch_raw A dict) tr buf ctx
     = map_option (\<lambda>ctx. (outs, tr', rest, ctx)) (dispatch_calls A dict cmds ctx)"
proof (induction buf rule: length_induct)
  case (1 buf)
  show ?case
  proof (cases "\<exists>a b c rest. buf = a # b # c # rest")
    case True
    then obtain a b c rest where buf: "buf = a # b # c # rest" by blast
    from 1 [rule_format, of rest] obtain cmds outs tr' r where
      "\<forall>ctx. example_receive (dispatch_raw A dict) tr rest ctx = map_option (\<lambda>ctx. (outs, tr', r, ctx)) (dispatch_calls A dict cmds ctx)"
      unfolding buf by auto
    then show ?thesis unfolding buf
      by (intro exI [of _ "[a, b, c] # cmds"] exI [of _ outs] exI [of _ tr'] exI [of _ r])
         (auto split: Option.bind_splits)
  next
    case False
    then have "example_receive d tr buf ctx = Some ([[0x7E]], tr, buf, ctx)" for d ctx
      by (cases buf rule: remdups_adj.cases; cases "tl (tl buf)") auto
    then show ?thesis by (intro exI [of _ "[]"] exI) simp
  qed
qed

lemma example_anchor_ok: "anchor_ok example_anchor"
proof -
  have "an_receive example_anchor = example_receive" by (simp add: example_anchor_def)
  then show ?thesis unfolding anchor_ok_def receives_def using example_receive_calls by metis
qed

text \<open>The exporter sends the dictionary of channel 0, then Klipper connects.\<close>

abbreviation example_wire :: bytes where
  "example_wire \<equiv> [0xFF, 3, 1, 0, 0x61, 0xFF, 2, 2, 0]"

abbreviation example_frames :: "payload_frame list" where
  "example_frames \<equiv> [\<lparr>pf_ch_id = 0xFF, pf_payload = [1, 0, 0x61]\<rparr>, \<lparr>pf_ch_id = 0xFF, pf_payload = [2, 0]\<rparr>]"

abbreviation example_read :: "bytes \<Rightarrow> payload_frame list \<Rightarrow> (unit, u8, payload_frame) reader" where
  "example_read buf items \<equiv> \<lparr>rd_state = (), rd_buf = buf, rd_alive = True, rd_read = example_wire, rd_items = items\<rparr>"

lemma example_reads:
  "rd_next (stateless payload_decode) (example_read example_wire []) =
     Some (Some (example_frames ! 0), example_read [0xFF, 2, 2, 0] [example_frames ! 0])"
  "rd_next (stateless payload_decode) (example_read [0xFF, 2, 2, 0] [example_frames ! 0]) =
     Some (Some (example_frames ! 1), example_read [] example_frames)"
  by (simp_all add: rd_next_def stateless_def payload_decode_def idx_def advance_def split_to_def)

lemma smart_reaches_step:
  "smart_reaches A ids (smart_proxy_new ids)" "smart_reaches A ids sp \<Longrightarrow> smart_step A sp sp' \<Longrightarrow> smart_reaches A ids sp'"
  by (auto intro: rtranclp.rtrancl_into_rtrancl)

lemma example_run:
  obtains sp where "smart_reaches example_anchor [0] sp" "sp_dicts sp 0 = Some [0x61]"
    "sp_conns sp 0 = Some (smart_conn_new example_anchor)" "sp_usb sp = wr_new"
    "sp_link sp = example_read [] example_frames" "sh_ctrl (sp_host sp) = []" "sp_ended sp 0 = []"
proof -
  let ?h = "\<lambda>ctrl w. \<lparr>sh_ctrl = ctrl, sh_slots = [0 \<mapsto> w]\<rparr> :: smart_host"
  let ?g = "\<lambda>d w. \<lparr>ga_dicts = d, ga_watch = [0 \<mapsto> w]\<rparr> :: gatherer"
  let ?S = "\<lambda>link h g dicts conns. \<lparr>sp_usb = wr_new, sp_link = link, sp_host = h, sp_gatherer = g,
      sp_dicts = dicts, sp_conns = conns, sp_ended = \<lambda>c. [], sp_since = \<lambda>c. 0\<rparr> :: nat smart_proxy"
  let ?r0 = "example_read example_wire []" and ?r1 = "example_read [0xFF, 2, 2, 0] [example_frames ! 0]"
    and ?r2 = "example_read [] example_frames"
  have new: "smart_proxy_new [0] = ?S (rd_new ()) (?h [] None) (?g Map.empty None) Map.empty Map.empty"
    by (auto simp: smart_proxy_new_def gatherer_new_def)
  have alive: "rd_alive (rd_new ())" "rd_alive ?r0" "rd_alive ?r1" "rd_alive ?r2" by (simp_all add: rd_new_def)
  have "smart_step example_anchor (smart_proxy_new [0]) (?S ?r0 (?h [] None) (?g Map.empty None) Map.empty Map.empty)"
    using smart_step.usb_data [of "smart_proxy_new [0] :: nat smart_proxy" _ example_wire] alive(1)
    unfolding new by (simp add: rd_data_def rd_new_def)
  then have "smart_reaches example_anchor [0] (?S ?r0 (?h [] None) (?g Map.empty None) Map.empty Map.empty)"
    by (rule smart_reaches_step(2) [OF smart_reaches_step(1)])
  moreover have "sp_usb_next (?S ?r0 (?h [] None) (?g Map.empty None) Map.empty Map.empty)
      = Some (?S ?r1 (?h [[1, 0, 0x61]] None) (?g Map.empty None) Map.empty Map.empty)"
    using example_reads(1) by (simp add: sp_usb_next_def smart_host_route_def CTRL_CH_def)
  ultimately have "smart_reaches example_anchor [0] (?S ?r1 (?h [[1, 0, 0x61]] None) (?g Map.empty None) Map.empty Map.empty)"
    by (rule smart_reaches_step(2) [OF _ smart_step.usb_next [rotated]]) simp
  moreover have "sp_usb_next (?S ?r1 (?h [[1, 0, 0x61]] None) (?g Map.empty None) Map.empty Map.empty)
      = Some (?S ?r2 (?h [[1, 0, 0x61], [2, 0]] None) (?g Map.empty None) Map.empty Map.empty)"
    using example_reads(2) by (simp add: sp_usb_next_def smart_host_route_def CTRL_CH_def)
  ultimately have "smart_reaches example_anchor [0] (?S ?r2 (?h [[1, 0, 0x61], [2, 0]] None) (?g Map.empty None) Map.empty Map.empty)"
    by (rule smart_reaches_step(2) [OF _ smart_step.usb_next [rotated]]) simp
  then have "smart_reaches example_anchor [0] (sp_accept example_anchor 0 (sp_ready 0 (sp_gather (sp_gather
      (?S ?r2 (?h [[1, 0, 0x61], [2, 0]] None) (?g Map.empty None) Map.empty Map.empty)))))"
    by (intro smart_reaches_step(2) [OF _ smart_step.accept] smart_reaches_step(2) [OF _ smart_step.ready]
        smart_reaches_step(2) [OF _ smart_step.gather])
       (simp_all add: sp_gather_def sp_ready_def split: option.split list.split)
  then show thesis
    by (rule that) (simp_all add: sp_gather_def sp_ready_def sp_accept_def set_payload_slot_def gather_dictionary_def Let_def
        unwrap_or_default_def CTRL_DICT_FRAG_def CTRL_DICT_DONE_def)
qed

theorem smart_host_safe_witness:
  "\<exists>sp. smart_reaches example_anchor [0] sp \<and> sp_dicts sp 0 = Some [0x61] \<and> sp_conns sp 0 \<noteq> None
     \<and> (\<exists>sp'. sp_socket_read example_anchor 0 [9, 8, 7] sp = Some sp')
     \<and> (\<exists>w answered. sh_slots (sp_host sp) 0 = Some (Some w)
          \<and> wr_sent w = payloads_of 0 (drop (sp_since sp 0) (rd_items (sp_link sp))) \<and> wr_sent w = answered @ wr_queue w)"
proof -
  obtain sp where sp: "smart_reaches example_anchor [0] sp" "sp_dicts sp 0 = Some [0x61]" "sp_conns sp 0 \<noteq> None"
    by (rule example_run) blast
  have "CTRL_CH \<notin> set [0]" by (simp add: CTRL_CH_def)
  note safe = smart_host_safe [OF sp(1) example_anchor_ok this]
  have "\<exists>sp'. sp_socket_read example_anchor 0 [9, 8, 7] sp = Some sp'" using safe by (elim conjE) (erule allE)+
  moreover have "\<exists>w answered. sh_slots (sp_host sp) 0 = Some (Some w)
      \<and> wr_sent w = payloads_of 0 (drop (sp_since sp 0) (rd_items (sp_link sp))) \<and> wr_sent w = answered @ wr_queue w"
    using safe sp(3) by (elim conjE) simp
  ultimately show ?thesis using sp by (intro exI [of _ sp]) simp
qed

text \<open>A request that arrives in two reads, and a command for the MCU after it.\<close>

lemma example_identify:
  obtains sp cn where "smart_reaches example_anchor [0] sp" "sp_dicts sp 0 = Some [0x61]" "sp_conns sp 0 = Some cn"
    "sm_decoded cn = [[1, 0, 1], [9, 8, 7]]" "sm_to_exporter cn = [[9, 8, 7]]" "sp_usb sp = wr_new" "sp_ended sp 0 = []"
    "rd_alive (sp_link sp)"
proof -
  obtain sp where sp: "smart_reaches example_anchor [0] sp" "sp_dicts sp 0 = Some [0x61]"
    "sp_conns sp 0 = Some (smart_conn_new example_anchor)" "sp_usb sp = wr_new" "rd_alive (sp_link sp)" "sp_ended sp 0 = []"
    by (rule example_run) simp
  have rcv: "an_receive example_anchor = example_receive" by (simp add: example_anchor_def)
  have raw: "dispatch_raw example_anchor [0x61] [1, 0, 1] ctx = Some (True, [], after_calls example_anchor [0x61] [[1, 0, 1]] ctx)"
    "dispatch_raw example_anchor [0x61] [9, 8, 7] ctx = Some (True, [], after_calls example_anchor [0x61] [[9, 8, 7]] ctx)" for ctx
    by (simp_all add: dispatch_raw_def dispatch_def example_anchor_def CMD_IDENTIFY_def after_calls_def forwarded_def answers_def
        identify_request_def response_def map_filter_def slice_def Let_def)
  have fwd: "\<not> forwarded example_anchor [1, 0, 1]" "forwarded example_anchor [9, 8, 7]"
    by (simp_all add: forwarded_def example_anchor_def CMD_IDENTIFY_def)
  let ?cn = "smart_conn_new example_anchor"
  obtain cn1 where cn1: "smart_socket_read example_anchor [0x61] [1, 0] ?cn = Some cn1" "sm_input_buf cn1 = [1, 0]"
    "sm_decoded cn1 = []" "sm_to_exporter cn1 = []"
    by (simp add: smart_socket_read_def smart_conn_new_def rcv)
  obtain cn2 where cn2: "smart_socket_read example_anchor [0x61] [1, 9, 8, 7] cn1 = Some cn2"
    "sm_decoded cn2 = [[1, 0, 1], [9, 8, 7]]" "sm_to_exporter cn2 = [[9, 8, 7]]"
    using cn1(2-4) fwd
    by (cases "encode_responses example_anchor (answers example_anchor [0x61] [[1, 0, 1]] @ answers example_anchor [0x61] [[9, 8, 7]])
        (sm_transport cn1) (channel_output [0x7E] (sm_to_klipper cn1))")
      (auto simp: smart_socket_read_def rcv raw after_calls_def)
  let ?sp1 = "sp\<lparr>sp_conns := (sp_conns sp)(0 \<mapsto> cn1)\<rparr>"
  let ?sp2 = "?sp1\<lparr>sp_conns := (sp_conns ?sp1)(0 \<mapsto> cn2)\<rparr>"
  have "sp_socket_read example_anchor 0 [1, 0] sp = Some ?sp1" using sp cn1 by (simp add: sp_socket_read_def)
  then have 1: "smart_reaches example_anchor [0] ?sp1"
    by (intro smart_reaches_step(2) [OF sp(1) smart_step.socket_read [OF sp(5), of "[1, 0]"]]) (simp_all add: READ_BUF_def)
  have "sp_socket_read example_anchor 0 [1, 9, 8, 7] ?sp1 = Some ?sp2" using sp cn2 by (simp add: sp_socket_read_def)
  then have "smart_reaches example_anchor [0] ?sp2"
    by (intro smart_reaches_step(2) [OF 1 smart_step.socket_read [of ?sp1 "[1, 9, 8, 7]"]]) (simp_all add: READ_BUF_def sp(5))
  then show thesis by (rule that) (use sp cn2 in simp_all)
qed

theorem identify_serves_dictionary_witness:
  "\<exists>sp cn items. smart_reaches example_anchor [0] sp \<and> sp_conns sp 0 = Some cn \<and> sm_decoded cn = [[1, 0, 1], [9, 8, 7]]
     \<and> prefix (wr_sent (sm_to_klipper cn)) (sent_items items)
     \<and> list_all2 (framed example_anchor) [response example_anchor 0 [0x61]] (of_kind Answer items)"
proof -
  obtain sp cn where sp: "smart_reaches example_anchor [0] sp" "sp_dicts sp 0 = Some [0x61]" "sp_conns sp 0 = Some cn"
    "sm_decoded cn = [[1, 0, 1], [9, 8, 7]]" by (rule example_identify)
  have a: "answers example_anchor [0x61] [[1, 0, 1], [9, 8, 7]] = [response example_anchor 0 [0x61]]"
    by (simp add: answers_def identify_request_def map_filter_def example_anchor_def CMD_IDENTIFY_def)
  from identify_serves_dictionary [OF sp(1) example_anchor_ok sp(3)] obtain items where
    "prefix (wr_sent (sm_to_klipper cn)) (sent_items items)"
    "list_all2 (framed example_anchor) (answers example_anchor [0x61] (sm_decoded cn)) (of_kind Answer items)"
    unfolding sp(2) by blast
  then show ?thesis using sp(1,3,4) a by auto
qed

end
