(* ===== verification/Smart_Exporter.thy ===== *)
theory Smart_Exporter
  imports Smart_Inv
begin

text \<open>
  The smart exporter (\<^verbatim>\<open>windlass/smart_exporter.rs\<close>) as a system of tasks, and its invariant.  The ports
  are opened one after the other; the two tasks of a channel run as soon as its dictionary has been sent,
  the USB writer and the main loop only when all ports are open.  The ids of the channels are
  distinct, which the command line checks, so an id stands for the tasks of one channel.
\<close>


section \<open>The system\<close>

text \<open>The task from an MCU to the USB writer.  \<open>mr_recv\<close> is a history: the payloads that the transport of the
  MCU has delivered to the task.\<close>

record mcu_reader =
  mr_alive :: bool
  mr_recv :: "bytes list"

text \<open>\<open>sx_todo\<close>: the channels whose ports are not open yet, with the dictionaries of their MCUs.\<close>

record smart_exporter =
  sx_todo :: "(u8 \<times> bytes) list"
  sx_usb :: "payload_frame writer"
  sx_link :: "(unit, u8, payload_frame) reader"
  sx_cmds :: "u8 \<Rightarrow> bytes writer option"
  sx_readers :: "u8 \<Rightarrow> mcu_reader option"

definition smart_exporter_new :: "(u8 \<times> bytes) list \<Rightarrow> smart_exporter" where
  "smart_exporter_new cds = \<lparr>sx_todo = cds, sx_usb = wr_new, sx_link = rd_new (),
     sx_cmds = (\<lambda>c. None), sx_readers = (\<lambda>c. None)\<rparr>"

text \<open>The end of the function, and with it of the process.\<close>

definition sx_exit :: "smart_exporter \<Rightarrow> smart_exporter" where
  "sx_exit x = x\<lparr>sx_link := rd_end (sx_link x)\<rparr>"

text \<open>One turn of the loop over the channels, when the port could be opened and the dictionary was fetched.\<close>

definition sx_open :: "smart_exporter \<Rightarrow> smart_exporter" where
  "sx_open x =
     (case sx_todo x of
        [] \<Rightarrow> x
      | (ch_id, dictionary) # chs \<Rightarrow>
          (case send_dictionary ch_id dictionary (sx_usb x) of
             (False, usb) \<Rightarrow> sx_exit (x\<lparr>sx_usb := usb\<rparr>)
           | (True, usb) \<Rightarrow>
               x\<lparr>sx_todo := chs, sx_usb := usb, sx_cmds := (sx_cmds x)(ch_id \<mapsto> wr_new),
                 sx_readers := (sx_readers x)(ch_id \<mapsto> \<lparr>mr_alive = True, mr_recv = []\<rparr>)\<rparr>))"

text \<open>Task: MCU to USB.  \<open>None\<close> is the end of the transport or an error of it.\<close>

definition sx_mcu_recv :: "u8 \<Rightarrow> bytes option \<Rightarrow> smart_exporter \<Rightarrow> smart_exporter" where
  "sx_mcu_recv c payload x =
     (case sx_readers x c of
        None \<Rightarrow> x
      | Some m \<Rightarrow>
          if \<not> mr_alive m then x
          else (case payload of
                  None \<Rightarrow> x\<lparr>sx_readers := (sx_readers x)(c \<mapsto> m\<lparr>mr_alive := False\<rparr>)\<rparr>
                | Some p \<Rightarrow>
                    (case smart_mcu_payload c p (sx_usb x) of
                       (ok, usb) \<Rightarrow>
                         x\<lparr>sx_usb := usb, sx_readers := (sx_readers x)(c \<mapsto> \<lparr>mr_alive = ok, mr_recv = mr_recv m @ [p]\<rparr>)\<rparr>)))"

text \<open>Task: USB to MCU.\<close>

definition sx_mcu_send :: "u8 \<Rightarrow> bool \<Rightarrow> smart_exporter \<Rightarrow> smart_exporter" where
  "sx_mcu_send c failed x =
     (case sx_cmds x c of
        None \<Rightarrow> x
      | Some w \<Rightarrow> x\<lparr>sx_cmds := (sx_cmds x)(c \<mapsto> smart_mcu_send failed w)\<rparr>)"

text \<open>Task: USB writer, and the main loop.\<close>

definition sx_usb_write :: "write_all_result \<Rightarrow> smart_exporter \<Rightarrow> smart_exporter" where
  "sx_usb_write out x = x\<lparr>sx_usb := wr_step payload_encode out (sx_usb x)\<rparr>"

definition sx_usb_next :: "smart_exporter \<Rightarrow> smart_exporter option" where
  "sx_usb_next x = do {
     (f, link) \<leftarrow> rd_next (stateless payload_decode) (sx_link x);
     let x = x\<lparr>sx_link := link\<rparr>;
     Some (case f of Some pf \<Rightarrow> x\<lparr>sx_cmds := smart_exporter_route pf (sx_cmds x)\<rparr> | None \<Rightarrow> x)
   }"

inductive smart_exporter_step :: "smart_exporter \<Rightarrow> smart_exporter \<Rightarrow> bool" where
  open_channel: "rd_alive (sx_link x) \<Longrightarrow> smart_exporter_step x (sx_open x)"
| mcu_recv: "rd_alive (sx_link x) \<Longrightarrow> smart_exporter_step x (sx_mcu_recv c payload x)"
| mcu_send: "rd_alive (sx_link x) \<Longrightarrow> smart_exporter_step x (sx_mcu_send c failed x)"
| usb_write: "rd_alive (sx_link x) \<Longrightarrow> sx_todo x = [] \<Longrightarrow> smart_exporter_step x (sx_usb_write out x)"
| usb_data: "rd_alive (sx_link x) \<Longrightarrow> sx_todo x = [] \<Longrightarrow>
     smart_exporter_step x (x\<lparr>sx_link := rd_data bs (sx_link x)\<rparr>)"
| usb_next: "rd_alive (sx_link x) \<Longrightarrow> sx_todo x = [] \<Longrightarrow> sx_usb_next x = Some y \<Longrightarrow> smart_exporter_step x y"
| exits: "rd_alive (sx_link x) \<Longrightarrow> smart_exporter_step x (sx_exit x)"

abbreviation smart_exporter_reaches :: "(u8 \<times> bytes) list \<Rightarrow> smart_exporter \<Rightarrow> bool" where
  "smart_exporter_reaches cds \<equiv> smart_exporter_step\<^sup>*\<^sup>* (smart_exporter_new cds)"


section \<open>The invariant\<close>

text \<open>The transport of an MCU was given whole commands, the first of those routed to it.\<close>

definition sends_whole :: "bytes writer \<Rightarrow> bool" where
  "sends_whole w \<longleftrightarrow> (\<exists>took. prefix took (wr_sent w) \<and> wr_out w = concat took
     \<and> (wr_alive w \<longrightarrow> wr_sent w = took @ wr_queue w))"

lemma sends_whole_new: "sends_whole wr_new"
  by (simp add: sends_whole_def wr_new_def)

lemma sends_whole_send: "sends_whole w \<Longrightarrow> sends_whole (snd (wr_send p w))"
  by (auto simp: sends_whole_def wr_send_def intro: prefix_order.trans)

lemma sends_whole_step:
  assumes "sends_whole w"
  shows "sends_whole (smart_mcu_send failed w)"
proof -
  from assms obtain took where t: "prefix took (wr_sent w)" "wr_out w = concat took"
    "wr_alive w \<longrightarrow> wr_sent w = took @ wr_queue w" unfolding sends_whole_def by blast
  show ?thesis
  proof (cases "wr_alive w \<and> wr_queue w \<noteq> [] \<and> \<not> failed")
    case True
    then obtain p ps where "wr_queue w = p # ps" by (cases "wr_queue w") auto
    then show ?thesis using t True
      by (auto simp: sends_whole_def smart_mcu_send_def wr_step_def encode_raw_def intro!: exI [of _ "took @ [p]"])
  next
    case False
    then show ?thesis using t
      by (auto simp: sends_whole_def smart_mcu_send_def wr_step_def encode_raw_def intro!: exI [of _ took] split: list.split)
  qed
qed

text \<open>What is routed to a task is a prefix of what arrives, all of it while the task runs.\<close>

definition cmds_ok :: "bytes list \<Rightarrow> bytes writer \<Rightarrow> bool" where
  "cmds_ok got w \<longleftrightarrow> sends_whole w \<and> prefix (wr_sent w) got \<and> (wr_alive w \<longrightarrow> wr_sent w = got)"

definition mcu_ok :: "bytes list \<Rightarrow> mcu_reader \<Rightarrow> bool" where
  "mcu_ok sent m \<longleftrightarrow> prefix sent (mr_recv m) \<and> (mr_alive m \<longrightarrow> sent = mr_recv m)"

definition readers_ok :: "(u8 \<Rightarrow> mcu_reader option) \<Rightarrow> payload_frame list \<Rightarrow> bool" where
  "readers_ok readers sent \<longleftrightarrow> (\<forall>c. c \<noteq> CTRL_CH \<longrightarrow>
     (case readers c of None \<Rightarrow> payloads_of c sent = [] | Some m \<Rightarrow> mcu_ok (payloads_of c sent) m))"

text \<open>The channels that are open are the first ones.  The control frames are their dictionaries, one after
  the other.\<close>

definition opened_ok :: "(u8 \<times> bytes) list \<Rightarrow> (u8 \<times> bytes) list \<Rightarrow> u8 set \<Rightarrow> payload_frame list \<Rightarrow> bool" where
  "opened_ok cds todo ids sent \<longleftrightarrow> (\<exists>opened. cds = opened @ todo \<and> ids = fst ` set opened
     \<and> filter (\<lambda>f. pf_ch_id f = CTRL_CH) sent = concat (map (\<lambda>(c, d). dict_frames c d) opened))"

definition smart_exporter_ok :: "(u8 \<times> bytes) list \<Rightarrow> smart_exporter \<Rightarrow> bool" where
  "smart_exporter_ok cds x \<longleftrightarrow> wr_wrote short_payload payload_bytes (sx_usb x) \<and> rd_ok payload_micro () (sx_link x)
     \<and> (sx_todo x \<noteq> [] \<longrightarrow> wr_alive (sx_usb x) \<and> rd_items (sx_link x) = [])
     \<and> dom (sx_cmds x) = dom (sx_readers x) \<and> opened_ok cds (sx_todo x) (dom (sx_readers x)) (wr_sent (sx_usb x))
     \<and> (\<forall>c w. sx_cmds x c = Some w \<longrightarrow> cmds_ok (payloads_of c (rd_items (sx_link x))) w)
     \<and> readers_ok (sx_readers x) (wr_sent (sx_usb x))"

lemma smart_exporter_new_ok: "smart_exporter_ok cds (smart_exporter_new cds)"
  using payload.rd_new_ok
  by (simp add: smart_exporter_ok_def smart_exporter_new_def rd_new_def opened_ok_def readers_ok_def)

text \<open>The dictionary of the next channel, and payloads of an open one.\<close>

lemma dict_frames_of [simp]:
  "c \<noteq> CTRL_CH \<Longrightarrow> payloads_of c (dict_frames c' d) = []"
  "filter (\<lambda>f. pf_ch_id f = CTRL_CH) (dict_frames c' d) = dict_frames c' d"
  using dict_frames_short [of _ c' d] by (auto simp: payloads_of_def filter_empty_conv intro: filter_True)

lemma tagged_of:
  "payloads_of c' (tagged c ps) = (if c' = c then ps else [])"
  "c \<noteq> CTRL_CH \<Longrightarrow> filter (\<lambda>f. pf_ch_id f = CTRL_CH) (tagged c ps) = []"
  by (induction ps) (auto simp: payloads_of_def)

lemma opened_ok_next: "opened_ok cds ((c, d) # chs) ids sent \<Longrightarrow> opened_ok cds chs (insert c ids) (sent @ dict_frames c d)"
  unfolding opened_ok_def by (elim exE, rename_tac opened, rule_tac x = "opened @ [(c, d)]" in exI) auto

lemma opened_ok_new: "opened_ok cds ((c, d) # chs) ids sent \<Longrightarrow> distinct (map fst cds) \<Longrightarrow> c \<notin> ids"
  unfolding opened_ok_def by (elim exE conjE) simp

lemma opened_ok_ids: "opened_ok cds todo ids sent \<Longrightarrow> ids \<subseteq> fst ` set cds"
  by (force simp: opened_ok_def)

lemma opened_ok_tagged: "c \<noteq> CTRL_CH \<Longrightarrow> opened_ok cds todo ids (sent @ tagged c ps) = opened_ok cds todo ids sent"
  by (simp add: opened_ok_def tagged_of)

lemma readers_ok_next:
  "readers_ok R sent \<Longrightarrow> R c = None \<Longrightarrow> readers_ok (R(c \<mapsto> \<lparr>mr_alive = True, mr_recv = []\<rparr>)) (sent @ dict_frames c d)"
  unfolding readers_ok_def by (auto simp: mcu_ok_def split: option.split)

lemma readers_ok_tagged:
  assumes "readers_ok R sent" "mcu_ok (payloads_of c sent @ ps) m"
  shows "readers_ok (R(c \<mapsto> m)) (sent @ tagged c ps)"
  using assms unfolding readers_ok_def by (metis (no_types, lifting) append_Nil2 fun_upd_apply option.simps(5) payloads_of_simps(2) tagged_of(1))

lemma sx_open_ok:
  assumes "smart_exporter_ok cds x" "distinct (map fst cds)"
  shows "smart_exporter_ok cds (sx_open x)"
proof (cases "sx_todo x")
  case Nil
  then show ?thesis using assms(1) by (simp add: sx_open_def)
next
  case (Cons cd chs)
  obtain c d where cd: "cd = (c, d)" by fastforce
  have alive: "wr_alive (sx_usb x)" "rd_items (sx_link x) = []" using assms(1) Cons by (simp_all add: smart_exporter_ok_def)
  obtain usb where u: "send_dictionary c d (sx_usb x) = (True, usb)" "wr_alive usb" "wr_sent usb = wr_sent (sx_usb x) @ dict_frames c d"
    using send_dictionary_alive [OF alive(1)] by blast
  have w: "wr_wrote short_payload payload_bytes usb"
    using send_dictionary_keeps [of short_payload payload_bytes "sx_usb x" c d] assms(1) u(1) by (simp add: smart_exporter_ok_def)
  have o: "opened_ok cds ((c, d) # chs) (dom (sx_readers x)) (wr_sent (sx_usb x))"
    using assms(1) Cons cd by (simp add: smart_exporter_ok_def)
  have "sx_readers x c = None" using opened_ok_new [OF o assms(2)] by auto
  then have "readers_ok ((sx_readers x)(c \<mapsto> \<lparr>mr_alive = True, mr_recv = []\<rparr>)) (wr_sent usb)"
    using assms(1) u(3) readers_ok_next by (simp add: smart_exporter_ok_def)
  moreover have "cmds_ok [] wr_new" by (simp add: cmds_ok_def sends_whole_new)
  ultimately show ?thesis using assms(1) u w alive(2) opened_ok_next [OF o] Cons cd
    by (simp add: sx_open_def smart_exporter_ok_def)
qed

lemma smart_exporter_okD:
  assumes "smart_exporter_ok cds x"
  shows "wr_wrote short_payload payload_bytes (sx_usb x)" "rd_ok payload_micro () (sx_link x)"
    "sx_cmds x c = Some w \<Longrightarrow> cmds_ok (payloads_of c (rd_items (sx_link x))) w"
    "sx_readers x c = Some m \<Longrightarrow> c \<noteq> CTRL_CH \<Longrightarrow> mcu_ok (payloads_of c (wr_sent (sx_usb x))) m"
    "sx_readers x c = Some m \<Longrightarrow> c \<in> fst ` set cds"
proof -
  have r: "readers_ok (sx_readers x) (wr_sent (sx_usb x))" using assms by (simp add: smart_exporter_ok_def)
  show "sx_readers x c = Some m \<Longrightarrow> c \<noteq> CTRL_CH \<Longrightarrow> mcu_ok (payloads_of c (wr_sent (sx_usb x))) m"
    using r by (auto simp: readers_ok_def dest: spec [of _ c])
  show "sx_readers x c = Some m \<Longrightarrow> c \<in> fst ` set cds"
    using assms opened_ok_ids by (fastforce simp: smart_exporter_ok_def)
qed (use assms in \<open>simp_all add: smart_exporter_ok_def\<close>)

lemma smart_exporter_ok_reader:
  assumes "smart_exporter_ok cds x" "sx_readers x c = Some m" "c \<noteq> CTRL_CH"
    and "wr_wrote short_payload payload_bytes usb" "sx_todo x \<noteq> [] \<Longrightarrow> wr_alive usb"
    and "wr_sent usb = wr_sent (sx_usb x) @ tagged c ps"
    and "mcu_ok (payloads_of c (wr_sent (sx_usb x)) @ ps) m'"
  shows "smart_exporter_ok cds (x\<lparr>sx_usb := usb, sx_readers := (sx_readers x)(c \<mapsto> m')\<rparr>)"
proof -
  have "insert c (dom (sx_readers x)) = dom (sx_readers x)" using assms(2) by auto
  then show ?thesis using assms readers_ok_tagged [of "sx_readers x" _ c ps m']
    by (simp add: smart_exporter_ok_def opened_ok_tagged)
qed

lemma sx_mcu_recv_ok:
  assumes "smart_exporter_ok cds x" "CTRL_CH \<notin> fst ` set cds"
  shows "smart_exporter_ok cds (sx_mcu_recv c payload x)"
proof (cases "\<exists>m. sx_readers x c = Some m \<and> mr_alive m")
  case False
  then show ?thesis using assms(1) by (auto simp: sx_mcu_recv_def split: option.split)
next
  case True
  then obtain m where m: "sx_readers x c = Some m" "mr_alive m" by blast
  then have c: "c \<noteq> CTRL_CH" using smart_exporter_okD(5) [OF assms(1)] assms(2) by auto
  have sent: "payloads_of c (wr_sent (sx_usb x)) = mr_recv m"
    using smart_exporter_okD(4) [OF assms(1) m(1) c] m(2) by (simp add: mcu_ok_def)
  note ok = smart_exporter_ok_reader [OF assms(1) m(1) c]
  have alive: "sx_todo x \<noteq> [] \<Longrightarrow> wr_alive (sx_usb x)" using assms(1) by (simp add: smart_exporter_ok_def)
  show ?thesis
  proof (cases payload)
    case None
    then show ?thesis using m ok [of "sx_usb x" "[]" "m\<lparr>mr_alive := False\<rparr>"] smart_exporter_okD(1) [OF assms(1)] alive sent
      by (simp add: sx_mcu_recv_def mcu_ok_def)
  next
    case (Some p)
    obtain good usb where s: "wr_send \<lparr>pf_ch_id = c, pf_payload = p\<rparr> (sx_usb x) = (good, usb)" by fastforce
    have "smart_exporter_ok cds (x\<lparr>sx_usb := usb, sx_readers := (sx_readers x)(c \<mapsto> \<lparr>mr_alive = good, mr_recv = mr_recv m @ [p]\<rparr>)\<rparr>)"
      by (rule ok [of _ "if good then [p] else []"])
         (use wr_send_ok [OF smart_exporter_okD(1) [OF assms(1)] s] s alive sent in \<open>auto simp: mcu_ok_def wr_send_def split: if_splits\<close>)
    then show ?thesis using m Some s by (simp add: sx_mcu_recv_def smart_mcu_payload_def)
  qed
qed

text \<open>A frame from the link.\<close>

lemma route_cmds_ok:
  assumes "\<forall>c w. cmds c = Some w \<longrightarrow> cmds_ok (payloads_of c items) w" "cmds CTRL_CH = None"
  shows "\<forall>c w. smart_exporter_route pf cmds c = Some w \<longrightarrow> cmds_ok (payloads_of c (items @ [pf])) w"
    "dom (smart_exporter_route pf cmds) = dom cmds"
proof -
  have "cmds_ok got w \<Longrightarrow> cmds_ok (got @ [p]) (snd (wr_send p w))" for got p w
    using sends_whole_send [of w p] by (auto simp: cmds_ok_def wr_send_def intro: prefix_order.trans)
  then show "\<forall>c w. smart_exporter_route pf cmds c = Some w \<longrightarrow> cmds_ok (payloads_of c (items @ [pf])) w"
    using assms by (auto simp: smart_exporter_route_def split: option.splits if_splits)
  show "dom (smart_exporter_route pf cmds) = dom cmds"
    by (auto simp: smart_exporter_route_def split: option.split)
qed

lemma sx_usb_next_ok:
  assumes "smart_exporter_ok cds x" "CTRL_CH \<notin> fst ` set cds" "sx_todo x = []"
  shows "\<exists>y. sx_usb_next x = Some y \<and> smart_exporter_ok cds y"
proof -
  obtain f link where n: "rd_next (stateless payload_decode) (sx_link x) = Some (f, link)" "rd_ok payload_micro () link"
    "rd_items link = rd_items (sx_link x) @ (case f of None \<Rightarrow> [] | Some g \<Rightarrow> [g])"
    using payload.rd_next_ok [OF smart_exporter_okD(2) [OF assms(1)]] by metis
  have "opened_ok cds (sx_todo x) (dom (sx_cmds x)) (wr_sent (sx_usb x))" using assms(1) by (simp add: smart_exporter_ok_def)
  then have "CTRL_CH \<notin> dom (sx_cmds x)" using assms(2) opened_ok_ids by blast
  then have ctrl: "sx_cmds x CTRL_CH = None" by auto
  have cmds: "\<forall>c w. sx_cmds x c = Some w \<longrightarrow> cmds_ok (payloads_of c (rd_items (sx_link x))) w"
    using assms(1) by (simp add: smart_exporter_ok_def)
  show ?thesis
  proof (cases f)
    case None
    then show ?thesis using assms n by (simp add: sx_usb_next_def smart_exporter_ok_def)
  next
    case (Some pf)
    then show ?thesis using assms(1,3) n route_cmds_ok [OF cmds ctrl, of pf] by (simp add: sx_usb_next_def smart_exporter_ok_def)
  qed
qed

lemma sx_mcu_send_ok:
  assumes "smart_exporter_ok cds x"
  shows "smart_exporter_ok cds (sx_mcu_send c failed x)"
proof (cases "sx_cmds x c")
  case None
  then show ?thesis using assms by (simp add: sx_mcu_send_def)
next
  case (Some w)
  have "wr_alive (smart_mcu_send failed w) \<Longrightarrow> wr_alive w" "wr_sent (smart_mcu_send failed w) = wr_sent w"
    using wr_step_raw(3) by (auto simp: smart_mcu_send_def)
  then have "cmds_ok (payloads_of c (rd_items (sx_link x))) (smart_mcu_send failed w)"
    using smart_exporter_okD(3) [OF assms Some] sends_whole_step by (auto simp: cmds_ok_def)
  moreover have "insert c (dom (sx_cmds x)) = dom (sx_cmds x)" using Some by auto
  ultimately show ?thesis using assms Some by (simp add: sx_mcu_send_def smart_exporter_ok_def)
qed

lemma smart_exporter_step_ok:
  "smart_exporter_step x y \<Longrightarrow> distinct (map fst cds) \<Longrightarrow> CTRL_CH \<notin> fst ` set cds \<Longrightarrow>
   smart_exporter_ok cds x \<Longrightarrow> smart_exporter_ok cds y"
proof (induction rule: smart_exporter_step.induct)
  case (usb_write x out)
  then show ?case by (simp add: smart_exporter_ok_def sx_usb_write_def wr_step_payload)
next
  case (usb_data x bs)
  then show ?case using payload.rd_data_ok by (auto simp: smart_exporter_ok_def)
next
  case (usb_next x y)
  then show ?case using sx_usb_next_ok [of cds x] by auto
next
  case (exits x)
  then show ?case by (simp add: smart_exporter_ok_def sx_exit_def)
qed (simp_all add: sx_open_ok sx_mcu_recv_ok sx_mcu_send_ok)

interpretation smart_exporter: inductive_invariant
  "\<lambda>x. distinct (map fst cds) \<and> CTRL_CH \<notin> fst ` set cds \<and> x = smart_exporter_new cds" smart_exporter_step
  "\<lambda>x. distinct (map fst cds) \<and> CTRL_CH \<notin> fst ` set cds \<and> smart_exporter_ok cds x"
  for cds
  by unfold_locales (auto intro: smart_exporter_new_ok smart_exporter_step_ok)

lemma smart_exporter_reaches_ok:
  assumes "smart_exporter_reaches cds x" "distinct (map fst cds)" "CTRL_CH \<notin> fst ` set cds"
  shows "smart_exporter_ok cds x"
  using smart_exporter.reaches_holds [OF assms(1)] assms(2,3) by blast

end
