(* ===== verification/Smart_Join.thy ===== *)
theory Smart_Join
  imports Smart_Exporter
begin

text \<open>
  The smart proxy from end to end: the invariants of the exporter and of the host joined at the link, for
  every interleaving of the tasks on both sides and any state of the transfer.
\<close>


section \<open>Dictionaries in a part of the stream\<close>

lemma gather_part:
  assumes "prefix qs (map pf_payload (dict_frames c d))" "ga_dicts g c = None" "ga_watch g c = Some v"
  shows "ga_watch (fold gather_dictionary qs g) c = Some v \<or> ga_watch (fold gather_dictionary qs g) c = Some (Some d)"
proof (cases "qs = map pf_payload (dict_frames c d)")
  case True
  then show ?thesis using gather_dict [of g c d] assms(2,3) by simp
next
  case False
  then have "prefix qs (map (\<lambda>p. pf_payload (dict_frag c p)) (chunks_of DICT_FRAG_MAX d))"
    using assms(1) by (auto simp: dict_frames_def comp_def)
  then obtain ps where "qs = map (\<lambda>p. pf_payload (dict_frag c p)) ps"
    by (auto simp: prefix_def map_eq_append_conv)
  then show ?thesis using gather_frags [of c ps g] assms(3) by simp
qed

lemma dict_payloads_about:
  "filter (about c) (map pf_payload (dict_frames c' d)) = (if c' = c then map pf_payload (dict_frames c' d) else [])"
  by (auto simp: dict_frames_def dict_frag_def dict_done_def about_def filter_empty_conv intro!: filter_True)

lemma dicts_about:
  "distinct (map fst cds) \<Longrightarrow>
   filter (about c) (map pf_payload (concat (map (\<lambda>(c, d). dict_frames c d) cds)))
     = (case map_of cds c of None \<Rightarrow> [] | Some d \<Rightarrow> map pf_payload (dict_frames c d))"
proof (induction cds)
  case (Cons cd cds)
  obtain c' d where cd: "cd = (c', d)" by fastforce
  have "map_of cds c' = None" using Cons.prems cd by (simp add: map_of_eq_None_iff)
  then show ?case using Cons cd by (auto simp: dict_payloads_about)
qed simp

lemma ctrl_payloads: "payloads_of CTRL_CH fs = map pf_payload (filter (\<lambda>f. pf_ch_id f = CTRL_CH) fs)"
  by (simp add: payloads_of_def)

lemma filter_prefix: "prefix xs ys \<Longrightarrow> prefix (filter P xs) (filter P ys)"
  by (auto simp: prefix_def)

text \<open>Whatever part of the dictionaries has arrived, one that is published is complete.\<close>

lemma published_dict:
  assumes "distinct (map fst cds)" "prefix ps (map pf_payload (concat (map (\<lambda>(c, d). dict_frames c d) cds)))"
    and "published ids ps c d"
  shows "(c, d) \<in> set cds"
proof -
  from assms(3) obtain n where n: "ga_watch (fold gather_dictionary (take n ps) (gatherer_new ids)) c = Some (Some d)"
    by (auto simp: published_def)
  have c: "ga_watch (gatherer_new ids) c = Some None" using published_id [OF assms(3)] by (simp add: gatherer_new_def)
  let ?qs = "filter (about c) (take n ps)"
  have watch: "ga_watch (fold gather_dictionary ?qs (gatherer_new ids)) c = Some (Some d)"
    using gather_filter [of c "gatherer_new ids" "gatherer_new ids" "take n ps"] n by (simp add: ga_at_def)
  have "prefix (take n ps) (map pf_payload (concat (map (\<lambda>(c, d). dict_frames c d) cds)))"
    using assms(2) take_is_prefix prefix_order.trans by blast
  from filter_prefix [OF this, of "about c"]
  have q: "prefix ?qs (case map_of cds c of None \<Rightarrow> [] | Some d \<Rightarrow> map pf_payload (dict_frames c d))"
    by (simp add: dicts_about [OF assms(1)])
  show ?thesis
  proof (cases "map_of cds c")
    case None
    then have "?qs = []" using q by simp
    then show ?thesis using watch c by simp
  next
    case (Some d')
    then have "prefix ?qs (map pf_payload (dict_frames c d'))" using q by simp
    from gather_part [OF this, of "gatherer_new ids"] watch c have "d' = d" by (simp add: gatherer_new_def)
    then show ?thesis using map_of_SomeD [OF Some] by simp
  qed
qed


section \<open>From the MCU to Klipper\<close>

lemma payloads_of_prefix: "prefix fs gs \<Longrightarrow> prefix (payloads_of c fs) (payloads_of c gs)"
  by (auto simp: prefix_def)

lemma exporter_ctrl:
  assumes "smart_exporter_ok cds x" "distinct (map fst cds)"
  obtains opened where "payloads_of CTRL_CH (wr_sent (sx_usb x)) = map pf_payload (concat (map (\<lambda>(c, d). dict_frames c d) opened))"
    "set opened \<subseteq> set cds" "distinct (map fst opened)" "sx_todo x = [] \<Longrightarrow> opened = cds" "dom (sx_readers x) = fst ` set opened"
proof -
  have "opened_ok cds (sx_todo x) (dom (sx_readers x)) (wr_sent (sx_usb x))" using assms(1) by (simp add: smart_exporter_ok_def)
  then obtain opened where "cds = opened @ sx_todo x" "dom (sx_readers x) = fst ` set opened"
    "filter (\<lambda>f. pf_ch_id f = CTRL_CH) (wr_sent (sx_usb x)) = concat (map (\<lambda>(c, d). dict_frames c d) opened)"
    unfolding opened_ok_def by blast
  then show thesis using assms(2) by (intro that [of opened]) (auto simp: ctrl_payloads)
qed

lemma smart_link_items:
  assumes "smart_exporter_ok cds x" "smart_ok ids sp" "prefix (rd_read (sp_link sp)) (wr_out (sx_usb x))"
  shows "prefix (rd_items (sp_link sp)) (wr_sent (sx_usb x))"
  by (rule payload.link_items [OF smart_exporter_okD(1) [OF assms(1)] _ assms(3)])
     (use assms(2) in \<open>simp add: smart_ok_def\<close>)

text \<open>A dictionary that the host serves is the one of the MCU, whose channel is open.\<close>

lemma served_dict:
  assumes x: "smart_exporter_ok cds x" "distinct (map fst cds)" and sp: "smart_ok ids sp"
    and "prefix (rd_read (sp_link sp)) (wr_out (sx_usb x))" "sp_dicts sp c = Some d"
  shows "(c, d) \<in> set cds" "\<exists>m. sx_readers x c = Some m"
proof -
  obtain opened where o: "payloads_of CTRL_CH (wr_sent (sx_usb x)) = map pf_payload (concat (map (\<lambda>(c, d). dict_frames c d) opened))"
    "set opened \<subseteq> set cds" "distinct (map fst opened)" "dom (sx_readers x) = fst ` set opened"
    by (rule exporter_ctrl [OF x])
  have ctrl: "prefix (payloads_of CTRL_CH (rd_items (sp_link sp))) (map pf_payload (concat (map (\<lambda>(c, d). dict_frames c d) opened)))"
    using payloads_of_prefix [OF smart_link_items [OF x(1) sp assms(4)], of CTRL_CH] o(1) by simp
  have "(c, d) \<in> set opened" by (rule published_dict [OF o(3) ctrl smart_okD(1) [OF sp assms(5)]])
  then show "(c, d) \<in> set cds" "\<exists>m. sx_readers x c = Some m" using o(2,4) by force+
qed

text \<open>C32: the smart proxy from the MCUs to Klipper.  In every reachable state of an exporter and of a host
  that has read a prefix of what the exporter wrote to the link: a dictionary that the host serves on a
  channel is exactly the one of that channel's MCU; and what a connection of Klipper has been given are
  consecutive payloads of that MCU, whole, unchanged and in order.\<close>

theorem smart_to_klipper:
  assumes "smart_exporter_reaches cds x" "distinct (map fst cds)" "CTRL_CH \<notin> fst ` set cds"
    and "smart_reaches A ids sp" "anchor_ok A" "CTRL_CH \<notin> set ids"
    and "prefix (rd_read (sp_link sp)) (wr_out (sx_usb x))"
  shows "(\<forall>c d. sp_dicts sp c = Some d \<longrightarrow> (c, d) \<in> set cds)
     \<and> (\<forall>c. sp_conns sp c \<noteq> None \<longrightarrow>
          (\<exists>m w old. sx_readers x c = Some m \<and> sh_slots (sp_host sp) c = Some (Some w)
             \<and> prefix (old @ wr_sent w) (mr_recv m)))"
proof -
  have x: "smart_exporter_ok cds x" by (rule smart_exporter_reaches_ok [OF assms(1-3)])
  have sp: "smart_ok ids sp" by (rule smart_reaches_ok [OF assms(4-6)])
  note items = smart_link_items [OF x sp assms(7)]
  note served = served_dict [OF x assms(2) sp assms(7)]
  have "\<exists>m w old. sx_readers x c = Some m \<and> sh_slots (sp_host sp) c = Some (Some w) \<and> prefix (old @ wr_sent w) (mr_recv m)"
    if cn: "sp_conns sp c \<noteq> None" for c
  proof -
    obtain d where d: "sp_dicts sp c = Some d" using smart_okD(2) [OF sp] cn by blast
    have slot: "payload_slot_ok (c \<in> set ids) True (since_accept c sp) (sh_slots (sp_host sp) c)"
      using smart_okD(3) [OF sp, of c] cn by simp
    then obtain w where w: "sh_slots (sp_host sp) c = Some (Some w)" "wr_sent w = since_accept c sp"
      by (cases "sh_slots (sp_host sp) c"; cases "the (sh_slots (sp_host sp) c)") auto
    have c: "c \<noteq> CTRL_CH" using smart_ok_id(1) [OF sp d] assms(6) by auto
    obtain m where m: "sx_readers x c = Some m" using served(2) [OF d] by blast
    let ?items = "rd_items (sp_link sp)"
    have "payloads_of c ?items = payloads_of c (take (sp_since sp c) ?items) @ wr_sent w"
      unfolding w(2) since_accept_def by (metis append_take_drop_id payloads_of_simps(2))
    then obtain old where "payloads_of c ?items = old @ wr_sent w" by blast
    moreover have "prefix (payloads_of c (wr_sent (sx_usb x))) (mr_recv m)"
      using smart_exporter_okD(4) [OF x m c] by (simp add: mcu_ok_def)
    ultimately have "prefix (old @ wr_sent w) (mr_recv m)"
      using payloads_of_prefix [OF items, of c] prefix_order.trans by metis
    then show ?thesis using m w(1) by blast
  qed
  then show ?thesis using served(1) by blast
qed

text \<open>C34: every dictionary arrives.  When the exporter has opened its channels and its writer has written
  everything, and the host has read, decoded and gathered everything, in whatever pieces and with whatever
  payloads between the fragments, the \<open>watch\<close> of each configured channel holds the dictionary of its
  MCU, so that the accept task of the channel can go on.\<close>

theorem smart_dictionaries_ready:
  assumes "smart_exporter_reaches cds x" "distinct (map fst cds)" "CTRL_CH \<notin> fst ` set cds"
    and "smart_reaches A ids sp" "anchor_ok A" "CTRL_CH \<notin> set ids"
    and "sx_todo x = []" "wr_alive (sx_usb x)" "wr_queue (sx_usb x) = []"
    and "rd_read (sp_link sp) = wr_out (sx_usb x)" "rd_buf (sp_link sp) = []" "sh_ctrl (sp_host sp) = []"
    and "(c, d) \<in> set cds" "c \<in> set ids"
  shows "ga_watch (sp_gatherer sp) c = Some (Some d) \<and> sp_dicts (sp_ready c sp) c = Some d"
proof -
  have x: "smart_exporter_ok cds x" by (rule smart_exporter_reaches_ok [OF assms(1-3)])
  have sp: "smart_ok ids sp" by (rule smart_reaches_ok [OF assms(4-6)])
  have rd: "rd_ok payload_micro () (sp_link sp)" using sp by (simp add: smart_ok_def)
  have "rd_items (sp_link sp) = wr_sent (sx_usb x)"
    using payload.link_complete [OF smart_exporter_okD(1) [OF x] assms(8,9) rd assms(10)] assms(11)
    by (simp add: payload.mparse_simps payload.micro_Nil)
  moreover obtain ps where ps: "ps @ sh_ctrl (sp_host sp) = payloads_of CTRL_CH (rd_items (sp_link sp))"
    "sp_gatherer sp = fold gather_dictionary ps (gatherer_new ids)"
    using sp unfolding smart_ok_def by blast
  moreover obtain opened where "payloads_of CTRL_CH (wr_sent (sx_usb x)) = map pf_payload (concat (map (\<lambda>(c, d). dict_frames c d) opened))"
    "opened = cds"
    by (rule exporter_ctrl [OF x assms(2)]) (use assms(7) in blast)
  ultimately have g: "sp_gatherer sp = fold gather_dictionary (map pf_payload (concat (map (\<lambda>(c, d). dict_frames c d) cds))) (gatherer_new ids)"
    using assms(12) by simp
  have "map_of cds c = Some d" using assms(2,13) by simp
  then have "ga_watch (sp_gatherer sp) c = Some (Some d)"
    using gather_filter [of c "gatherer_new ids" "gatherer_new ids" "map pf_payload (concat (map (\<lambda>(c, d). dict_frames c d) cds))"]
      gather_dict [of "gatherer_new ids" c d] assms(14)
    unfolding g dicts_about [OF assms(2)] by (simp add: ga_at_def gatherer_new_def)
  moreover have "d' = d" if "sp_dicts sp c = Some d'" for d'
    using served_dict(1) [OF x assms(2) sp _ that] assms(2,10,13) by (simp add: eq_key_imp_eq_value)
  ultimately show ?thesis by (auto simp: sp_ready_def split: option.split)
qed

section \<open>From Klipper to the MCU\<close>

text \<open>C33: the smart proxy from Klipper to the MCUs.  In every reachable state of a host and of an exporter
  that has read a prefix of what the host wrote to the link, the transport of an MCU has been given the first
  commands of an interleaving of what was sent for the connections of that channel, each command whole and
  unchanged; for each connection these are the first of the commands decoded on it that are not \<open>identify\<close>,
  in the order in which they were decoded.  The connections whose tasks were aborted are among them: such a
  task may go on while the next connection is served, which is why the commands of two connections may
  be interleaved.\<close>

theorem smart_to_mcu:
  assumes "smart_reaches A ids sp" "anchor_ok A" "CTRL_CH \<notin> set ids"
    and "smart_exporter_reaches cds x" "distinct (map fst cds)" "CTRL_CH \<notin> fst ` set cds"
    and "prefix (rd_read (sx_link x)) (wr_out (sp_usb sp))" "sx_cmds x c = Some w"
  shows "\<exists>fss all took.
      list_all2 (\<lambda>cn fs. prefix fs (filter (forwarded A) (sm_decoded cn))) (conns_of sp c) fss
      \<and> merged fss all \<and> prefix took all \<and> wr_out w = concat took"
proof -
  have x: "smart_exporter_ok cds x" by (rule smart_exporter_reaches_ok [OF assms(4-6)])
  have sp: "smart_ok ids sp" by (rule smart_reaches_ok [OF assms(1-3)])
  have "prefix (rd_items (sx_link x)) (wr_sent (sp_usb sp))"
    by (rule payload.link_items [OF smart_okD(4) [OF sp] smart_exporter_okD(2) [OF x] assms(7)])
  then have "prefix (payloads_of c (rd_items (sx_link x))) (payloads_of c (wr_sent (sp_usb sp)))"
    by (rule payloads_of_prefix)
  moreover obtain took where took: "prefix took (wr_sent w)" "wr_out w = concat took"
    "prefix (wr_sent w) (payloads_of c (rd_items (sx_link x)))"
    using smart_exporter_okD(3) [OF x assms(8)] unfolding cmds_ok_def sends_whole_def by blast
  ultimately have p: "prefix took (payloads_of c (wr_sent (sp_usb sp)))" by (meson prefix_order.trans)
  obtain fss where fss: "merged fss (payloads_of c (wr_sent (sp_usb sp)))"
    "list_all2 (conn_sent A (wr_alive (sp_usb sp))) (conns_of sp c) fss"
    using smart_reaches_commands [OF assms(1,2)] unfolding commands_ok_def by blast
  have "list_all2 (\<lambda>cn fs. prefix fs (filter (forwarded A) (sm_decoded cn))) (conns_of sp c) fss"
    by (rule list_all2_mono [OF fss(2)]) (simp add: conn_sent_def)
  with fss(1) p took(2) show ?thesis by blast
qed

section \<open>An example\<close>

text \<open>The exporter opens one channel and writes its dictionary; the host of the example run reads it and sends a
  command, which the exporter gives to the MCU.\<close>

abbreviation example_dicts :: "(u8 \<times> bytes) list" where
  "example_dicts \<equiv> [(0, [0x61])]"

lemma example_dict_frames: "dict_frames 0 [0x61] = example_frames"
  by (simp add: dict_frames_def DICT_FRAG_MAX_def chunks_of.simps dict_frag_def dict_done_def
      CTRL_DICT_FRAG_def CTRL_DICT_DONE_def CTRL_CH_def)

lemma smart_exporter_reaches_step:
  "smart_exporter_reaches cds (smart_exporter_new cds)"
  "smart_exporter_reaches cds x \<Longrightarrow> smart_exporter_step x y \<Longrightarrow> smart_exporter_reaches cds y"
  by (auto intro: rtranclp.rtrancl_into_rtrancl)

abbreviation example_open :: smart_exporter where
  "example_open \<equiv> \<lparr>sx_todo = [], sx_usb = \<lparr>wr_queue = example_frames, wr_alive = True, wr_out = [], wr_sent = example_frames\<rparr>,
     sx_link = rd_new (), sx_cmds = [0 \<mapsto> wr_new], sx_readers = [0 \<mapsto> \<lparr>mr_alive = True, mr_recv = []\<rparr>]\<rparr>"

lemma example_exporter_opens: "smart_exporter_reaches example_dicts example_open"
proof -
  let ?x = "smart_exporter_new example_dicts"
  have "send_dictionary 0 [0x61] wr_new =
      (True, \<lparr>wr_queue = example_frames, wr_alive = True, wr_out = [], wr_sent = example_frames\<rparr>)"
    using example_dict_frames by (simp add: send_dictionary_def send_frags_alive wr_send_def dict_frames_def wr_new_def)
  then have "sx_open ?x = example_open" by (simp add: sx_open_def smart_exporter_new_def)
  moreover have "rd_alive (sx_link ?x)" by (simp add: smart_exporter_new_def rd_new_def)
  ultimately show ?thesis
    using smart_exporter_reaches_step(2) [OF smart_exporter_reaches_step(1) smart_exporter_step.open_channel [of ?x]] by simp
qed

lemma example_exporter_writes:
  obtains x where "smart_exporter_reaches example_dicts x" "sx_todo x = []" "wr_alive (sx_usb x)" "wr_queue (sx_usb x) = []"
    "wr_out (sx_usb x) = example_wire"
proof -
  let ?w = "sx_usb_write WroteAll"
  have "smart_exporter_reaches example_dicts (?w (?w example_open))"
    by (intro smart_exporter_reaches_step(2) [OF _ smart_exporter_step.usb_write] example_exporter_opens)
       (simp_all add: sx_usb_write_def rd_new_def)
  then show thesis
    by (rule that) (simp_all add: sx_usb_write_def wr_step_def payload_encode_def)
qed

lemma example_distinct: "distinct (map fst example_dicts)" "CTRL_CH \<notin> fst ` set example_dicts" "CTRL_CH \<notin> set [0]"
  by (simp_all add: CTRL_CH_def)

theorem smart_to_klipper_witness:
  "\<exists>x sp m w old. smart_exporter_reaches example_dicts x \<and> smart_reaches example_anchor [0] sp
     \<and> rd_read (sp_link sp) = wr_out (sx_usb x) \<and> sp_dicts sp 0 = Some [0x61] \<and> (0, [0x61]) \<in> set example_dicts
     \<and> sx_readers x 0 = Some m \<and> sh_slots (sp_host sp) 0 = Some (Some w) \<and> prefix (old @ wr_sent w) (mr_recv m)"
proof -
  obtain x where x: "smart_exporter_reaches example_dicts x" "wr_out (sx_usb x) = example_wire"
    by (rule example_exporter_writes)
  obtain sp where sp: "smart_reaches example_anchor [0] sp" "sp_dicts sp 0 = Some [0x61]"
    "sp_conns sp 0 \<noteq> None" "rd_read (sp_link sp) = example_wire"
    by (rule example_run) simp
  have "prefix (rd_read (sp_link sp)) (wr_out (sx_usb x))" using x(2) sp(4) by simp
  note j = smart_to_klipper [OF x(1) example_distinct(1,2) sp(1) example_anchor_ok example_distinct(3) this]
  from conjunct2 [OF j, rule_format, OF sp(3)] obtain m w old where "sx_readers x 0 = Some m"
    "sh_slots (sp_host sp) 0 = Some (Some w)" "prefix (old @ wr_sent w) (mr_recv m)" by (elim exE conjE)
  moreover have "(0, [0x61]) \<in> set example_dicts" by (rule conjunct1 [OF j, rule_format, OF sp(2)])
  ultimately show ?thesis using x sp
    by (intro exI [of _ x] exI [of _ sp] exI [of _ m] exI [of _ w] exI [of _ old]) simp
qed

theorem smart_dictionaries_ready_witness:
  "\<exists>sp. smart_reaches example_anchor [0] sp \<and> ga_watch (sp_gatherer sp) 0 = Some (Some [0x61])"
proof -
  obtain x where x: "smart_exporter_reaches example_dicts x" "sx_todo x = []" "wr_alive (sx_usb x)" "wr_queue (sx_usb x) = []"
    "wr_out (sx_usb x) = example_wire"
    by (rule example_exporter_writes)
  obtain sp where sp: "smart_reaches example_anchor [0] sp" "rd_read (sp_link sp) = wr_out (sx_usb x)"
    "rd_buf (sp_link sp) = []" "sh_ctrl (sp_host sp) = []"
    by (rule example_run) (simp add: x(5))
  have "(0, [0x61]) \<in> set example_dicts" "0 \<in> set [0 :: u8]" by simp_all
  from smart_dictionaries_ready [OF x(1) example_distinct(1,2) sp(1) example_anchor_ok example_distinct(3) x(2-4) sp(2-4) this]
  show ?thesis using sp(1) by blast
qed

lemma example_host_sends:
  obtains sp cn where "smart_reaches example_anchor [0] sp" "wr_out (sp_usb sp) = [0, 3, 9, 8, 7]"
    "conns_of sp 0 = [cn]" "sm_decoded cn = [[1, 0, 1], [9, 8, 7]]"
proof -
  obtain sp cn where sp: "smart_reaches example_anchor [0] sp" "sp_conns sp 0 = Some cn" "sm_decoded cn = [[1, 0, 1], [9, 8, 7]]"
    "sm_to_exporter cn = [[9, 8, 7]]" "sp_usb sp = wr_new" "sp_ended sp 0 = []" "rd_alive (sp_link sp)"
    by (rule example_identify)
  let ?sp = "sp_usb_write WroteAll (sp_forward 0 sp)"
  have "smart_reaches example_anchor [0] ?sp"
    by (intro smart_reaches_step(2) [OF _ smart_step.usb_write] smart_reaches_step(2) [OF sp(1) smart_step.forward])
       (use sp(7) in \<open>simp_all add: sp_forward_def split: prod.split option.split\<close>)
  then show thesis
    by (rule that [of _ "cn\<lparr>sm_to_exporter := []\<rparr>"])
       (simp_all add: sp_usb_write_def sp_forward_def smart_forward_def sp wr_send_def wr_new_def
        wr_step_def payload_encode_def conns_of_def)
qed

lemma example_exporter_gives:
  obtains x w where "smart_exporter_reaches example_dicts x" "rd_read (sx_link x) = [0, 3, 9, 8, 7]"
    "sx_cmds x 0 = Some w" "wr_out w = [9, 8, 7]"
proof -
  let ?f = "\<lparr>pf_ch_id = 0, pf_payload = [9, 8, 7]\<rparr>"
  let ?r = "\<lambda>buf items. \<lparr>rd_state = (), rd_buf = buf, rd_alive = True, rd_read = [0, 3, 9, 8, 7], rd_items = items\<rparr>"
  let ?x1 = "example_open\<lparr>sx_link := ?r [0, 3, 9, 8, 7] []\<rparr>"
  let ?w = "wr_new\<lparr>wr_queue := [[9, 8, 7]], wr_sent := [[9, 8, 7]]\<rparr>"
  let ?x2 = "example_open\<lparr>sx_link := ?r [] [?f], sx_cmds := [0 \<mapsto> ?w]\<rparr>"
  have "smart_exporter_step example_open ?x1"
    using smart_exporter_step.usb_data [of example_open "[0, 3, 9, 8, 7]"] by (simp add: rd_new_def rd_data_def)
  then have x1: "smart_exporter_reaches example_dicts ?x1" by (rule smart_exporter_reaches_step(2) [OF example_exporter_opens])
  have "payload_decode [0, 3, 9, 8, 7] = Some (Some ?f, [])"
    by (simp add: payload_decode_def idx_def advance_def split_to_def)
  then have "sx_usb_next ?x1 = Some ?x2"
    by (simp add: sx_usb_next_def rd_next_def stateless_def smart_exporter_route_def CTRL_CH_def wr_send_def wr_new_def)
  then have "smart_exporter_reaches example_dicts ?x2"
    by (intro smart_exporter_reaches_step(2) [OF x1 smart_exporter_step.usb_next]) simp_all
  then have "smart_exporter_reaches example_dicts (sx_mcu_send 0 False ?x2)"
    by (intro smart_exporter_reaches_step(2) [OF _ smart_exporter_step.mcu_send]) simp_all
  then show thesis
    by (rule that) (simp_all add: sx_mcu_send_def smart_mcu_send_def wr_step_def encode_raw_def wr_new_def, simp)
qed

theorem smart_to_mcu_witness:
  "\<exists>x w sp cn fs all took. smart_exporter_reaches example_dicts x \<and> smart_reaches example_anchor [0] sp
     \<and> rd_read (sx_link x) = wr_out (sp_usb sp) \<and> sx_cmds x 0 = Some w \<and> wr_out w = [9, 8, 7]
     \<and> conns_of sp 0 = [cn] \<and> sm_decoded cn = [[1, 0, 1], [9, 8, 7]]
     \<and> prefix fs [[9, 8, 7 :: u8]] \<and> merged [fs] all \<and> prefix took all \<and> wr_out w = concat took"
proof -
  obtain sp cn where sp: "smart_reaches example_anchor [0] sp" "wr_out (sp_usb sp) = [0, 3, 9, 8, 7]"
    "conns_of sp 0 = [cn]" "sm_decoded cn = [[1, 0, 1], [9, 8, 7]]"
    by (rule example_host_sends)
  obtain x w where x: "smart_exporter_reaches example_dicts x" "rd_read (sx_link x) = [0, 3, 9, 8, 7]"
    "sx_cmds x 0 = Some w" "wr_out w = [9, 8, 7]"
    by (rule example_exporter_gives)
  have "prefix (rd_read (sx_link x)) (wr_out (sp_usb sp))" using sp(2) x(2) by simp
  from smart_to_mcu [OF sp(1) example_anchor_ok example_distinct(3) x(1) example_distinct(1,2) this x(3)]
  obtain fss all took where t: "list_all2 (\<lambda>cn fs. prefix fs (filter (forwarded example_anchor) (sm_decoded cn))) (conns_of sp 0) fss"
    "merged fss all" "prefix took all" "wr_out w = concat took" by (elim exE conjE)
  obtain fs where fs: "fss = [fs]" "prefix fs (filter (forwarded example_anchor) [[1, 0, 1], [9, 8, 7]])"
    using t(1) sp(3,4) by (auto simp: list_all2_Cons1)
  have "filter (forwarded example_anchor) [[1, 0, 1], [9, 8, 7]] = [[9, 8, 7]]"
    by (simp add: forwarded_def example_anchor_def CMD_IDENTIFY_def)
  then show ?thesis using sp x t(2-4) fs
    by (intro exI [of _ x] exI [of _ w] exI [of _ sp] exI [of _ cn] exI [of _ fs] exI [of _ all] exI [of _ took]) simp_all
qed

end
