(* ===== verification/Bridge_Cli.thy ===== *)
theory Bridge_Cli
  imports Cli_Props Tunnel_Codec
begin

text \<open>
  The command line of \<^verbatim>\<open>windlass-bridge\<close> (\<^verbatim>\<open>bin/windlass_bridge.rs\<close>) and the choice of the link
  device and of the relay to run (\<^verbatim>\<open>windlass/mod.rs\<close>).  The functions that the two binaries have in
  common are repeated in the sources; the models share what they are made of.
\<close>

record mcu_spec =
  ms_ch_id :: u8
  ms_path :: string
  ms_baud :: u32

datatype bridge_error = Common cli_error | OnlyMcu string | ReservedChannelId | NeedHostSocket


section \<open>Discovery\<close>

definition bridge_find_acm_by_usb_id :: "sysfs \<Rightarrow> string \<Rightarrow> string \<Rightarrow> string option" where
  "bridge_find_acm_by_usb_id fs vid pid = do {
     es \<leftarrow> read_dir fs tty_dir;
     name \<leftarrow> List.find (\<lambda>name. climb fs vid pid 8 (device_path fs name)) (acm_entries es);
     Some (''/dev/'' @ name)
   }"

partial_function (option) bridge_wait_loop ::
  "env \<Rightarrow> string \<Rightarrow> string \<Rightarrow> int \<Rightarrow> instant list \<Rightarrow> io \<Rightarrow> (string \<times> instant list \<times> io) option" where
  "bridge_wait_loop E vid pid last_log logs io =
     (case bridge_find_acm_by_usb_id (env_sysfs E (io_n io)) vid pid of
        Some dev \<Rightarrow> Some (dev, logs, next_call io)
      | None \<Rightarrow>
          let (t, io) = now E (next_call io) in
          if int t - last_log \<ge> int (from_secs 10)
          then bridge_wait_loop E vid pid (int t) (logs @ [t]) io
          else bridge_wait_loop E vid pid last_log logs io)"

definition bridge_wait_for_acm :: "env \<Rightarrow> string \<Rightarrow> string \<Rightarrow> io \<Rightarrow> (string \<times> instant list \<times> io) option" where
  "bridge_wait_for_acm E vid pid io =
     (let (t, io) = now E io in bridge_wait_loop E vid pid (int t - int (from_secs 11)) [] io)"

text \<open>\<open>None\<close> is the \<open>unreachable!()\<close> or a wait that does not end.\<close>

definition resolve_link_device ::
  "env \<Rightarrow> string option \<Rightarrow> (string \<times> string) option \<Rightarrow> io \<Rightarrow> (string \<times> io) option" where
  "resolve_link_device E link_dev usb_id io =
     (case link_dev of
        Some dev \<Rightarrow> Some (dev, io)
      | None \<Rightarrow>
          (case usb_id of
             Some (vid, pid) \<Rightarrow> do {
               (dev, logs, io) \<leftarrow> bridge_wait_for_acm E vid pid io;
               Some (dev, io)
             }
           | None \<Rightarrow> None))"


section \<open>Value parsers\<close>

definition bridge_parse_usb_id :: "string \<Rightarrow> bridge_error + (string \<times> string)" where
  "bridge_parse_usb_id val =
     (case split_once (CHR '':'') val of
        None \<Rightarrow> Inl (Common UsbNotPair)
      | Some (vid, pid) \<Rightarrow>
          (case check_hex [(vid, ''VID''), (pid, ''PID'')] of
             Some e \<Rightarrow> Inl (Common e)
           | None \<Rightarrow> Inr (map to_lowercase vid, map to_lowercase pid)))"

definition bridge_parse_standard_baud :: "string \<Rightarrow> u32 list \<Rightarrow> bridge_error + u32" where
  "bridge_parse_standard_baud raw bauds =
     (case parse_u32 raw of
        None \<Rightarrow> Inl (Common BaudNotNumber)
      | Some baud \<Rightarrow>
          if \<not> List.member bauds baud then Inl (Common (BaudNotStandard baud)) else Inr baud)"

definition bridge_parse_channel_spec :: "string \<Rightarrow> string \<Rightarrow> bridge_error + mcu_spec" where
  "bridge_parse_channel_spec mode spec =
     (let bauds = [1200, 2400, 4800, 9600, 19200, 38400, 57600, 115200, 230400, 460800, 921600];
          parts = split_on (CHR '':'') spec in
      if length parts < 3 then Inl (Common SpecTooShort)
      else if parts ! 0 \<noteq> ''mcu'' then Inl (OnlyMcu (parts ! 0))
      else case parse_u8 (parts ! 1) of
        None \<Rightarrow> Inl (Common BadChannelId)
      | Some ch_id \<Rightarrow>
          if ch_id = 0xFF then Inl ReservedChannelId
          else if mode = ''exporter'' then
            (if length parts \<noteq> 4 then Inl (Common NeedExporterMcu)
             else case bridge_parse_standard_baud (parts ! 3) bauds of
               Inl e \<Rightarrow> Inl e
             | Inr baud \<Rightarrow> Inr \<lparr>ms_ch_id = ch_id, ms_path = parts ! 2, ms_baud = baud\<rparr>)
          else
            (if length parts \<noteq> 3 then Inl NeedHostSocket
             else Inr \<lparr>ms_ch_id = ch_id, ms_path = parts ! 2, ms_baud = 0\<rparr>))"

definition bridge_parse_exporter_channel_spec :: "string \<Rightarrow> bridge_error + mcu_spec" where
  "bridge_parse_exporter_channel_spec spec = bridge_parse_channel_spec ''exporter'' spec"

definition bridge_parse_host_channel_spec :: "string \<Rightarrow> bridge_error + mcu_spec" where
  "bridge_parse_host_channel_spec spec = bridge_parse_channel_spec ''host'' spec"

fun bridge_unique_ids :: "u8 set \<Rightarrow> mcu_spec list \<Rightarrow> bridge_error option" where
  "bridge_unique_ids seen_ids [] = None"
| "bridge_unique_ids seen_ids (ch # chs) =
     (if ms_ch_id ch \<in> seen_ids then Some (Common (DuplicateChannelId (ms_ch_id ch)))
      else bridge_unique_ids (insert (ms_ch_id ch) seen_ids) chs)"

definition bridge_validate_unique_channel_ids :: "mcu_spec list \<Rightarrow> bridge_error option" where
  "bridge_validate_unique_channel_ids channels = bridge_unique_ids {} channels"


section \<open>parse\_args and main\<close>

record bridge_args =
  ba_mode :: string
  ba_smart :: bool
  ba_link_dev :: "string option"
  ba_usb_id :: "(string \<times> string) option"
  ba_channels :: "mcu_spec list"

record bridge_cli_args = cli_args +
  ca_smart :: bool

datatype bridge_command = BridgeExporter bridge_cli_args | BridgeHost bridge_cli_args

fun bridge_parse_all :: "(string \<Rightarrow> bridge_error + 'a) \<Rightarrow> string list \<Rightarrow> bridge_error + 'a list" where
  "bridge_parse_all f [] = Inr []"
| "bridge_parse_all f (s # ss) =
     (case f s of
        Inl e \<Rightarrow> Inl e
      | Inr x \<Rightarrow> (case bridge_parse_all f ss of Inl e \<Rightarrow> Inl e | Inr xs \<Rightarrow> Inr (x # xs)))"

definition bridge_parse_command ::
  "string \<Rightarrow> (string \<Rightarrow> bridge_error + mcu_spec) \<Rightarrow> bridge_cli_args \<Rightarrow> bridge_error + bridge_args" where
  "bridge_parse_command mode spec_parser a =
     (case (case ca_usb_id a of
              None \<Rightarrow> Inr None
            | Some s \<Rightarrow> (case bridge_parse_usb_id s of Inl e \<Rightarrow> Inl e | Inr u \<Rightarrow> Inr (Some u))) of
        Inl e \<Rightarrow> Inl e
      | Inr usb \<Rightarrow>
          (case bridge_parse_all spec_parser (ca_channels a) of
             Inl e \<Rightarrow> Inl e
           | Inr cs \<Rightarrow>
               (case bridge_validate_unique_channel_ids cs of
                  Some e \<Rightarrow> Inl e
                | None \<Rightarrow> Inr \<lparr>ba_mode = mode, ba_smart = ca_smart a, ba_link_dev = ca_link_dev a,
                              ba_usb_id = usb, ba_channels = cs\<rparr>)))"

fun bridge_parse_args :: "bridge_command \<Rightarrow> bridge_error + bridge_args" where
  "bridge_parse_args (BridgeExporter a) = bridge_parse_command ''exporter'' bridge_parse_exporter_channel_spec a"
| "bridge_parse_args (BridgeHost a) = bridge_parse_command ''host'' bridge_parse_host_channel_spec a"

text \<open>Which relay \<open>main\<close> starts; the error it ends with is the second component of the result.\<close>

datatype runner = RunExporter | RunSmartExporter | RunHost | RunSmartHost

definition choose_runner :: "bridge_args \<Rightarrow> runner" where
  "choose_runner a =
     (if ba_mode a = ''exporter'' then (if ba_smart a then RunSmartExporter else RunExporter)
      else if ba_smart a then RunSmartHost else RunHost)"

datatype bridge_exit = BridgeUsage bridge_error | BridgeExit nat

definition bridge_main ::
  "env \<Rightarrow> (runner \<Rightarrow> string \<Rightarrow> mcu_spec list \<Rightarrow> io \<Rightarrow> ((io_error + unit) \<times> io) option) \<Rightarrow> bridge_command \<Rightarrow> io
   \<Rightarrow> (bridge_exit \<times> io) option" where
  "bridge_main E run cmd io =
     (case bridge_parse_args cmd of
        Inl e \<Rightarrow> Some (BridgeUsage e, io)
      | Inr a \<Rightarrow> do {
          (link_device, io) \<leftarrow> resolve_link_device E (ba_link_dev a) (ba_usb_id a) io;
          (r, io) \<leftarrow> run (choose_runner a) link_device (ba_channels a) io;
          Some (case r of Inl e \<Rightarrow> BridgeExit 1 | Inr u \<Rightarrow> BridgeExit 0, io)
        })"


section \<open>What the command line guarantees\<close>

lemma bridge_find_eq: "bridge_find_acm_by_usb_id = find_acm_by_usb_id"
  by (simp add: fun_eq_iff bridge_find_acm_by_usb_id_def find_acm_by_usb_id_def)

lemma bridge_unique_None:
  "bridge_unique_ids seen cs = None \<longleftrightarrow> distinct (map ms_ch_id cs) \<and> ms_ch_id ` set cs \<inter> seen = {}"
  by (induction cs arbitrary: seen) auto

lemma bridge_unique_distinct: "distinct (map ms_ch_id cs) \<Longrightarrow> bridge_unique_ids {} cs = None"
  by (simp add: bridge_unique_None)

definition mcu_spec_valid :: "string \<Rightarrow> mcu_spec \<Rightarrow> bool" where
  "mcu_spec_valid mode c \<longleftrightarrow> ms_ch_id c \<noteq> 0xFF \<and> CHR '':'' \<notin> set (ms_path c)
     \<and> (if mode = ''exporter'' then baud_to_speed (ms_baud c) \<noteq> None else ms_baud c = 0)"

definition print_mcu_spec :: "string \<Rightarrow> mcu_spec \<Rightarrow> string" where
  "print_mcu_spec mode c =
     join (CHR '':'') ([''mcu'', show_nat (unat (ms_ch_id c)), ms_path c]
       @ (if mode = ''exporter'' then [show_nat (unat (ms_baud c))] else []))"

lemma bridge_baud_Inr:
  "bridge_parse_standard_baud raw [1200, 2400, 4800, 9600, 19200, 38400, 57600, 115200, 230400, 460800, 921600]
     = Inr baud \<longleftrightarrow> parse_u32 raw = Some baud \<and> baud_to_speed baud \<noteq> None"
  using valid_bauds_supported
  by (auto simp: bridge_parse_standard_baud_def valid_bauds_def split: option.splits if_splits)

lemma bridge_spec_valid:
  assumes "bridge_parse_channel_spec mode s = Inr c"
  shows "mcu_spec_valid mode c"
proof -
  have "2 < length (split_on (CHR '':'') s) \<Longrightarrow> CHR '':'' \<notin> set (split_on (CHR '':'') s ! 2)"
    by (rule spec_part)
  then show ?thesis using assms
    by (auto simp: bridge_parse_channel_spec_def Let_def mcu_spec_valid_def bridge_baud_Inr
        split: option.splits sum.splits if_splits)
qed

lemma bridge_parse_print:
  assumes "mcu_spec_valid mode c"
  shows "bridge_parse_channel_spec mode (print_mcu_spec mode c) = Inr c"
proof -
  have "split_on (CHR '':'') (print_mcu_spec mode c) =
      [''mcu'', show_nat (unat (ms_ch_id c)), ms_path c]
        @ (if mode = ''exporter'' then [show_nat (unat (ms_baud c))] else [])"
    unfolding print_mcu_spec_def using assms by (intro split_join) (auto simp: mcu_spec_valid_def)
  moreover have "bridge_parse_standard_baud (show_nat (unat (ms_baud c)))
      [1200, 2400, 4800, 9600, 19200, 38400, 57600, 115200, 230400, 460800, 921600] = Inr (ms_baud c)"
    if "mode = ''exporter''" using that assms unfolding bridge_baud_Inr by (simp add: mcu_spec_valid_def)
  ultimately show ?thesis using assms
    by (auto simp: bridge_parse_channel_spec_def Let_def mcu_spec_valid_def)
qed

lemma bridge_parse_all_map: "(\<And>x. x \<in> set xs \<Longrightarrow> f (g x) = Inr x) \<Longrightarrow> bridge_parse_all f (map g xs) = Inr xs"
  by (induction xs) auto

lemma bridge_parse_all_Inr: "bridge_parse_all f ss = Inr xs \<Longrightarrow> x \<in> set xs \<Longrightarrow> \<exists>s. f s = Inr x"
  by (induction ss arbitrary: xs) (auto split: sum.splits)

lemma bridge_parsers:
  "bridge_parse_exporter_channel_spec = bridge_parse_channel_spec ''exporter''"
  "bridge_parse_host_channel_spec = bridge_parse_channel_spec ''host''"
  by (simp_all add: fun_eq_iff bridge_parse_exporter_channel_spec_def bridge_parse_host_channel_spec_def)

lemma bridge_command_valid:
  assumes "bridge_parse_command mode (bridge_parse_channel_spec mode) a = Inr b"
  shows "ba_mode b = mode \<and> distinct (map ms_ch_id (ba_channels b)) \<and> list_all (mcu_spec_valid mode) (ba_channels b)"
proof -
  obtain cs where cs: "bridge_parse_all (bridge_parse_channel_spec mode) (ca_channels a) = Inr cs"
    "bridge_unique_ids {} cs = None" "ba_channels b = cs" "ba_mode b = mode"
    using assms by (auto simp: bridge_parse_command_def bridge_validate_unique_channel_ids_def
        split: option.splits sum.splits)
  have "list_all (mcu_spec_valid mode) cs"
    using bridge_parse_all_Inr [OF cs(1)] bridge_spec_valid by (auto simp: list_all_iff)
  with cs show ?thesis by (simp add: bridge_unique_None)
qed

text \<open>C37: the bridge starts a relay exactly with usable channels.  What \<open>parse_args\<close> accepts has
  distinct channel ids, none of them the id of the control channel, and for the exporter a baud
  rate that the serial layer supports; and every list of such channels is accepted from its
  printed form, for both modes.\<close>

theorem bridge_args_exact:
  "(bridge_parse_args cmd = Inr b \<longrightarrow>
      distinct (map ms_ch_id (ba_channels b)) \<and> CTRL_CH \<notin> ms_ch_id ` set (ba_channels b)
      \<and> list_all (mcu_spec_valid (ba_mode b)) (ba_channels b))
   \<and> (distinct (map ms_ch_id cs) \<and> list_all (mcu_spec_valid ''exporter'') cs \<longrightarrow>
      bridge_parse_args (BridgeExporter \<lparr>ca_link_dev = dev, ca_usb_id = None,
          ca_channels = map (print_mcu_spec ''exporter'') cs, ca_smart = smart\<rparr>)
        = Inr \<lparr>ba_mode = ''exporter'', ba_smart = smart, ba_link_dev = dev, ba_usb_id = None, ba_channels = cs\<rparr>)
   \<and> (distinct (map ms_ch_id cs) \<and> list_all (mcu_spec_valid ''host'') cs \<longrightarrow>
      bridge_parse_args (BridgeHost \<lparr>ca_link_dev = dev, ca_usb_id = None,
          ca_channels = map (print_mcu_spec ''host'') cs, ca_smart = smart\<rparr>)
        = Inr \<lparr>ba_mode = ''host'', ba_smart = smart, ba_link_dev = dev, ba_usb_id = None, ba_channels = cs\<rparr>)"
proof (intro conjI impI)
  assume "bridge_parse_args cmd = Inr b"
  then have b: "distinct (map ms_ch_id (ba_channels b)) \<and> list_all (mcu_spec_valid (ba_mode b)) (ba_channels b)"
    using bridge_command_valid by (cases cmd) (auto simp: bridge_parsers)
  then show "distinct (map ms_ch_id (ba_channels b))" "list_all (mcu_spec_valid (ba_mode b)) (ba_channels b)"
    by simp_all
  from b show "CTRL_CH \<notin> ms_ch_id ` set (ba_channels b)"
    by (auto simp: list_all_iff mcu_spec_valid_def CTRL_CH_def)
qed (auto simp: bridge_parsers bridge_parse_command_def bridge_validate_unique_channel_ids_def
      bridge_unique_distinct bridge_parse_all_map bridge_parse_print list_all_iff)

text \<open>Two channels as the documentation of the exporter has them.\<close>

abbreviation example_specs :: "mcu_spec list" where
  "example_specs \<equiv> [\<lparr>ms_ch_id = 0, ms_path = ''/dev/ttyS7'', ms_baud = 230400\<rparr>,
     \<lparr>ms_ch_id = 1, ms_path = ''/dev/ttyS1'', ms_baud = 230400\<rparr>]"

theorem bridge_args_exact_witness:
  "distinct (map ms_ch_id example_specs) \<and> list_all (mcu_spec_valid ''exporter'') example_specs
   \<and> bridge_parse_args (BridgeExporter \<lparr>ca_link_dev = Some ''/dev/ttyACM0'', ca_usb_id = None,
          ca_channels = map (print_mcu_spec ''exporter'') example_specs, ca_smart = True\<rparr>)
        = Inr \<lparr>ba_mode = ''exporter'', ba_smart = True, ba_link_dev = Some ''/dev/ttyACM0'',
               ba_usb_id = None, ba_channels = example_specs\<rparr>"
proof -
  have "distinct (map ms_ch_id example_specs) \<and> list_all (mcu_spec_valid ''exporter'') example_specs"
    by (simp add: mcu_spec_valid_def baud_to_speed_def)
  then show ?thesis
    using bridge_args_exact [where cs = example_specs and dev = "Some ''/dev/ttyACM0''" and smart = True] by blast
qed

end
