(* ===== verification/Bridge_Setup.thy ===== *)
theory Bridge_Setup
  imports Bridge_Cli
begin

text \<open>
  What the relays of the bridge set up before they run: the serial ports
  (\<^verbatim>\<open>windlass/async_serial.rs\<close>) and the paths of the Unix sockets (\<open>prepare_socket_path\<close> in
  \<^verbatim>\<open>windlass/mod.rs\<close>).
\<close>


section \<open>open\_serial\<close>

definition baud_to_nix :: "u32 \<Rightarrow> speed option" where
  "baud_to_nix baud =
     (if baud = 1200 then Some B1200
      else if baud = 2400 then Some B2400
      else if baud = 4800 then Some B4800
      else if baud = 9600 then Some B9600
      else if baud = 19200 then Some B19200
      else if baud = 38400 then Some B38400
      else if baud = 57600 then Some B57600
      else if baud = 115200 then Some B115200
      else if baud = 230400 then Some B230400
      else if baud = 460800 then Some B460800
      else if baud = 921600 then Some B921600
      else None)"

definition async_apply_termios :: "env \<Rightarrow> fd \<Rightarrow> u32 \<Rightarrow> io \<Rightarrow> (io_error + unit) \<times> io" where
  "async_apply_termios E f baud io =
     (case env_tcgetattr E (io_n io) f of
        Inl e \<Rightarrow> (Inl (Os e), next_call io)
      | Inr attrs \<Rightarrow>
          let io = next_call io;
              attrs = raw_attrs attrs;
              (r, io) =
                (if baud \<noteq> 0
                 then case baud_to_nix baud of
                   None \<Rightarrow> (Inl InvalidInput, io)
                 | Some speed \<Rightarrow>
                     (case env_cfsetspeed E (io_n io) attrs speed of
                        Inl e \<Rightarrow> (Inl (Os e), next_call io)
                      | Inr attrs \<Rightarrow> (Inr attrs, next_call io))
                 else (Inr attrs, io))
          in case r of
               Inl e \<Rightarrow> (Inl e, io)
             | Inr attrs \<Rightarrow>
                 (case env_tcsetattr E (io_n io) f attrs of
                    Some e \<Rightarrow> (Inl (Os e), next_call io)
                  | None \<Rightarrow> (Inr (), call (SetTermios f attrs) (next_call io))))"

text \<open>\<open>AsyncFd::new\<close> registers the descriptor with the runtime; when that fails the \<open>File\<close> that owns
  the descriptor is dropped, which closes it.  \<open>reg\<close> is the error of the registration, if any.\<close>

definition async_from_raw_fd :: "errno option \<Rightarrow> fd \<Rightarrow> io \<Rightarrow> (io_error + fd) \<times> io" where
  "async_from_raw_fd reg f io =
     (case reg of Some e \<Rightarrow> (Inl (Os e), close_raw f io) | None \<Rightarrow> (Inr f, io))"

definition open_serial :: "env \<Rightarrow> errno option \<Rightarrow> string \<Rightarrow> u32 \<Rightarrow> io \<Rightarrow> (io_error + fd) \<times> io" where
  "open_serial E reg device baud io =
     (if CHR 0x00 \<in> set device then (Inl InvalidInput, io)
      else case env_open E (io_n io) device of
        Inl e \<Rightarrow> (Inl (Os e), next_call io)
      | Inr f \<Rightarrow>
          (case async_apply_termios E f baud (call (OpenFd f) (next_call io)) of
             (Inl e, io) \<Rightarrow> (Inl e, close_raw f io)
           | (Inr _, io) \<Rightarrow> async_from_raw_fd reg f io))"

lemma baud_tables_agree: "baud_to_nix = baud_to_speed"
  by (simp add: fun_eq_iff baud_to_nix_def baud_to_speed_def)

lemma async_apply_termios_trace:
  "async_apply_termios E f baud io = (r, io') \<Longrightarrow> io_txq io' = io_txq io \<and>
    (case r of
       Inl e \<Rightarrow> io_log io' = io_log io
     | Inr _ \<Rightarrow> \<exists>a a'. io_log io' = io_log io @ [SetTermios f a']
         \<and> (if baud = 0 then a' = raw_attrs a
            else \<exists>s n. baud_to_speed baud = Some s \<and> env_cfsetspeed E n (raw_attrs a) s = Inr a'))"
  unfolding async_apply_termios_def baud_tables_agree
  by (auto simp: Let_def split: option.splits sum.splits if_splits) blast+

text \<open>C40: \<open>open_serial\<close> leaves no descriptor open on any error path (an invalid name, a failing \<open>open\<close>,
  an unsupported baud rate, a failing termios call, a failing registration), and otherwise returns
  the one it opened, configured raw: at a speed the serial layer supports, or, for a baud rate of
  0, with the speed cleared.\<close>

theorem open_serial_owns:
  "case open_serial E reg device baud io of (r, io') \<Rightarrow>
     io_txq io' = io_txq io \<and> (\<exists>cs. io_log io' = io_log io @ cs
       \<and> (case r of
            Inl e \<Rightarrow> leaked cs = []
          | Inr f \<Rightarrow> leaked cs = [f] \<and> CHR 0x00 \<notin> set device
              \<and> (\<exists>a a'. SetTermios f a' \<in> set cs
                   \<and> (if baud = 0 then a' = raw_attrs a \<and> speed_of a' = None
                      else \<exists>s n. baud_to_speed baud = Some s \<and> env_cfsetspeed E n (raw_attrs a) s = Inr a'))))"
proof (cases "CHR 0x00 \<in> set device")
  case True
  then show ?thesis by (simp add: open_serial_def leaked_def)
next
  case nul: False
  show ?thesis
  proof (cases "env_open E (io_n io) device")
    case (Inl e)
    then show ?thesis using nul by (simp add: open_serial_def leaked_def)
  next
    case (Inr f)
    obtain r io1 where a: "async_apply_termios E f baud (call (OpenFd f) (next_call io)) = (r, io1)" by fastforce
    note trace = async_apply_termios_trace [OF a]
    show ?thesis
    proof (cases r)
      case (Inl e)
      then show ?thesis using nul Inr a trace by (simp add: open_serial_def close_raw_def leaked_def)
    next
      case ok: (Inr u)
      then show ?thesis using nul Inr a trace
        by (cases reg) (fastforce simp: open_serial_def async_from_raw_fd_def close_raw_def leaked_def raw_attrs_def)+
    qed
  qed
qed


section \<open>Reading and writing\<close>

text \<open>One poll of the runtime: not ready, an error of the readiness call, or ready with the result
  of the \<open>read\<close> or \<open>write\<close> that is tried then.  A list of them is what the loop sees until it
  returns; an empty list is a pending poll.\<close>

datatype 'a try_io = TryOk 'a | TryErr errno | TryWouldBlock
datatype 'a ready = NotReady | ReadyErr errno | Ready "'a try_io"
datatype 'a polled = Pending | PolledErr errno | Polled 'a

fun poll_read :: "bytes ready list \<Rightarrow> bytes polled" where
  "poll_read [] = Pending"
| "poll_read (NotReady # ps) = Pending"
| "poll_read (ReadyErr e # ps) = PolledErr e"
| "poll_read (Ready (TryOk bs) # ps) = (if bs = [] then poll_read ps else Polled bs)"
| "poll_read (Ready (TryErr e) # ps) = PolledErr e"
| "poll_read (Ready TryWouldBlock # ps) = poll_read ps"

fun poll_write :: "nat ready list \<Rightarrow> nat polled" where
  "poll_write [] = Pending"
| "poll_write (NotReady # ps) = Pending"
| "poll_write (ReadyErr e # ps) = PolledErr e"
| "poll_write (Ready (TryOk n) # ps) = Polled n"
| "poll_write (Ready (TryErr e) # ps) = PolledErr e"
| "poll_write (Ready TryWouldBlock # ps) = poll_write ps"

text \<open>A read of no bytes, which a serial port in raw mode returns when it has no data, is never taken
  for the end of the stream.\<close>

lemma poll_read_no_eof: "poll_read ps = Polled bs \<Longrightarrow> bs \<noteq> []"
  by (induction ps rule: poll_read.induct) (auto split: if_splits)


section \<open>prepare\_socket\_path\<close>

text \<open>The file system as far as these calls see it, and the calls as parameters: each may fail.\<close>

datatype file_type = Directory | Socket | Symlink_To string | Regular bytes

fun is_symlink :: "file_type \<Rightarrow> bool" where
  "is_symlink (Symlink_To p) = True"
| "is_symlink _ = False"

type_synonym files = "string \<Rightarrow> file_type option"

datatype fs_error = FsNotFound | FsAlreadyExists | FsOther errno

record fs_calls =
  fs_parent :: "string \<Rightarrow> string option"
  fs_create_dir_all :: "string \<Rightarrow> files \<Rightarrow> fs_error option \<times> files"
  fs_symlink_metadata :: "string \<Rightarrow> files \<Rightarrow> fs_error + file_type"
  fs_remove_file :: "string \<Rightarrow> files \<Rightarrow> fs_error option \<times> files"

definition prepare_socket_path :: "fs_calls \<Rightarrow> string \<Rightarrow> files \<Rightarrow> (fs_error + unit) \<times> files" where
  "prepare_socket_path F p fs =
     (let (r, fs) = (case fs_parent F p of
                       Some parent \<Rightarrow> fs_create_dir_all F parent fs
                     | None \<Rightarrow> (None, fs))
      in case r of
           Some e \<Rightarrow> (Inl e, fs)
         | None \<Rightarrow>
             (case fs_symlink_metadata F p fs of
                Inr t \<Rightarrow>
                  if t = Socket \<or> is_symlink t
                  then (case fs_remove_file F p fs of (Some e, fs) \<Rightarrow> (Inl e, fs) | (None, fs) \<Rightarrow> (Inr (), fs))
                  else (Inl FsAlreadyExists, fs)
              | Inl e \<Rightarrow> if e = FsNotFound then (Inr (), fs) else (Inl e, fs)))"

text \<open>What these calls are documented to do: creating directories changes no entry that is there,
  the metadata are those of the entry itself and \<open>NotFound\<close> means that there is none, and removing
  a file takes away that entry or, when it fails, nothing.\<close>

definition fs_calls_ok :: "fs_calls \<Rightarrow> bool" where
  "fs_calls_ok F \<longleftrightarrow>
     (\<forall>p fs. fs \<subseteq>\<^sub>m snd (fs_create_dir_all F p fs))
     \<and> (\<forall>p fs t. fs_symlink_metadata F p fs = Inr t \<longrightarrow> fs p = Some t)
     \<and> (\<forall>p fs. fs_symlink_metadata F p fs = Inl FsNotFound \<longrightarrow> fs p = None)
     \<and> (\<forall>p fs. snd (fs_remove_file F p fs) = (if fst (fs_remove_file F p fs) = None then fs(p := None) else fs))"

lemma prepare_socket_path_effect:
  assumes "fs_calls_ok F" "prepare_socket_path F p fs = (r, fs')"
  shows "\<And>q. q \<noteq> p \<Longrightarrow> fs q \<noteq> None \<Longrightarrow> fs' q = fs q"
    "\<And>t. fs p = Some t \<Longrightarrow> fs' p \<noteq> Some t \<Longrightarrow> t = Socket \<or> is_symlink t"
    "r = Inr () \<Longrightarrow> fs' p = None"
    "\<And>t. fs p = Some t \<Longrightarrow> t \<noteq> Socket \<Longrightarrow> \<not> is_symlink t \<Longrightarrow> r \<noteq> Inr ()"
proof -
  obtain m fs1 where mk: "(case fs_parent F p of Some parent \<Rightarrow> fs_create_dir_all F parent fs | None \<Rightarrow> (None, fs)) = (m, fs1)"
    by fastforce
  have keep: "fs1 q = fs q" if "fs q \<noteq> None" for q
    using mk assms(1) that by (auto simp: fs_calls_ok_def map_le_def dom_def split: option.splits) (metis snd_conv)
  have meta: "fs_symlink_metadata F p fs1 = Inr t \<Longrightarrow> fs1 p = Some t"
    "fs_symlink_metadata F p fs1 = Inl FsNotFound \<Longrightarrow> fs1 p = None" for t
    using assms(1) by (auto simp: fs_calls_ok_def)
  have rm: "fs_remove_file F p fs1 = (e, fs2) \<Longrightarrow> fs2 = (if e = None then fs1(p := None) else fs1)" for e fs2
    using assms(1) unfolding fs_calls_ok_def by (metis fst_conv snd_conv)
  note facts = assms(2) keep meta rm
  have all: "(\<forall>q. q \<noteq> p \<and> fs q \<noteq> None \<longrightarrow> fs' q = fs q)
    \<and> (\<forall>t. fs p = Some t \<and> fs' p \<noteq> Some t \<longrightarrow> t = Socket \<or> is_symlink t)
    \<and> (r = Inr () \<longrightarrow> fs' p = None)
    \<and> (\<forall>t. fs p = Some t \<and> t \<noteq> Socket \<and> \<not> is_symlink t \<longrightarrow> r \<noteq> Inr ())"
    using facts
    unfolding prepare_socket_path_def mk
    by (cases m; cases "fs_symlink_metadata F p fs1"; cases "fs_remove_file F p fs1")
       (auto split: if_splits option.splits)
  show "\<And>q. q \<noteq> p \<Longrightarrow> fs q \<noteq> None \<Longrightarrow> fs' q = fs q"
    "\<And>t. fs p = Some t \<Longrightarrow> fs' p \<noteq> Some t \<Longrightarrow> t = Socket \<or> is_symlink t"
    "r = Inr () \<Longrightarrow> fs' p = None"
    "\<And>t. fs p = Some t \<Longrightarrow> t \<noteq> Socket \<Longrightarrow> \<not> is_symlink t \<Longrightarrow> r \<noteq> Inr ()"
    using all by blast+
qed

text \<open>A machine on which every call succeeds, with a stale socket.\<close>

definition example_fs_calls :: fs_calls where
  "example_fs_calls = \<lparr>
     fs_parent = (\<lambda>p. Some ''/tmp''),
     fs_create_dir_all = (\<lambda>p fs. (None, if fs p = None then fs(p \<mapsto> Directory) else fs)),
     fs_symlink_metadata = (\<lambda>p fs. case fs p of None \<Rightarrow> Inl FsNotFound | Some t \<Rightarrow> Inr t),
     fs_remove_file = (\<lambda>p fs. (None, fs(p := None)))\<rparr>"

definition example_files :: files where
  "example_files = [''/tmp/klipper_mcu0'' \<mapsto> Socket, ''/tmp/other'' \<mapsto> Regular [1, 2, 3]]"

lemma example_fs_calls_ok: "fs_calls_ok example_fs_calls"
  by (auto simp: fs_calls_ok_def example_fs_calls_def map_le_def split: option.splits)

end
