(* ===== verification/Bridge_Run.thy ===== *)
theory Bridge_Run
  imports Bridge_Setup Smart_Exporter
begin

text \<open>
  How the relays start: what the four functions \<open>run_*\<close> open and bind before the tasks of
  \<open>Relay\<close> and \<open>Smart\<close> take their turns, and the state they hand over.

  A function that returns an error drops the USB link it opened.  The tasks it has already
  started keep their descriptors until the process ends, which \<open>main\<close> brings about next.
\<close>


section \<open>Exporter\<close>

text \<open>The loop over the channels: the port is opened and its two tasks are started.  \<open>reg\<close> is the result of
  the registration with the runtime, by the number of calls made before.\<close>

fun open_uarts ::
  "env \<Rightarrow> (nat \<Rightarrow> errno option) \<Rightarrow> mcu_spec list \<Rightarrow> exporter \<Rightarrow> fd list \<Rightarrow> io \<Rightarrow> (io_error + exporter \<times> fd list) \<times> io" where
  "open_uarts E reg [] x fds io = (Inr (x, fds), io)"
| "open_uarts E reg (ch # chs) x fds io =
     (case open_serial E (reg (io_n io)) (ms_path ch) (ms_baud ch) io of
        (Inl e, io) \<Rightarrow> (Inl e, io)
      | (Inr uart, io) \<Rightarrow>
          open_uarts E reg chs (x\<lparr>ex_uarts := (ex_uarts x)(ms_ch_id ch \<mapsto> (rd_new False, wr_new))\<rparr>) (fds @ [uart]) io)"

definition run_exporter_start ::
  "env \<Rightarrow> (nat \<Rightarrow> errno option) \<Rightarrow> string \<Rightarrow> mcu_spec list \<Rightarrow> io \<Rightarrow> (io_error + fd \<times> exporter \<times> fd list) \<times> io" where
  "run_exporter_start E reg link_device channels io =
     (case open_serial E (reg (io_n io)) link_device 0 io of
        (Inl e, io) \<Rightarrow> (Inl e, io)
      | (Inr usb, io) \<Rightarrow>
          (case open_uarts E reg channels \<lparr>ex_usb = wr_new, ex_link = rd_new (), ex_uarts = (\<lambda>c. None)\<rparr> [] io of
             (Inl e, io) \<Rightarrow> (Inl e, close_raw usb io)
           | (Inr (x, fds), io) \<Rightarrow> (Inr (usb, x, fds), io)))"


datatype start_error = SerialError io_error | SocketError fs_error | McuError errno | WriterClosed

text \<open>The smart exporter: each port is opened once to fetch the dictionary, through the connection API of
  the crate \<open>windlass\<close>, which takes the port and closes it, and again for the relay.  \<open>connect\<close> is what
  that API returns: the dictionary or an error.\<close>

fun smart_open_uarts ::
  "env \<Rightarrow> (nat \<Rightarrow> errno option) \<Rightarrow> (nat \<Rightarrow> fd \<Rightarrow> errno + bytes) \<Rightarrow> mcu_spec list \<Rightarrow> payload_frame writer
   \<Rightarrow> (u8 \<Rightarrow> bytes writer option) \<Rightarrow> io \<Rightarrow> (start_error + payload_frame writer \<times> (u8 \<Rightarrow> bytes writer option)) \<times> io" where
  "smart_open_uarts E reg connect [] usb_tx cmd_txs io = (Inr (usb_tx, cmd_txs), io)"
| "smart_open_uarts E reg connect (ch # chs) usb_tx cmd_txs io =
     (case open_serial E (reg (io_n io)) (ms_path ch) (ms_baud ch) io of
        (Inl e, io) \<Rightarrow> (Inl (SerialError e), io)
      | (Inr uart, io) \<Rightarrow>
          (case connect (io_n io) uart of
             Inl e \<Rightarrow> (Inl (McuError e), close_raw uart (next_call io))
           | Inr dictionary \<Rightarrow>
               let io = close_raw uart (next_call io) in
               (case open_serial E (reg (io_n io)) (ms_path ch) (ms_baud ch) io of
                  (Inl e, io) \<Rightarrow> (Inl (SerialError e), io)
                | (Inr uart, io) \<Rightarrow>
                    (case send_dictionary (ms_ch_id ch) dictionary usb_tx of
                       (False, usb_tx) \<Rightarrow> (Inl WriterClosed, close_raw uart io)
                     | (True, usb_tx) \<Rightarrow>
                         smart_open_uarts E reg connect chs usb_tx (cmd_txs(ms_ch_id ch \<mapsto> wr_new)) io))))"

definition run_smart_exporter_start ::
  "env \<Rightarrow> (nat \<Rightarrow> errno option) \<Rightarrow> (nat \<Rightarrow> fd \<Rightarrow> errno + bytes) \<Rightarrow> string \<Rightarrow> mcu_spec list \<Rightarrow> io
   \<Rightarrow> (start_error + fd \<times> payload_frame writer \<times> (u8 \<Rightarrow> bytes writer option)) \<times> io" where
  "run_smart_exporter_start E reg connect link_device channels io =
     (case open_serial E (reg (io_n io)) link_device 0 io of
        (Inl e, io) \<Rightarrow> (Inl (SerialError e), io)
      | (Inr usb, io) \<Rightarrow>
          (case smart_open_uarts E reg connect channels wr_new (\<lambda>c. None) io of
             (Inl e, io) \<Rightarrow> (Inl e, close_raw usb io)
           | (Inr (usb_tx, cmd_txs), io) \<Rightarrow> (Inr (usb, usb_tx, cmd_txs), io)))"


section \<open>Host\<close>

text \<open>\<open>UnixListener::bind\<close>\<close>

type_synonym bind_fn = "string \<Rightarrow> files \<Rightarrow> fs_error option \<times> files"

fun bind_sockets :: "fs_calls \<Rightarrow> bind_fn \<Rightarrow> mcu_spec list \<Rightarrow> host \<Rightarrow> files \<Rightarrow> (fs_error + host) \<times> files" where
  "bind_sockets F bnd [] h fs = (Inr h, fs)"
| "bind_sockets F bnd (ch # chs) h fs =
     (case prepare_socket_path F (ms_path ch) fs of
        (Inl e, fs) \<Rightarrow> (Inl e, fs)
      | (Inr _, fs) \<Rightarrow>
          (case bnd (ms_path ch) fs of
             (Some e, fs) \<Rightarrow> (Inl e, fs)
           | (None, fs) \<Rightarrow> bind_sockets F bnd chs (set_slot (ms_ch_id ch) \<lparr>sl_conns = [], sl_current = None\<rparr> h) fs))"

definition run_host_start ::
  "env \<Rightarrow> (nat \<Rightarrow> errno option) \<Rightarrow> fs_calls \<Rightarrow> bind_fn \<Rightarrow> string \<Rightarrow> mcu_spec list \<Rightarrow> files \<Rightarrow> io
   \<Rightarrow> (start_error + fd \<times> host) \<times> files \<times> io" where
  "run_host_start E reg F bnd link_device channels fs io =
     (case open_serial E (reg (io_n io)) link_device 0 io of
        (Inl e, io) \<Rightarrow> (Inl (SerialError e), fs, io)
      | (Inr usb, io) \<Rightarrow>
          (case bind_sockets F bnd channels \<lparr>ho_usb = wr_new, ho_link = rd_new (), ho_slots = (\<lambda>c. None)\<rparr> fs of
             (Inl e, fs) \<Rightarrow> (Inl (SocketError e), fs, close_raw usb io)
           | (Inr h, fs) \<Rightarrow> (Inr (usb, h), fs, io)))"

text \<open>The smart host prepares all paths before it binds the first socket.\<close>

fun prepare_paths :: "fs_calls \<Rightarrow> mcu_spec list \<Rightarrow> smart_host \<Rightarrow> files \<Rightarrow> (fs_error + smart_host) \<times> files" where
  "prepare_paths F [] h fs = (Inr h, fs)"
| "prepare_paths F (ch # chs) h fs =
     (case prepare_socket_path F (ms_path ch) fs of
        (Inl e, fs) \<Rightarrow> (Inl e, fs)
      | (Inr _, fs) \<Rightarrow> prepare_paths F chs (h\<lparr>sh_slots := (sh_slots h)(ms_ch_id ch \<mapsto> None)\<rparr>) fs)"

fun bind_all :: "bind_fn \<Rightarrow> mcu_spec list \<Rightarrow> files \<Rightarrow> fs_error option \<times> files" where
  "bind_all bnd [] fs = (None, fs)"
| "bind_all bnd (ch # chs) fs =
     (case bnd (ms_path ch) fs of
        (Some e, fs) \<Rightarrow> (Some e, fs)
      | (None, fs) \<Rightarrow> bind_all bnd chs fs)"

definition run_smart_host_start ::
  "env \<Rightarrow> (nat \<Rightarrow> errno option) \<Rightarrow> fs_calls \<Rightarrow> bind_fn \<Rightarrow> string \<Rightarrow> mcu_spec list \<Rightarrow> files \<Rightarrow> io
   \<Rightarrow> (start_error + fd \<times> smart_host \<times> gatherer) \<times> files \<times> io" where
  "run_smart_host_start E reg F bnd link_device channels fs io =
     (case open_serial E (reg (io_n io)) link_device 0 io of
        (Inl e, io) \<Rightarrow> (Inl (SerialError e), fs, io)
      | (Inr usb, io) \<Rightarrow>
          let g = \<lparr>ga_dicts = (\<lambda>c. None),
                   ga_watch = fold (\<lambda>ch w. w(ms_ch_id ch \<mapsto> None)) channels (\<lambda>c. None)\<rparr> in
          (case prepare_paths F channels \<lparr>sh_ctrl = [], sh_slots = (\<lambda>c. None)\<rparr> fs of
             (Inl e, fs) \<Rightarrow> (Inl (SocketError e), fs, close_raw usb io)
           | (Inr h, fs) \<Rightarrow>
               (case bind_all bnd channels fs of
                  (Some e, fs) \<Rightarrow> (Inl (SocketError e), fs, close_raw usb io)
                | (None, fs) \<Rightarrow> (Inr (usb, h, g), fs, io))))"


section \<open>The state of the relays after the start\<close>

text \<open>What a call of \<open>open_serial\<close> leaves open.\<close>

lemma open_serial_opens:
  assumes "open_serial E reg device baud io = (r, io')"
  shows "\<exists>cs. io_log io' = io_log io @ cs \<and> (\<forall>fds. open_fds cs fds = (case r of Inl e \<Rightarrow> fds | Inr f \<Rightarrow> f # fds))"
proof (cases "CHR 0x00 \<in> set device \<or> (\<exists>e. env_open E (io_n io) device = Inl e)")
  case True
  then show ?thesis using assms by (auto simp: open_serial_def split: if_splits)
next
  case False
  then obtain f where f: "env_open E (io_n io) device = Inr f" "CHR 0x00 \<notin> set device"
    by (cases "env_open E (io_n io) device") auto
  obtain a io1 where a: "async_apply_termios E f baud (call (OpenFd f) (next_call io)) = (a, io1)" by fastforce
  show ?thesis using assms f a async_apply_termios_trace [OF a]
    by (cases a; cases reg) (auto simp: open_serial_def async_from_raw_fd_def close_raw_def)
qed

definition uarts_after :: "mcu_spec list \<Rightarrow> exporter \<Rightarrow> exporter" where
  "uarts_after chs x =
     x\<lparr>ex_uarts := (\<lambda>c. if c \<in> ms_ch_id ` set chs then Some (rd_new False, wr_new) else ex_uarts x c)\<rparr>"

lemma uarts_after_Cons:
  "uarts_after chs (x\<lparr>ex_uarts := (ex_uarts x)(ms_ch_id ch \<mapsto> (rd_new False, wr_new))\<rparr>) = uarts_after (ch # chs) x"
  by (auto simp: uarts_after_def fun_eq_iff)

lemma uarts_after_new:
  "uarts_after chs \<lparr>ex_usb = wr_new, ex_link = rd_new (), ex_uarts = (\<lambda>c. None)\<rparr> = exporter_new (map ms_ch_id chs)"
  by (simp add: uarts_after_def exporter_new_def fun_eq_iff)

lemma open_uarts_opens:
  assumes "open_uarts E reg chs x fds io = (r, io')"
  obtains cs new where "io_log io' = io_log io @ cs" "\<And>fs. open_fds cs fs = rev new @ fs" "length new \<le> length chs"
    "case r of Inl e \<Rightarrow> True | Inr (y, fds') \<Rightarrow> fds' = fds @ new \<and> length new = length chs \<and> y = uarts_after chs x"
  using assms
proof (induction chs arbitrary: x fds io thesis)
  case Nil
  then show ?case by (fastforce simp: uarts_after_def)
next
  case (Cons ch chs)
  let ?x = "x\<lparr>ex_uarts := (ex_uarts x)(ms_ch_id ch \<mapsto> (rd_new False, wr_new))\<rparr>"
  obtain s io1 where s: "open_serial E (reg (io_n io)) (ms_path ch) (ms_baud ch) io = (s, io1)" by fastforce
  from open_serial_opens [OF s] obtain cs where cs: "io_log io1 = io_log io @ cs"
    "\<And>fs. open_fds cs fs = (case s of Inl e \<Rightarrow> fs | Inr f \<Rightarrow> f # fs)" by blast
  show ?case
  proof (cases s)
    case (Inl e)
    then show ?thesis using Cons.prems s cs by (intro Cons.prems(1) [of cs "[]"]) auto
  next
    case (Inr f)
    with Cons.prems s have u: "open_uarts E reg chs ?x (fds @ [f]) io1 = (r, io')" by simp
    show ?thesis
    proof (rule Cons.IH [OF _ u])
      fix ds new
      assume n: "io_log io' = io_log io1 @ ds" "\<And>fs. open_fds ds fs = rev new @ fs" "length new \<le> length chs"
        "case r of Inl e \<Rightarrow> True | Inr (y, fds') \<Rightarrow> fds' = (fds @ [f]) @ new \<and> length new = length chs \<and> y = uarts_after chs ?x"
      show ?thesis
        by (rule Cons.prems(1) [of "cs @ ds" "f # new"])
           (use n cs Inr in \<open>simp_all add: uarts_after_Cons split: sum.splits prod.splits\<close>)
    qed
  qed
qed

text \<open>When the loop over the channels fails, it does so at the channel \<open>k\<close>, whose port cannot be opened; the ports of
  the channels before it are open.\<close>

lemma open_uarts_stops:
  assumes "open_uarts E reg chs x fds io = (Inl e, io')"
  obtains k y fds' io2 where "k < length chs" "open_uarts E reg (take k chs) x fds io = (Inr (y, fds'), io2)"
    "open_serial E (reg (io_n io2)) (ms_path (chs ! k)) (ms_baud (chs ! k)) io2 = (Inl e, io')"
  using assms
proof (induction chs arbitrary: x fds io thesis)
  case (Cons ch chs)
  obtain s io1 where s: "open_serial E (reg (io_n io)) (ms_path ch) (ms_baud ch) io = (s, io1)" by fastforce
  show ?case
  proof (cases s)
    case (Inl e')
    then show ?thesis using Cons.prems s by (intro Cons.prems(1) [of 0]) auto
  next
    case (Inr f)
    let ?x = "x\<lparr>ex_uarts := (ex_uarts x)(ms_ch_id ch \<mapsto> (rd_new False, wr_new))\<rparr>"
    have u: "open_uarts E reg chs ?x (fds @ [f]) io1 = (Inl e, io')" using Cons.prems(2) s Inr by simp
    show ?thesis
    proof (rule Cons.IH [OF _ u])
      fix k y fds' io2
      assume "k < length chs" "open_uarts E reg (take k chs) ?x (fds @ [f]) io1 = (Inr (y, fds'), io2)"
        "open_serial E (reg (io_n io2)) (ms_path (chs ! k)) (ms_baud (chs ! k)) io2 = (Inl e, io')"
      then show ?thesis using s Inr by (intro Cons.prems(1) [of "Suc k" y fds' io2]) simp_all
    qed
  qed
qed simp

text \<open>C38: the exporter starts with exactly its channels.  When \<open>run_exporter\<close> gets to its tasks, the link
  and one port for each channel are open, and nothing else, and the state is the initial state of
  the relay for the channel ids given.  When the link cannot be opened nothing is left open.  When the port of
  a channel cannot be opened, the error is the one of that port, the link that was opened is closed as the last call,
  and before that call exactly the link and the ports of the channels before it are open.\<close>

theorem exporter_starts:
  assumes "run_exporter_start E reg link_device channels io = (r, io')"
  shows "\<exists>cs. io_log io' = io_log io @ cs
    \<and> (case r of
         Inr (usb, x, fds) \<Rightarrow> x = exporter_new (map ms_ch_id channels)
           \<and> length fds = length channels \<and> leaked cs = rev fds @ [usb]
       | Inl e \<Rightarrow>
           (case open_serial E (reg (io_n io)) link_device 0 io of
              (Inl e', _) \<Rightarrow> e = e' \<and> leaked cs = []
            | (Inr usb, io1) \<Rightarrow> \<exists>k x started io2 cs'. k < length channels
                \<and> open_uarts E reg (take k channels) (exporter_new []) [] io1 = (Inr (x, started), io2)
                \<and> fst (open_serial E (reg (io_n io2)) (ms_path (channels ! k)) (ms_baud (channels ! k)) io2) = Inl e
                \<and> length started = k \<and> leaked cs' = rev started @ [usb] \<and> cs = cs' @ [CloseFd usb]))"
proof -
  have new: "exporter_new [] = \<lparr>ex_usb = wr_new, ex_link = rd_new (), ex_uarts = (\<lambda>c. None)\<rparr>"
    by (simp add: exporter_new_def)
  obtain s io1 where s: "open_serial E (reg (io_n io)) link_device 0 io = (s, io1)" by fastforce
  from open_serial_opens [OF s] obtain cs where cs: "io_log io1 = io_log io @ cs"
    "\<And>fs. open_fds cs fs = (case s of Inl e \<Rightarrow> fs | Inr f \<Rightarrow> f # fs)" by blast
  show ?thesis
  proof (cases s)
    case (Inl e)
    then show ?thesis using assms s cs by (auto simp: run_exporter_start_def leaked_def)
  next
    case usb: (Inr usb)
    obtain u io2 where u: "open_uarts E reg channels (exporter_new []) [] io1 = (u, io2)" by fastforce
    show ?thesis
    proof (cases u)
      case (Inl e)
      from open_uarts_stops [OF u [unfolded Inl]] obtain k y started io3 where k: "k < length channels"
        "open_uarts E reg (take k channels) (exporter_new []) [] io1 = (Inr (y, started), io3)"
        "open_serial E (reg (io_n io3)) (ms_path (channels ! k)) (ms_baud (channels ! k)) io3 = (Inl e, io2)" .
      from open_uarts_opens [OF k(2)] obtain ds where ds: "io_log io3 = io_log io1 @ ds"
        "\<And>fs. open_fds ds fs = rev started @ fs" "length started = k" using k(1) by auto
      from open_serial_opens [OF k(3)] obtain es where es: "io_log io2 = io_log io3 @ es" "\<And>fs. open_fds es fs = fs" by auto
      let ?cs = "cs @ ds @ es"
      have "r = Inl e" "io_log io' = io_log io @ (?cs @ [CloseFd usb])"
        using assms s u cs(1) ds(1) es(1) usb Inl by (auto simp: run_exporter_start_def close_raw_def new)
      moreover have "leaked ?cs = rev started @ [usb]"
        by (simp add: leaked_def open_fds_append cs(2) ds(2) es(2) usb)
      ultimately show ?thesis using k ds(3) s usb
        by (intro exI [of _ "?cs @ [CloseFd usb]"] conjI, simp)
           (simp, intro exI [of _ k] exI [of _ y] exI [of _ started] exI [of _ io3] exI [of _ ?cs], simp)
    next
      case ok: (Inr v)
      obtain y fds where v: "v = (y, fds)" by fastforce
      from open_uarts_opens [OF u] obtain ds where "io_log io2 = io_log io1 @ ds" "\<And>fs. open_fds ds fs = rev fds @ fs"
        "length fds = length channels" "y = uarts_after channels (exporter_new [])" unfolding ok v by auto
      moreover have "r = Inr (usb, y, fds)" "io' = io2" using assms s u usb ok v by (simp_all add: run_exporter_start_def new)
      ultimately show ?thesis using cs usb
        by (intro exI [of _ "cs @ ds"]) (simp add: leaked_def uarts_after_new [folded new])
    qed
  qed
qed

text \<open>Two ports, all calls succeed.\<close>

theorem exporter_starts_witness:
  "\<exists>r io'. run_exporter_start example_env (\<lambda>n. None) ''/dev/ttyACM0'' example_specs io_new = (r, io')
     \<and> (\<exists>usb fds. r = Inr (usb, exporter_new [0, 1], fds) \<and> length fds = 2 \<and> leaked (io_log io') = rev fds @ [usb])"
proof -
  obtain r io' where r: "run_exporter_start example_env (\<lambda>n. None) ''/dev/ttyACM0'' example_specs io_new = (r, io')"
    by fastforce
  then have "\<exists>v. r = Inr v"
    by (auto simp: run_exporter_start_def open_serial_def async_apply_termios_def async_from_raw_fd_def example_env_def
        baud_to_nix_def Let_def)
  then obtain usb x fds where "r = Inr (usb, x, fds)" by auto
  then show ?thesis using exporter_starts [OF r] r by (auto simp: io_new_def)
qed


section \<open>The sockets of the host\<close>

text \<open>What \<open>UnixListener::bind\<close> is documented to do: it creates the socket where there was nothing, and
  changes nothing when it fails.\<close>

definition bind_ok :: "bind_fn \<Rightarrow> bool" where
  "bind_ok bnd \<longleftrightarrow> (\<forall>p fs. snd (bnd p fs) = (if fst (bnd p fs) = None then fs(p \<mapsto> Socket) else fs)
     \<and> (fst (bnd p fs) = None \<longrightarrow> fs p = None))"

lemma bind_effect:
  assumes "bind_ok bnd" "bnd p fs = (e, fs')"
  shows "fs' = (if e = None then fs(p \<mapsto> Socket) else fs)" "e = None \<Longrightarrow> fs p = None"
  using assms unfolding bind_ok_def by (metis fst_conv snd_conv)+

definition slots_after :: "mcu_spec list \<Rightarrow> host \<Rightarrow> host" where
  "slots_after chs h =
     h\<lparr>ho_slots := (\<lambda>c. if c \<in> ms_ch_id ` set chs then Some \<lparr>sl_conns = [], sl_current = None\<rparr> else ho_slots h c)\<rparr>"

lemma slots_after_Cons:
  "slots_after chs (set_slot (ms_ch_id ch) \<lparr>sl_conns = [], sl_current = None\<rparr> h) = slots_after (ch # chs) h"
  by (auto simp: slots_after_def set_slot_def fun_eq_iff)

lemma slots_after_new:
  "slots_after chs \<lparr>ho_usb = wr_new, ho_link = rd_new (), ho_slots = (\<lambda>c. None)\<rparr> = host_new (map ms_ch_id chs)"
  by (simp add: slots_after_def host_new_def fun_eq_iff)

lemma bind_sockets_effect:
  assumes "fs_calls_ok F" "bind_ok bnd" "distinct (map ms_path chs)" "bind_sockets F bnd chs h fs = (r, fs')"
  shows "(\<forall>q. q \<notin> ms_path ` set chs \<and> fs q \<noteq> None \<longrightarrow> fs' q = fs q)
    \<and> (\<forall>h'. r = Inr h' \<longrightarrow> h' = slots_after chs h \<and> (\<forall>p \<in> ms_path ` set chs. fs' p = Some Socket))
    \<and> (\<forall>p \<in> ms_path ` set chs. \<forall>t. fs p = Some t \<and> t \<noteq> Socket \<and> \<not> is_symlink t \<longrightarrow> fs' p = Some t \<and> (\<forall>h'. r \<noteq> Inr h'))"
  using assms(3,4)
proof (induction chs arbitrary: h fs)
  case Nil
  then show ?case by (auto simp: slots_after_def)
next
  case (Cons ch chs)
  let ?p = "ms_path ch" and ?h = "set_slot (ms_ch_id ch) \<lparr>sl_conns = [], sl_current = None\<rparr> h"
  obtain a fs1 where a: "prepare_socket_path F ?p fs = (a, fs1)" by fastforce
  note prep = prepare_socket_path_effect [OF assms(1) a]
  show ?case
  proof (cases a)
    case (Inl e)
    then have "r = Inl e" "fs' = fs1" using Cons.prems(2) a by simp_all
    then show ?thesis using prep(1,2) Cons.prems(1) by (auto simp: image_iff)
  next
    case (Inr u)
    then have free: "fs1 ?p = None" and unforced: "\<And>t. fs ?p = Some t \<Longrightarrow> t = Socket \<or> is_symlink t"
      using prep(3,4) by auto
    obtain e fs2 where e: "bnd ?p fs1 = (e, fs2)" by fastforce
    note bound = bind_effect [OF assms(2) e]
    show ?thesis
    proof (cases e)
      case (Some err)
      then have "r = Inl err" "fs' = fs1" using Cons.prems(2) a e Inr bound by simp_all
      then show ?thesis using prep(1) unforced Cons.prems(1) by (auto simp: image_iff)
    next
      case None
      then have rest: "bind_sockets F bnd chs ?h fs2 = (r, fs')" and fs2: "fs2 = fs1(?p \<mapsto> Socket)"
        using Cons.prems(2) a e Inr bound by simp_all
      have d: "distinct (map ms_path chs)" "?p \<notin> ms_path ` set chs" using Cons.prems(1) by auto
      have keep: "fs2 q = fs q" if "q \<noteq> ?p" "fs q \<noteq> None" for q using that fs2 prep(1) by simp
      note IH = Cons.IH [OF d(1) rest]
      have "fs' ?p = Some Socket" using IH d(2) fs2 by simp
      moreover have "fs' q = fs q" if "q \<notin> ms_path ` set (ch # chs)" "fs q \<noteq> None" for q
        using that IH keep [of q] by simp
      moreover have "fs' p = Some t \<and> (\<forall>h'. r \<noteq> Inr h')"
        if "p \<in> ms_path ` set (ch # chs)" "fs p = Some t" "t \<noteq> Socket" "\<not> is_symlink t" for p t
        using that IH keep [of p] unforced d(2) by (cases "p = ?p") auto
      ultimately show ?thesis using IH unfolding slots_after_Cons by auto
    qed
  qed
qed

text \<open>C39: the host starts with exactly its sockets.  For channels with different socket paths, when
  \<open>run_host\<close> gets to its tasks a socket is bound at each path, the link is open, and the state is the
  initial state of the relay for the channel ids given; when it fails, the link is closed again.
  In both cases files elsewhere are untouched, and a file at one of the paths that is neither a
  socket nor a symbolic link stays as it is and makes the start fail.\<close>

theorem host_starts:
  assumes "fs_calls_ok F" "bind_ok bnd" "distinct (map ms_path channels)"
    and "run_host_start E reg F bnd link_device channels fs io = (r, fs', io')"
  shows "(\<forall>q. q \<notin> ms_path ` set channels \<and> fs q \<noteq> None \<longrightarrow> fs' q = fs q)
    \<and> (\<forall>p \<in> ms_path ` set channels. \<forall>t. fs p = Some t \<and> t \<noteq> Socket \<and> \<not> is_symlink t \<longrightarrow>
         fs' p = Some t \<and> (\<exists>e. r = Inl e))
    \<and> (\<exists>cs. io_log io' = io_log io @ cs
        \<and> (case r of
             Inr (usb, h) \<Rightarrow> h = host_new (map ms_ch_id channels) \<and> leaked cs = [usb]
               \<and> (\<forall>p \<in> ms_path ` set channels. fs' p = Some Socket)
           | Inl e \<Rightarrow> leaked cs = []))"
proof -
  let ?h = "\<lparr>ho_usb = wr_new, ho_link = rd_new (), ho_slots = (\<lambda>c. None)\<rparr>"
  obtain s io1 where s: "open_serial E (reg (io_n io)) link_device 0 io = (s, io1)" by fastforce
  from open_serial_opens [OF s] obtain cs where cs: "io_log io1 = io_log io @ cs"
    "\<And>fs. open_fds cs fs = (case s of Inl e \<Rightarrow> fs | Inr f \<Rightarrow> f # fs)" by blast
  show ?thesis
  proof (cases s)
    case (Inl e)
    then show ?thesis using assms(4) s cs by (auto simp: run_host_start_def leaked_def)
  next
    case (Inr usb)
    obtain b fs1 where b: "bind_sockets F bnd channels ?h fs = (b, fs1)" by fastforce
    note eff = bind_sockets_effect [OF assms(1-3) b]
    show ?thesis
    proof (cases b)
      case (Inl e)
      then have "r = Inl (SocketError e)" "fs' = fs1" "io_log io' = io_log io @ (cs @ [CloseFd usb])"
        "leaked (cs @ [CloseFd usb]) = []"
        using assms(4) s b cs \<open>s = Inr usb\<close> by (auto simp: run_host_start_def close_raw_def leaked_def)
      then show ?thesis using eff by auto
    next
      case ok: (Inr h)
      then have "r = Inr (usb, h)" "fs' = fs1" "io_log io' = io_log io @ cs" "leaked cs = [usb]"
        using assms(4) s b cs \<open>s = Inr usb\<close> by (auto simp: run_host_start_def leaked_def)
      then show ?thesis using eff ok by (auto simp: slots_after_new)
    qed
  qed
qed

text \<open>A stale socket at the first of two paths.\<close>

definition example_bind :: bind_fn where
  "example_bind p fs = (if fs p = None then (None, fs(p \<mapsto> Socket)) else (Some FsAlreadyExists, fs))"

lemma example_bind_ok: "bind_ok example_bind"
  by (simp add: bind_ok_def example_bind_def)

abbreviation example_sockets :: "mcu_spec list" where
  "example_sockets \<equiv> [\<lparr>ms_ch_id = 0, ms_path = ''/tmp/klipper_mcu0'', ms_baud = 0\<rparr>,
     \<lparr>ms_ch_id = 1, ms_path = ''/tmp/klipper_mcu1'', ms_baud = 0\<rparr>]"

lemmas start_eval = open_serial_def async_apply_termios_def async_from_raw_fd_def example_env_def
  prepare_socket_path_def example_fs_calls_def example_bind_def Let_def

theorem host_starts_witness:
  "\<exists>usb fs' io'. run_host_start example_env (\<lambda>n. None) example_fs_calls example_bind ''/dev/ttyGS0''
       example_sockets example_files io_new = (Inr (usb, host_new [0, 1]), fs', io')
     \<and> fs' ''/tmp/klipper_mcu0'' = Some Socket \<and> fs' ''/tmp/klipper_mcu1'' = Some Socket
     \<and> fs' ''/tmp/other'' = Some (Regular [1, 2, 3]) \<and> leaked (io_log io') = [usb]"
proof -
  obtain r fs' io' where r: "run_host_start example_env (\<lambda>n. None) example_fs_calls example_bind ''/dev/ttyGS0''
      example_sockets example_files io_new = (r, fs', io')" by (rule prod_cases3)
  then have "\<exists>v. r = Inr v"
    by (auto simp: run_host_start_def start_eval example_files_def)
  then obtain usb h where v: "r = Inr (usb, h)" by auto
  have d: "distinct (map ms_path example_sockets)" by simp
  have "example_files ''/tmp/other'' = Some (Regular [1, 2, 3])" by (simp add: example_files_def)
  then show ?thesis using host_starts [OF example_fs_calls_ok example_bind_ok d r] v r
    by (auto simp: io_new_def)
qed

text \<open>Two channels with the same path are not refused: the second start removes the socket that the
  first has just bound, so Klipper can only reach the second channel.  The smart host reports an error
  for the same command line.\<close>

lemma shared_socket_path:
  "let chs = [\<lparr>ms_ch_id = 0, ms_path = ''/tmp/mcu'', ms_baud = 0\<rparr>, \<lparr>ms_ch_id = 1, ms_path = ''/tmp/mcu'', ms_baud = 0\<rparr>] in
   (\<exists>h fs'. bind_sockets example_fs_calls example_bind chs (host_new []) example_files = (Inr h, fs')
      \<and> ho_slots h 0 \<noteq> None \<and> ho_slots h 1 \<noteq> None)
   \<and> (\<exists>fs'. bind_all example_bind chs example_files = (Some FsAlreadyExists, fs'))"
  by (simp add: start_eval example_files_def set_slot_def)


section \<open>The sockets of the smart host\<close>

lemma prepare_paths_slots:
  "prepare_paths F chs h fs = (Inr h', fs') \<Longrightarrow>
     h' = h\<lparr>sh_slots := (\<lambda>c. if c \<in> ms_ch_id ` set chs then Some None else sh_slots h c)\<rparr>"
proof (induction chs arbitrary: h fs)
  case (Cons ch chs)
  then obtain fs1 where "prepare_paths F chs (h\<lparr>sh_slots := (sh_slots h)(ms_ch_id ch \<mapsto> None)\<rparr>) fs1 = (Inr h', fs')"
    by (auto split: prod.splits sum.splits)
  from Cons.IH [OF this] show ?case by (auto simp: fun_eq_iff)
qed simp

lemma watch_fold: "fold (\<lambda>ch w. w(ms_ch_id ch \<mapsto> None)) chs w = (\<lambda>c. if c \<in> ms_ch_id ` set chs then Some None else w c)"
  by (induction chs arbitrary: w) (auto simp: fun_eq_iff)

text \<open>The smart host starts with an empty slot and an empty watch for each of its channels.\<close>

lemma smart_host_starts:
  assumes "run_smart_host_start E reg F bnd link_device channels fs io = (Inr (usb, h, g), fs', io')"
  shows "sh_ctrl h = [] \<and> sh_slots h = (\<lambda>c. if c \<in> ms_ch_id ` set channels then Some None else None)
    \<and> g = gatherer_new (map ms_ch_id channels)"
  using assms prepare_paths_slots [of F channels "\<lparr>sh_ctrl = [], sh_slots = (\<lambda>c. None)\<rparr>" fs]
  by (auto simp: run_smart_host_start_def watch_fold gatherer_new_def Let_def split: prod.splits sum.splits option.splits)


section \<open>The ports of the smart exporter\<close>

lemma smart_open_uarts_sends:
  assumes "smart_open_uarts E reg connect chs usb txs io = (Inr (usb', txs'), io')" "wr_alive usb"
  shows "\<exists>ds. length ds = length chs
    \<and> wr_sent usb' = wr_sent usb @ concat (map (\<lambda>(ch, d). dict_frames (ms_ch_id ch) d) (zip chs ds))
    \<and> txs' = (\<lambda>c. if c \<in> ms_ch_id ` set chs then Some wr_new else txs c)"
  using assms
proof (induction chs arbitrary: usb txs io)
  case Nil
  then show ?case by simp
next
  case (Cons ch chs)
  then obtain d usb1 io1 where s: "send_dictionary (ms_ch_id ch) d usb = (True, usb1)"
    "smart_open_uarts E reg connect chs usb1 (txs(ms_ch_id ch \<mapsto> wr_new)) io1 = (Inr (usb', txs'), io')"
    by (auto simp: Let_def split: prod.splits sum.splits bool.splits)
  then have u: "wr_alive usb1" "wr_sent usb1 = wr_sent usb @ dict_frames (ms_ch_id ch) d"
    using send_dictionary_alive [OF Cons.prems(2), of "ms_ch_id ch" d] by auto
  from Cons.IH [OF s(2) u(1)] obtain ds where "length ds = length chs"
    "wr_sent usb' = wr_sent usb1 @ concat (map (\<lambda>(ch, d). dict_frames (ms_ch_id ch) d) (zip chs ds))"
    "txs' = (\<lambda>c. if c \<in> ms_ch_id ` set chs then Some wr_new else (txs(ms_ch_id ch \<mapsto> wr_new)) c)" by blast
  then show ?case using u(2) by (intro exI [of _ "d # ds"]) (auto simp: fun_eq_iff)
qed

text \<open>The smart exporter starts with a queue for each of its channels, and the first frames it gives to the
  USB writer are the dictionaries of its MCUs, one after the other.\<close>

lemma smart_exporter_starts:
  assumes "run_smart_exporter_start E reg connect link_device channels io = (Inr (usb, usb_tx, cmd_txs), io')"
  shows "\<exists>ds. length ds = length channels
    \<and> wr_sent usb_tx = concat (map (\<lambda>(ch, d). dict_frames (ms_ch_id ch) d) (zip channels ds))
    \<and> cmd_txs = (\<lambda>c. if c \<in> ms_ch_id ` set channels then Some wr_new else None)"
proof -
  obtain io1 where "smart_open_uarts E reg connect channels wr_new (\<lambda>c. None) io1 = (Inr (usb_tx, cmd_txs), io')"
    using assms by (auto simp: run_smart_exporter_start_def split: prod.splits sum.splits)
  from smart_open_uarts_sends [OF this] show ?thesis by (simp add: wr_new_def)
qed

text \<open>The start is the first part of a run of the smart exporter, which opens the channels one after the other.\<close>

lemma smart_open_uarts_runs:
  assumes "smart_open_uarts E reg connect chs usb txs io = (Inr (usb', txs'), io')"
  shows "\<exists>ds. length ds = length chs \<and> (\<forall>link readers. rd_alive link \<longrightarrow> (\<exists>readers'.
    smart_exporter_step\<^sup>*\<^sup>*
      \<lparr>sx_todo = zip (map ms_ch_id chs) ds, sx_usb = usb, sx_link = link, sx_cmds = txs, sx_readers = readers\<rparr>
      \<lparr>sx_todo = [], sx_usb = usb', sx_link = link, sx_cmds = txs', sx_readers = readers'\<rparr>))"
  using assms
proof (induction chs arbitrary: usb txs io)
  case Nil
  then show ?case by auto
next
  case (Cons ch chs)
  then obtain d usb1 io1 where s: "send_dictionary (ms_ch_id ch) d usb = (True, usb1)"
    "smart_open_uarts E reg connect chs usb1 (txs(ms_ch_id ch \<mapsto> wr_new)) io1 = (Inr (usb', txs'), io')"
    by (auto simp: Let_def split: prod.splits sum.splits bool.splits)
  let ?S = "\<lambda>todo usb link txs readers. \<lparr>sx_todo = todo, sx_usb = usb, sx_link = link, sx_cmds = txs, sx_readers = readers\<rparr>"
  from Cons.IH [OF s(2)] obtain ds where ds: "length ds = length chs"
    "\<And>link readers. rd_alive link \<Longrightarrow> \<exists>readers'. smart_exporter_step\<^sup>*\<^sup>*
       (?S (zip (map ms_ch_id chs) ds) usb1 link (txs(ms_ch_id ch \<mapsto> wr_new)) readers) (?S [] usb' link txs' readers')" by blast
  show ?case
  proof (intro exI [of _ "d # ds"] conjI allI impI)
    fix link :: "(unit, u8, payload_frame) reader" and readers
    assume link: "rd_alive link"
    let ?s = "?S (zip (map ms_ch_id (ch # chs)) (d # ds)) usb link txs readers"
    let ?r = "readers(ms_ch_id ch \<mapsto> \<lparr>mr_alive = True, mr_recv = []\<rparr>)"
    from ds(2) [OF link] obtain readers' where "smart_exporter_step\<^sup>*\<^sup>*
       (?S (zip (map ms_ch_id chs) ds) usb1 link (txs(ms_ch_id ch \<mapsto> wr_new)) ?r) (?S [] usb' link txs' readers')" by blast
    moreover have "smart_exporter_step ?s (?S (zip (map ms_ch_id chs) ds) usb1 link (txs(ms_ch_id ch \<mapsto> wr_new)) ?r)"
      using smart_exporter_step.open_channel [of ?s] link s(1) by (simp add: sx_open_def)
    ultimately show "\<exists>readers'. smart_exporter_step\<^sup>*\<^sup>* ?s (?S [] usb' link txs' readers')"
      by (meson converse_rtranclp_into_rtranclp)
  qed (simp add: ds(1))
qed

lemma smart_exporter_start_reaches:
  assumes "run_smart_exporter_start E reg connect link_device channels io = (Inr (usb, usb_tx, cmd_txs), io')"
  shows "\<exists>ds readers. length ds = length channels \<and> smart_exporter_reaches (zip (map ms_ch_id channels) ds)
    \<lparr>sx_todo = [], sx_usb = usb_tx, sx_link = rd_new (), sx_cmds = cmd_txs, sx_readers = readers\<rparr>"
proof -
  obtain io1 where "smart_open_uarts E reg connect channels wr_new (\<lambda>c. None) io1 = (Inr (usb_tx, cmd_txs), io')"
    using assms by (auto simp: run_smart_exporter_start_def split: prod.splits sum.splits)
  from smart_open_uarts_runs [OF this] obtain ds where "length ds = length channels"
    "\<forall>link readers. rd_alive link \<longrightarrow> (\<exists>readers'. smart_exporter_step\<^sup>*\<^sup>*
      \<lparr>sx_todo = zip (map ms_ch_id channels) ds, sx_usb = wr_new, sx_link = link, sx_cmds = (\<lambda>c. None), sx_readers = readers\<rparr>
      \<lparr>sx_todo = [], sx_usb = usb_tx, sx_link = link, sx_cmds = cmd_txs, sx_readers = readers'\<rparr>)"
    by blast
  moreover have "rd_alive (rd_new () :: (unit, u8, payload_frame) reader)" by (simp add: rd_new_def)
  ultimately show ?thesis unfolding smart_exporter_new_def by blast
qed

end
