(* ===== verification/Logging.thy ===== *)
theory Logging
  imports Prelude
begin

text \<open>
  \<^verbatim>\<open>logging.rs\<close>: \<open>init\<close> composes the subscriber of the process from a filter, a layer for standard error, a
  rolling file in the log directory and, when the feature is compiled in, the journal, and installs it.  The
  crates \<open>tracing_subscriber\<close>, \<open>tracing_appender\<close> and \<open>tracing_journald\<close> are parameters: what they return may be
  different at every call.  A rolling file that cannot be opened makes its constructor panic.
\<close>


section \<open>Data\<close>

datatype layer = StderrLayer | FileLayer string string nat | JournaldLayer

record 'f subscriber =
  su_filter :: 'f
  su_layers :: "layer list"

text \<open>The results of the calls, by the number of calls made so far.\<close>

record 'f log_env =
  le_var :: "nat \<Rightarrow> string \<Rightarrow> string option"
  le_filter :: "nat \<Rightarrow> 'f option"
  le_filter_new :: "string \<Rightarrow> 'f"
  le_is_dir :: "nat \<Rightarrow> string \<Rightarrow> bool"
  le_create_dir :: "nat \<Rightarrow> string \<Rightarrow> bool"
  le_daily :: "nat \<Rightarrow> string \<Rightarrow> string \<Rightarrow> nat option"
  le_journald :: "nat \<Rightarrow> bool"
  le_has_journald :: bool

text \<open>The global subscriber, the file writers whose guards have been leaked, and the messages on standard
  error about directories that cannot be created.\<close>

record 'f log_state =
  ls_n :: nat
  ls_global :: "'f subscriber option"
  ls_writers :: "nat list"
  ls_stderr :: "string list"

definition log_state_new :: "'f log_state" where
  "log_state_new = \<lparr>ls_n = 0, ls_global = None, ls_writers = [], ls_stderr = []\<rparr>"

abbreviation log_call :: "'f log_state \<Rightarrow> 'f log_state" where
  "log_call s \<equiv> s\<lparr>ls_n := Suc (ls_n s)\<rparr>"


section \<open>Operations\<close>

definition ensure_log_dir :: "'f log_env \<Rightarrow> string \<Rightarrow> 'f log_state \<Rightarrow> bool \<times> 'f log_state" where
  "ensure_log_dir L dir s =
     (if le_is_dir L (ls_n s) dir then (True, log_call s)
      else let s = log_call s in
        if le_create_dir L (ls_n s) dir then (True, log_call s)
        else (False, (log_call s)\<lparr>ls_stderr := ls_stderr s @ [dir]\<rparr>))"

definition log_dir :: "'f log_env \<Rightarrow> 'f log_state \<Rightarrow> string" where
  "log_dir L s = (case le_var L (ls_n s) ''SERIALMUX_LOG_DIR'' of Some dir \<Rightarrow> dir | None \<Rightarrow> ''/var/log/serialmux'')"

definition file_layer :: "'f log_env \<Rightarrow> string \<Rightarrow> string \<Rightarrow> 'f log_state \<Rightarrow> (layer option \<times> 'f log_state) option" where
  "file_layer L dir program s =
     (let (ok, s) = ensure_log_dir L dir s in
      if ok then do {
        appender \<leftarrow> le_daily L (ls_n s) dir program;
        Some (Some (FileLayer dir program appender), (log_call s)\<lparr>ls_writers := ls_writers s @ [appender]\<rparr>)
      } else Some (None, s))"

definition journald_layers :: "'f log_env \<Rightarrow> 'f log_state \<Rightarrow> layer list \<times> 'f log_state" where
  "journald_layers L s =
     (if le_has_journald L then (if le_journald L (ls_n s) then [JournaldLayer] else [], log_call s) else ([], s))"

definition try_init :: "'f subscriber \<Rightarrow> 'f log_state \<Rightarrow> 'f log_state" where
  "try_init sub s = (case ls_global s of None \<Rightarrow> s\<lparr>ls_global := Some sub\<rparr> | Some _ \<Rightarrow> s)"

definition logging_init :: "'f log_env \<Rightarrow> string \<Rightarrow> 'f log_state \<Rightarrow> 'f log_state option" where
  "logging_init L program s =
     (let f = (case le_filter L (ls_n s) of Some f \<Rightarrow> f | None \<Rightarrow> le_filter_new L ''info'');
          s = log_call s;
          dir = log_dir L s;
          s = log_call s
      in do {
        (file, s) \<leftarrow> file_layer L dir program s;
        let (journald, s) = journald_layers L s;
        Some (try_init \<lparr>su_filter = f, su_layers = StderrLayer # (case file of Some l \<Rightarrow> [l] | None \<Rightarrow> []) @ journald\<rparr> s)
      })"


section \<open>Repeated initialisation\<close>

fun logging_inits :: "'f log_env \<Rightarrow> string list \<Rightarrow> 'f log_state \<Rightarrow> 'f log_state option" where
  "logging_inits L [] s = Some s"
| "logging_inits L (p # ps) s = do { s \<leftarrow> logging_init L p s; logging_inits L ps s }"

lemma file_layer_cases:
  assumes "file_layer L dir p s = Some (fl, s')"
  obtains w where "fl = Some (FileLayer dir p w)" "ls_writers s' = ls_writers s @ [w]" "ls_global s' = ls_global s"
  | "fl = None" "ls_writers s' = ls_writers s" "ls_global s' = ls_global s" "\<not> le_is_dir L (ls_n s) dir"
  using assms by (auto simp: file_layer_def ensure_log_dir_def Let_def split: if_splits Option.bind_splits)

lemma journald_layers_keep:
  "journald_layers L s = (ls, s') \<Longrightarrow> ls_global s' = ls_global s \<and> ls_writers s' = ls_writers s \<and> set ls \<subseteq> {JournaldLayer}"
  by (auto simp: journald_layers_def split: if_splits)

lemma logging_init_cases:
  assumes "logging_init L p s = Some s'"
  obtains f n dir fl s1 js s2 where "file_layer L dir p (s\<lparr>ls_n := n\<rparr>) = Some (fl, s1)" "journald_layers L s1 = (js, s2)"
    "s' = try_init \<lparr>su_filter = f, su_layers = StderrLayer # (case fl of Some l \<Rightarrow> [l] | None \<Rightarrow> []) @ js\<rparr> s2"
  using assms that by (auto simp: logging_init_def Let_def split: Option.bind_splits prod.splits)

text \<open>The first call installs a subscriber that always writes to standard error, and to a file exactly when a
  writer was started.\<close>

lemma logging_init_first:
  assumes "logging_init L p s = Some s'" "ls_global s = None"
  shows "\<exists>sub. ls_global s' = Some sub \<and> StderrLayer \<in> set (su_layers sub)
    \<and> ((\<exists>dir w. FileLayer dir p w \<in> set (su_layers sub)) \<longleftrightarrow> ls_writers s' \<noteq> ls_writers s)"
  using assms(1)
proof (cases rule: logging_init_cases)
  case (1 f n dir fl s1 js s2)
  then show ?thesis using journald_layers_keep [OF 1(2)] assms(2)
    by (cases rule: file_layer_cases [OF 1(1)]) (auto simp: try_init_def)
qed

text \<open>A later call leaves the subscriber, but not the process, as it is: it starts one more writer whenever the
  directory is there.\<close>

lemma logging_init_later:
  assumes "logging_init L p s = Some s'" "ls_global s = Some sub"
  shows "ls_global s' = Some sub \<and> ((\<forall>n dir. le_is_dir L n dir) \<longrightarrow> (\<exists>w. ls_writers s' = ls_writers s @ [w]))"
  using assms(1)
proof (cases rule: logging_init_cases)
  case (1 f n dir fl s1 js s2)
  then show ?thesis using journald_layers_keep [OF 1(2)] assms(2)
    by (cases rule: file_layer_cases [OF 1(1)]) (auto simp: try_init_def)
qed

lemma logging_inits_keep:
  assumes "logging_inits L ps s = Some s'" "ls_global s = Some sub"
  shows "ls_global s' = Some sub \<and> ((\<forall>n dir. le_is_dir L n dir) \<longrightarrow> length (ls_writers s') = length (ls_writers s) + length ps)"
  using assms
proof (induction ps arbitrary: s)
  case (Cons p ps)
  then obtain s1 where s: "logging_init L p s = Some s1" "logging_inits L ps s1 = Some s'"
    by (auto split: Option.bind_splits)
  note l = logging_init_later [OF s(1) Cons.prems(2)]
  then show ?case using Cons.IH [OF s(2)] by fastforce
qed simp

text \<open>It panics only where the rolling file does.\<close>

lemma logging_inits_return:
  assumes "\<And>n dir p. le_daily L n dir p \<noteq> None"
  shows "\<exists>s'. logging_inits L ps s = Some s'"
proof (induction ps arbitrary: s)
  case (Cons p ps)
  have "file_layer L dir p s \<noteq> None" for dir s using assms by (auto simp: file_layer_def simp del: not_None_eq split: prod.split Option.bind_splits)
  then have "\<exists>s1. logging_init L p s = Some s1" by (simp add: logging_init_def Let_def split: prod.split Option.bind_splits)
  then show ?case using Cons.IH by fastforce
qed simp

end
