(* ===== verification/Spec2Isabelle.thy ===== *)
theory Spec2Isabelle
  imports Link Serial Mcu_Writes Pty_Props Tcp_Props Channel_Props Serial_Relay Cli_Props Tunnel_Props
    Relay_Props Smart_Join Bridge_Run Logging
begin

text \<open>
  Verification of \<^verbatim>\<open>serialmux-rs\<close>: two Rust programs that carry the serial ports of a 3D printer's
  micro-controllers (MCUs) over one USB link.  Paths are relative to \<^verbatim>\<open>src/serialmux-rs/src\<close>.

  \<^bold>\<open>The program.\<close>  The daemon \<^verbatim>\<open>serialmux\<close> runs on both ends of the link: the \<^emph>\<open>exporter\<close> has the
  UARTs of the MCUs, the \<^emph>\<open>host\<close> runs Klipper.  A single-threaded event loop (\<^verbatim>\<open>daemon.rs\<close>) owns the
  link: a streaming frame parser and a transmit ring buffer (\<^verbatim>\<open>protocol.rs\<close>).  Frames are dispatched
  to channels (\<^verbatim>\<open>channel.rs\<close>): an MCU channel (UART, exporter), a PTY channel (host), and the two sides
  of a TCP tunnel.  All channels share the transmit buffer, which the daemon protects by pausing
  their sources above a high-water mark.  \<^verbatim>\<open>main.rs\<close> parses the command line, builds the channels and
  starts the loop; \<^verbatim>\<open>serial.rs\<close> opens ports and finds USB devices.  The second program,
  \<^verbatim>\<open>windlass-bridge\<close> (\<^verbatim>\<open>bin/windlass_bridge.rs\<close>, \<^verbatim>\<open>windlass/\<close>), is an asynchronous relay of the same
  purpose for Klipper frames: transparent (\<^verbatim>\<open>exporter.rs\<close>, \<^verbatim>\<open>host.rs\<close>) or as a smart proxy
  (\<^verbatim>\<open>smart_exporter.rs\<close>, \<^verbatim>\<open>smart_host.rs\<close>) that terminates the Klipper protocol on both ends and moves
  payloads and MCU dictionaries; its codecs are in \<^verbatim>\<open>framing.rs\<close>.

  \<^bold>\<open>How it is modelled.\<close>  A panic is \<open>None\<close> of the option monad, errors are values of sum types, machine
  integers are words (\<open>u8\<close>, \<open>u16\<close>, \<open>u32\<close>), \<open>usize\<close> and durations in nanoseconds are \<open>nat\<close> with the
  underflow of a subtraction written out (\<open>Prelude\<close>).  System calls, the clock and third-party code
  (\<open>crc32fast\<close>, \<open>mio\<close>, \<open>clap\<close>, the crates \<open>windlass\<close> and \<open>anchor\<close>) are parameters: the record \<open>env\<close> of
  \<open>Io\<close> gives the result of each call as a function of the number of calls made so far, so a run may
  see any sequence of results.  What is assumed of them is \<open>env_ok\<close> (reads and writes stay within the
  buffer, the clock does not go back), \<open>fs_calls_ok\<close> and \<open>bind_ok\<close> (file system calls), and \<open>receives\<close>
  and \<open>anchor_ok\<close> (the transport hands its context to \<open>dispatch_raw\<close>).  Handlers thread the state \<open>io\<close>: the shared
  transmit queue, the call counter and the trace of the calls that have an effect outside.

  \<^bold>\<open>The theories.\<close>
  \<^item> Shared: \<open>Prelude\<close> (machine types, checked slices, little-endian encodings), \<open>Io\<close> (environment, trace,
    tokens, registry helpers), \<open>Rust_Str\<close> (functions of \<open>str\<close>).
  \<^item> Interfaces as locales: \<open>Byte_Queue\<close> (bounded queue of whole blocks), \<open>Stream_Decoder\<close> (a decoder whose
    result does not depend on how its input is cut), \<open>Codec\<close> (\<open>tokio\<close> decoders, a sublocale of the former),
    \<open>Channel_Spec\<close> (the trait \<open>Channel\<close> and its contract), \<open>Monitor\<close> (protocols over the trace of a
    channel), \<open>Channel_Writes\<close> (channels that write what they are given), the sending side in \<open>Channel_Trail\<close>
    (channels that send what they read), \<open>Transition\<close> (invariants of step relations).  Each is interpreted on the definitions of the program.
  \<^item> \<^verbatim>\<open>protocol.rs\<close>: \<open>Frame\<close>, with the reference parser in \<open>Frame_Spec\<close> and its refinement in
    \<open>Frame_Props\<close>; \<open>Tx_Queue\<close>; both joined in \<open>Link\<close>.  \<open>Crc32\<close> is the CRC of the earlier C daemon, an instance
    of the hash parameter for the examples.
  \<^item> \<^verbatim>\<open>serial.rs\<close>: \<open>Serial\<close>, \<open>Discovery\<close>.
  \<^item> \<^verbatim>\<open>channel.rs\<close>: \<open>Mcu\<close>, \<open>Pty\<close>, \<open>Tcp_Conn\<close>, \<open>Tcp_Source\<close>, \<open>Tcp_Dest\<close>, and \<open>Channel\<close> for \<open>Box<dyn Channel>\<close>;
    properties in \<open>Mcu_Props\<close> and \<open>Mcu_Writes\<close>, \<open>Pty_Props\<close>, \<open>Tcp_Props\<close>, \<open>Channel_Props\<close>; the calls to a channel
    inside a larger run in \<open>Channel_Trail\<close>.
  \<^item> \<^verbatim>\<open>daemon.rs\<close>: \<open>Daemon\<close>, its invariant in \<open>Daemon_Inv\<close>, properties in \<open>Daemon_Props\<close>; the
    runs of the loop while the link is open in \<open>Daemon_Session\<close>, two daemons over one link in \<open>Handshake\<close>;
    the part of one channel in a run of the loop in \<open>Daemon_Parts\<close>, and from the port of one side to the port of the
    other in \<open>Serial_Relay\<close>.
  \<^item> \<^verbatim>\<open>main.rs\<close>: \<open>Cli\<close>, \<open>Cli_Props\<close>.
  \<^item> \<^verbatim>\<open>windlass/framing.rs\<close>: \<open>Tunnel_Codec\<close>, \<open>Tunnel_Props\<close>.
  \<^item> \<^verbatim>\<open>windlass/exporter.rs\<close> and \<^verbatim>\<open>host.rs\<close>: the tasks in \<open>Relay_Tasks\<close>, the two systems in \<open>Relay\<close>,
    properties in \<open>Relay_Props\<close>.
  \<^item> \<^verbatim>\<open>windlass/smart_exporter.rs\<close> and \<^verbatim>\<open>smart_host.rs\<close>: \<open>Smart\<close> (operations and the host as a
    system of tasks) and \<open>Smart_Exporter\<close> (the exporter as one); invariants of both, and properties, in \<open>Smart_Props\<close>,
    \<open>Smart_Inv\<close> and \<open>Smart_Exporter\<close>; the two joined in \<open>Smart_Join\<close>.
  \<^item> \<^verbatim>\<open>bin/windlass_bridge.rs\<close>, \<^verbatim>\<open>windlass/mod.rs\<close>, \<^verbatim>\<open>windlass/async_serial.rs\<close>: \<open>Bridge_Cli\<close>, \<open>Bridge_Setup\<close>; the
    start of the four relays in \<open>Bridge_Run\<close>.
  \<^item> \<^verbatim>\<open>logging.rs\<close>: \<open>Logging\<close>.

  \<^bold>\<open>What is shown.\<close>
  \<^item> The link: frames arrive whole, in order and uncorrupted through ring buffer, partial writes and
    chunked reads (below); the parser refines its reference, is independent of chunking, never panics,
    and delivers only frames whose CRC-valid encoding stands in the stream.
  \<^item> The channels: every handler of every channel keeps its invariant and the contract of the trait, in
    any sequence of calls; the MCU channel always tells the host the state of the firmware; the bytes written to
    the UART and to the PTY are those of the data frames, in order; the symbolic link that Klipper opens is made for
    a PTY and its removal requested with the end of the PTY, and descriptors are used only while they are open; the TCP
    tunnel relays streams completely within the bounds of its buffers, on both sides, and beyond them loses data or
    closes the connection.
  \<^item> The daemon: any number of iterations of the loop succeeds, whatever the system calls return; the link
    flags, the queue and all channels agree in every reachable state; what has been written to the
    link is always a sequence of whole frames up to a partial last one; \<open>poll\<close> never sleeps past a timer, with one
    exception that is stated, and a silent link is closed; of two daemons, one dispatches in order and without a gap the
    frames that the queue of the other had room for, and comes up with its hello, with all its channels;
    the bytes that a UART or PTY of one side receives are, in order and without others between them, what the channel of the
    same id writes to the port of the other side.
  \<^item> The command lines: exactly the strings of a grammar are accepted as specifications, each specification is read back
    from its printed form, and \<open>main\<close> reaches the loop in a reachable state with the configured channels.
  \<^item> The bridge: the codecs round-trip under any cutting, resynchronise and keep bounded buffers; for
    every interleaving of the tasks the frames of a channel arrive in order and unmixed in both directions;
    the same holds of the payloads and commands of the smart proxy, with connections that come and go and whose aborted
    tasks may go on for a while; dictionaries arrive and are served completely, and everything that a connection of
    Klipper is sent is accounted for;
    ports and sockets are set up without leaks and without touching other files.

  \<^bold>\<open>Loops and bounds.\<close>  The loops of the parser, the ring buffer and the reads are total functions with
  termination proofs.  The event loop and the tasks of the relays run forever: the former is modelled
  for any finite list of poll results, the latter as step relations.  Waiting for a USB device is a
  \<open>partial_function\<close> that is shown to return once the device is there.

  \<^bold>\<open>Not modelled.\<close>  The log messages (of \<^verbatim>\<open>logging.rs\<close> the start is modelled, on its own, and is no part of the
  models of \<open>main\<close>), the parsing of raw arguments by \<open>clap\<close>, the scheduler of \<open>tokio\<close> (its channels are queues and
  its tasks take turns in any order; a task that was aborted may take any number of turns more), sleeping (only the
  clock shows it), and the crates \<open>windlass\<close> and \<open>anchor\<close>, whose transports are parameters.
  The C daemon, of which only the CRC is here, and the installation scripts are not part of the Rust program.

  \<^bold>\<open>Limits of the joined statements.\<close>  \<open>serial_relayed\<close> is about order and integrity, not about completeness: the program drops
  frames that do not fit the transmit queue, data for a closed port and what is queued when the link is lost.  That nothing is
  lost while none of this happens is shown part by part (\<open>link_delivers\<close>, \<open>daemon_to_daemon\<close>, \<open>mcu_delivers\<close>,
  \<open>pty_delivers\<close>).
\<close>

section \<open>The link, end to end\<close>

text \<open>C1: frames pushed to the ring buffer of one side, in any interleaving with non-blocking writes
  that each accept any part of the segment offered (or fail), and read by the parser of the
  other side in chunks of any size: the frames delivered are always a prefix, in order, of the
  frames the queue took, and all of them once the queue has drained.  No frame is split,
  reordered, duplicated or corrupted by the link layer, and neither side panics.\<close>

theorem link_delivers:
  assumes ops: "list_all op_ok ops"
    and frames: "\<forall>d \<in> set (pushed ops). \<exists>t c p. d = build_frame crc t c p \<and> length p \<le> MAX_PAYLOAD"
  shows "\<exists>q sent taken.
     run_queue enqueue drain_to_fd queued (LINK_TXBUF_SIZE - 1) ops txq_new
       = Some (q, sent, map (enc crc) taken)
     \<and> subseq (map (enc crc) taken) (pushed ops)
     \<and> (length (concat (pushed ops)) < LINK_TXBUF_SIZE \<longrightarrow> map (enc crc) taken = pushed ops)
     \<and> (\<forall>chunks. concat chunks = sent \<longrightarrow>
          (\<exists>fp fs. feed_chunks crc chunks = Some (fp, fs)
             \<and> prefix fs taken \<and> (queued q = [] \<longrightarrow> fs = taken)))"
proof -
  obtain q sent ds where r:
    "run_queue enqueue drain_to_fd queued (LINK_TXBUF_SIZE - 1) ops txq_new = Some (q, sent, ds)"
    "sent @ queued q = concat ds" "subseq ds (pushed ops)"
    "length (concat (pushed ops)) \<le> LINK_TXBUF_SIZE - 1 \<longrightarrow> ds = pushed ops"
    using txq.run_fifo [OF txq_new_ok(1) ops] by auto
  have all: "length (concat (pushed ops)) < LINK_TXBUF_SIZE \<longrightarrow> ds = pushed ops" using r(4) by linarith
  obtain taken where t: "ds = map (enc crc) taken" "\<forall>(t, c, p) \<in> set taken. length p \<le> MAX_PAYLOAD"
    using frames_of_blocks [of ds crc] frames mem_subseq [OF r(3)] by blast
  have "\<forall>chunks. concat chunks = sent \<longrightarrow>
      (\<exists>fp fs. feed_chunks crc chunks = Some (fp, fs) \<and> prefix fs taken \<and> (queued q = [] \<longrightarrow> fs = taken))"
    using sent_parses [of sent "queued q" crc taken] r(2) t by auto
  with r(1,3) all show ?thesis unfolding t(1)
    by (intro exI [of _ q] exI [of _ sent] exI [of _ taken]) simp
qed

theorem link_delivers_witness:
  "\<exists>q sent taken.
     run_queue enqueue drain_to_fd queued (LINK_TXBUF_SIZE - 1)
       [Push (build_frame crc32_buf F_HELLO 0 []), Drain (\<lambda>bs. Written (length bs div 2)),
        Push (build_frame crc32_buf F_DATA 1 [0x7E]), Drain (\<lambda>bs. WriteErr EAGAIN),
        Drain (\<lambda>bs. Written (length bs))] txq_new
       = Some (q, sent, map (enc crc32_buf) taken)"
proof -
  let ?ops = "[Push (build_frame crc32_buf F_HELLO 0 []), Drain (\<lambda>bs. Written (length bs div 2)),
        Push (build_frame crc32_buf F_DATA 1 [0x7E]), Drain (\<lambda>bs. WriteErr EAGAIN),
        Drain (\<lambda>bs. Written (length bs))]"
  have 1: "list_all op_ok ?ops" by auto
  have 2: "\<forall>d \<in> set (pushed ?ops).
      \<exists>t c p. d = build_frame crc32_buf t c p \<and> length p \<le> MAX_PAYLOAD"
  proof -
    have "length [] \<le> MAX_PAYLOAD" "length [0x7E :: u8] \<le> MAX_PAYLOAD" by (simp_all add: mux_consts)
    then show ?thesis by (simp del: list.size) blast
  qed
  from link_delivers [OF 1 2] show ?thesis by blast
qed

end
